(* ===== verification/Prelude.thy ===== *)
theory Prelude
  imports Main "HOL-Library.Word" "HOL-Library.List_Lexorder"
begin

text \<open>
  Shared vocabulary of the development: the machine types of the Rust sources, the
  result type, checked and saturating arithmetic, the fixed-width byte encodings
  (\<open>to_be_bytes\<close>, \<open>to_le_bytes\<close> and their inverses) and the generic lemmas on byte
  strings that the components use.

  A Rust fixed-size array \<open>[u8; n]\<close> that is only compared and copied (a digest, an
  identifier) is an \<open>8 n\<close>-bit word; its bytes are the big-endian encoding of the word,
  so byte-wise equality and lexicographic order are equality and order of words.
  \<open>usize\<close> values that count bytes of an existing buffer are \<open>nat\<close>; where the source
  checks them for overflow the bound \<open>2 ^ 64\<close> is written out.
\<close>

section \<open>Machine types and results\<close>

type_synonym byte = "8 word"
type_synonym bytes = "byte list"
type_synonym u32 = "32 word"
type_synonym u64 = "64 word"
type_synonym u128 = "128 word"
type_synonym digest = "256 word"

named_theorems codec_simps "unfolding rules of encoders and decoders"
named_theorems codec_len "lengths of encoded fields"
named_theorems map_order "facts on ordered maps"

abbreviation u64_max :: u64 where
  "u64_max \<equiv> - 1"

definition bind_res :: "'e + 'a \<Rightarrow> ('a \<Rightarrow> 'e + 'b) \<Rightarrow> 'e + 'b" where
  "bind_res r f = (case r of Inl e \<Rightarrow> Inl e | Inr v \<Rightarrow> f v)"

lemma bind_res_simps [simp]:
  "bind_res (Inl e) f = Inl e"
  "bind_res (Inr v) f = f v"
  by (simp_all add: bind_res_def)

lemma bind_res_Inr_iff:
  "bind_res r f = Inr y \<longleftrightarrow> (\<exists>v. r = Inr v \<and> f v = Inr y)"
  by (cases r) simp_all

lemma bind_res_Inl_iff:
  "bind_res r f = Inl e \<longleftrightarrow> r = Inl e \<or> (\<exists>v. r = Inr v \<and> f v = Inl e)"
  by (cases r) simp_all

lemma bind_res_cong [fundef_cong]:
  "r = r' \<Longrightarrow> (\<And>v. r' = Inr v \<Longrightarrow> f v = f' v) \<Longrightarrow> bind_res r f = bind_res r' f'"
  by (cases r') simp_all

definition is_ok :: "'e + 'a \<Rightarrow> bool" where
  "is_ok r = (case r of Inl _ \<Rightarrow> False | Inr _ \<Rightarrow> True)"

lemma is_ok_simps [simp]: "is_ok (Inr v)" "\<not> is_ok (Inl e)"
  by (simp_all add: is_ok_def)

lemma is_ok_iff: "is_ok r \<longleftrightarrow> (\<exists>v. r = Inr v)"
  by (cases r) simp_all

section \<open>Checked and saturating arithmetic\<close>

definition checked_add :: "'a::len word \<Rightarrow> 'a word \<Rightarrow> 'a word option" where
  "checked_add a b = (if unat a + unat b < 2 ^ LENGTH('a) then Some (a + b) else None)"

definition checked_sub :: "'a::len word \<Rightarrow> 'a word \<Rightarrow> 'a word option" where
  "checked_sub a b = (if b \<le> a then Some (a - b) else None)"

definition checked_mul :: "'a::len word \<Rightarrow> 'a word \<Rightarrow> 'a word option" where
  "checked_mul a b = (if unat a * unat b < 2 ^ LENGTH('a) then Some (a * b) else None)"

definition saturating_add :: "'a::len word \<Rightarrow> 'a word \<Rightarrow> 'a word" where
  "saturating_add a b = (if unat a + unat b < 2 ^ LENGTH('a) then a + b else - 1)"

definition saturating_sub :: "'a::len word \<Rightarrow> 'a word \<Rightarrow> 'a word" where
  "saturating_sub a b = (if b \<le> a then a - b else 0)"

lemma unat_add_exact:
  "unat a + unat b < 2 ^ LENGTH('a) \<Longrightarrow> unat (a + b) = unat a + unat (b :: 'a::len word)"
  by (simp add: unat_word_ariths)

lemma unat_lt2p: "unat (w :: 'a::len word) < 2 ^ LENGTH('a)"
  by (rule unsigned_less)

lemma unat_of_nat_u64: "n < 2 ^ 64 \<Longrightarrow> unat (of_nat n :: 64 word) = n"
  by (simp add: unat_of_nat take_bit_eq_mod)

lemma unat_of_nat_u32: "n < 2 ^ 32 \<Longrightarrow> unat (of_nat n :: 32 word) = n"
  by (simp add: unat_of_nat take_bit_eq_mod)

lemma unat_max_word: "unat (- 1 :: 'a::len word) = 2 ^ LENGTH('a) - 1"
  by (simp add: unsigned_minus_1_eq_mask mask_eq_exp_minus_1)

lemma checked_add_SomeD:
  "checked_add a b = Some c \<Longrightarrow> unat c = unat a + unat b"
  by (auto simp: checked_add_def unat_add_exact split: if_splits)

lemma checked_add_eq_Some:
  "checked_add a b = Some c \<longleftrightarrow> unat c = unat a + unat b"
proof
  assume "unat c = unat a + unat b"
  moreover have "unat c < 2 ^ LENGTH('a)" by (rule unat_lt2p)
  ultimately have "unat a + unat b < 2 ^ LENGTH('a)" by simp
  with \<open>unat c = unat a + unat b\<close> show "checked_add a b = Some c"
    by (simp add: checked_add_def word_unat_eq_iff unat_add_exact)
qed (rule checked_add_SomeD)

lemma checked_sub_SomeD:
  "checked_sub a b = Some c \<Longrightarrow> b \<le> a \<and> unat c = unat a - unat b"
  by (auto simp: checked_sub_def unat_sub split: if_splits)

lemma checked_mul_SomeD:
  "checked_mul a b = Some c \<Longrightarrow> unat c = unat a * unat b"
  by (auto simp: checked_mul_def unat_word_ariths split: if_splits)

lemma unat_saturating_add:
  "unat (saturating_add a (b :: 'a::len word)) = min (unat a + unat b) (2 ^ LENGTH('a) - 1)"
  using unat_lt2p [of a] by (auto simp: saturating_add_def unat_add_exact unat_max_word min_def)

lemma unat_saturating_sub:
  "unat (saturating_sub a (b :: 'a::len word)) = unat a - unat b"
  by (auto simp: saturating_sub_def unat_sub word_le_nat_alt)

lemma saturating_add_ge: "a \<le> saturating_add a (b :: 'a::len word)"
proof -
  have "unat a \<le> 2 ^ LENGTH('a) - 1" using unat_lt2p [of a] by linarith
  then show ?thesis by (simp add: word_le_nat_alt unat_saturating_add)
qed

lemma unat_max: "unat (max a (b :: 'a::len word)) = max (unat a) (unat b)"
  by (auto simp: max_def word_le_nat_alt)

lemma unat_min: "unat (min a (b :: 'a::len word)) = min (unat a) (unat b)"
  by (auto simp: min_def word_le_nat_alt)

section \<open>Fixed-width byte encodings\<close>

fun be_of_nat :: "nat \<Rightarrow> nat \<Rightarrow> bytes" where
  "be_of_nat 0 k = []"
| "be_of_nat (Suc n) k = be_of_nat n (k div 256) @ [of_nat k]"

definition nat_of_be :: "bytes \<Rightarrow> nat" where
  "nat_of_be bs = foldl (\<lambda>acc b. acc * 256 + unat b) 0 bs"

definition to_be :: "nat \<Rightarrow> 'a::len word \<Rightarrow> bytes" where
  "to_be n w = be_of_nat n (unat w)"

definition from_be :: "bytes \<Rightarrow> 'a::len word" where
  "from_be bs = of_nat (nat_of_be bs)"

definition to_le :: "nat \<Rightarrow> 'a::len word \<Rightarrow> bytes" where
  "to_le n w = rev (to_be n w)"

definition from_le :: "bytes \<Rightarrow> 'a::len word" where
  "from_le bs = from_be (rev bs)"

lemma length_be_of_nat [simp]: "length (be_of_nat n k) = n"
  by (induction n arbitrary: k) simp_all

lemma length_to_be [simp, codec_len]: "length (to_be n w) = n"
  by (simp add: to_be_def)

lemma length_to_le [simp, codec_len]: "length (to_le n w) = n"
  by (simp add: to_le_def)

lemma nat_of_be_snoc [simp]: "nat_of_be (bs @ [b]) = nat_of_be bs * 256 + unat b"
  by (simp add: nat_of_be_def)

lemma nat_of_be_Nil [simp]: "nat_of_be [] = 0"
  by (simp add: nat_of_be_def)

lemma unat_byte_lt [simp]: "unat (b :: byte) < 256"
  using unat_lt2p [of b] by simp

lemma nat_of_be_lt: "nat_of_be bs < 256 ^ length bs"
proof (induction bs rule: rev_induct)
  case (snoc b bs)
  have "nat_of_be bs * 256 + unat b < nat_of_be bs * 256 + 256" by simp
  also have "\<dots> = (nat_of_be bs + 1) * 256" by simp
  also have "\<dots> \<le> 256 ^ length bs * 256"
    using snoc.IH by (intro mult_right_mono) simp_all
  finally show ?case by (simp add: mult.commute)
qed simp

lemma unat_of_nat_byte: "unat (of_nat k :: byte) = k mod 256"
  by (simp add: unat_of_nat)

lemma nat_of_be_of_nat: "nat_of_be (be_of_nat n k) = k mod 256 ^ n"
proof (induction n arbitrary: k)
  case (Suc n)
  have "k mod (256 * 256 ^ n) = 256 * (k div 256 mod 256 ^ n) + k mod 256"
    by (rule mod_mult2_eq)
  with Suc show ?case by (simp add: unat_of_nat_byte mult.commute add.commute)
qed simp

lemma be_of_nat_of_be: "length bs = n \<Longrightarrow> be_of_nat n (nat_of_be bs) = bs"
proof (induction bs arbitrary: n rule: rev_induct)
  case (snoc b bs)
  then obtain m where n: "n = Suc m" and "length bs = m" by (cases n) simp_all
  moreover have "of_nat (nat_of_be bs * 256 + unat b) = b"
  proof -
    have "unat (of_nat (nat_of_be bs * 256 + unat b) :: byte) = (nat_of_be bs * 256 + unat b) mod 256"
      by (rule unat_of_nat_byte)
    also have "\<dots> = unat b" by (simp add: mod_mult_self3)
    finally show ?thesis by (simp only: word_unat_eq_iff)
  qed
  ultimately show ?case using snoc.IH by simp
qed simp

lemma pow_256: "256 ^ n = (2 :: nat) ^ (8 * n)"
  by (simp add: power_mult)

lemma from_to_be:
  "8 * n = LENGTH('a) \<Longrightarrow> from_be (to_be n w) = (w :: 'a::len word)"
proof -
  assume n: "8 * n = LENGTH('a)"
  have "unat w < 256 ^ n" using unat_lt2p [of w] n by (simp add: pow_256)
  then show ?thesis
    by (simp add: from_be_def to_be_def nat_of_be_of_nat)
qed

lemma to_from_be:
  "length bs = n \<Longrightarrow> 8 * n = LENGTH('a) \<Longrightarrow> to_be n (from_be bs :: 'a::len word) = bs"
proof -
  assume n: "length bs = n" and l: "8 * n = LENGTH('a)"
  have "nat_of_be bs < 2 ^ LENGTH('a)" using nat_of_be_lt [of bs] n l by (simp add: pow_256)
  then have "unat (from_be bs :: 'a word) = nat_of_be bs"
    by (simp add: from_be_def unat_of_nat)
  then show ?thesis by (simp add: to_be_def be_of_nat_of_be n)
qed

lemma from_to_le:
  "8 * n = LENGTH('a) \<Longrightarrow> from_le (to_le n w) = (w :: 'a::len word)"
  by (simp add: from_le_def to_le_def from_to_be)

lemma to_from_le:
  "length bs = n \<Longrightarrow> 8 * n = LENGTH('a) \<Longrightarrow> to_le n (from_le bs :: 'a::len word) = bs"
  by (simp add: from_le_def to_le_def to_from_be)

lemma from_to_be_widths [simp]:
  "from_be (to_be 4 (a :: u32)) = a"
  "from_be (to_be 8 (b :: u64)) = b"
  "from_be (to_be 16 (c :: u128)) = c"
  "from_be (to_be 32 (d :: digest)) = d"
  "from_le (to_le 4 (a :: u32)) = a"
  "from_le (to_le 8 (b :: u64)) = b"
  by (simp_all add: from_to_be from_to_le)

lemma to_from_be_widths:
  "length bs = 4 \<Longrightarrow> to_be 4 (from_be bs :: u32) = bs"
  "length bs = 8 \<Longrightarrow> to_be 8 (from_be bs :: u64) = bs"
  "length bs = 16 \<Longrightarrow> to_be 16 (from_be bs :: u128) = bs"
  "length bs = 32 \<Longrightarrow> to_be 32 (from_be bs :: digest) = bs"
  "length bs = 4 \<Longrightarrow> to_le 4 (from_le bs :: u32) = bs"
  "length bs = 8 \<Longrightarrow> to_le 8 (from_le bs :: u64) = bs"
  by (simp_all add: to_from_be to_from_le)

section \<open>Order of byte strings\<close>

lemma append_less_iff:
  fixes xs ys :: "'a::linorder list"
  assumes "length xs = length ys"
  shows "xs @ us < ys @ vs \<longleftrightarrow> xs < ys \<or> xs = ys \<and> us < vs"
  using assms by (induction xs ys rule: list_induct2) auto

lemma append_le_iff:
  fixes xs ys :: "'a::linorder list"
  assumes "length xs = length ys"
  shows "xs @ us \<le> ys @ vs \<longleftrightarrow> xs < ys \<or> xs = ys \<and> us \<le> vs"
  using assms by (induction xs ys rule: list_induct2) auto

lemma le_append_iff:
  "length xs = length ys \<Longrightarrow> xs \<le> ys @ us \<longleftrightarrow> xs \<le> (ys :: 'a::linorder list)"
  using append_le_iff [of xs ys "[]" us] append_le_iff [of xs ys "[]" "[]"] by simp

lemma append_less_iff_left:
  "length xs = length ys \<Longrightarrow> xs @ us < ys \<longleftrightarrow> xs < (ys :: 'a::linorder list)"
  using append_less_iff [of xs ys us "[]"] by auto

lemma same_prefix_less [simp]:
  "p @ us < p @ vs \<longleftrightarrow> us < (vs :: 'a::linorder list)"
  by (simp add: append_less_iff)

lemma same_prefix_le [simp]:
  "p @ us \<le> p @ vs \<longleftrightarrow> us \<le> (vs :: 'a::linorder list)"
  by (simp add: append_le_iff)

lemma be_bytes_less_iff:
  "length xs = length ys \<Longrightarrow> xs < ys \<longleftrightarrow> nat_of_be xs < nat_of_be ys"
proof (induction xs arbitrary: ys rule: rev_induct)
  case (snoc x xs)
  then obtain z zs where ys: "ys = zs @ [z]" and l: "length xs = length zs"
    by (cases ys rule: rev_exhaust) auto
  have "unat x < 256" "unat z < 256" by simp_all
  then have "nat_of_be xs * 256 + unat x < nat_of_be zs * 256 + unat z \<longleftrightarrow>
      nat_of_be xs < nat_of_be zs \<or> nat_of_be xs = nat_of_be zs \<and> unat x < unat z"
    by linarith
  moreover have "xs = zs \<longleftrightarrow> nat_of_be xs = nat_of_be zs"
    using l be_of_nat_of_be [of xs] be_of_nat_of_be [of zs] by metis
  ultimately show ?case
    by (simp add: ys append_less_iff l snoc.IH [OF l] word_less_nat_alt)
qed simp

lemma snoc_zero_next:
  "xs < ys \<longleftrightarrow> xs @ [0 :: byte] \<le> ys"
proof (induction xs arbitrary: ys)
  case Nil
  then show ?case
    by (cases ys) (auto simp: word_neq_0_conv)
next
  case (Cons x xs)
  then show ?case by (cases ys) auto
qed

section \<open>Slices\<close>

text \<open>
  \<open>bslice b i j\<close> is the Rust slice \<open>b[i..j]\<close> where the source has already checked that it is
  in range; \<open>get_range b off len\<close> is \<open>b.get(off..off + len)\<close>.
\<close>

definition bslice :: "'a list \<Rightarrow> nat \<Rightarrow> nat \<Rightarrow> 'a list" where
  "bslice b i j = take (j - i) (drop i b)"

definition get_range :: "'a list \<Rightarrow> nat \<Rightarrow> nat \<Rightarrow> 'a list option" where
  "get_range b off len = (if off + len \<le> length b then Some (take len (drop off b)) else None)"

lemma length_bslice [simp]: "length (bslice b i j) = min (j - i) (length b - i)"
  by (simp add: bslice_def min.commute)

lemma slice_append_slice: "i \<le> j \<Longrightarrow> j \<le> k \<Longrightarrow> bslice b i j @ bslice b j k = bslice b i k"
proof -
  assume "i \<le> j" "j \<le> k"
  then have "bslice b i k = take ((j - i) + (k - j)) (drop i b)" by (simp add: bslice_def)
  also have "\<dots> = take (j - i) (drop i b) @ take (k - j) (drop (j - i) (drop i b))"
    by (rule take_add)
  also have "drop (j - i) (drop i b) = drop j b" using \<open>i \<le> j\<close> by simp
  finally show ?thesis by (simp add: bslice_def)
qed

lemma slice_append_slice_assoc:
  "i \<le> j \<Longrightarrow> j \<le> k \<Longrightarrow> bslice b i j @ bslice b j k @ r = bslice b i k @ r"
  by (metis append.assoc slice_append_slice)

lemma slice_single: "i < length b \<Longrightarrow> bslice b i (Suc i) = [b ! i]"
  by (simp add: bslice_def take_Suc_conv_app_nth hd_drop_conv_nth take_Suc)

lemma take_as_slice: "take n b = bslice b 0 n"
  by (simp add: bslice_def)

lemma slice_full: "length b \<le> n \<Longrightarrow> bslice b 0 n = b"
  by (simp add: bslice_def)

lemma length_get_range: "get_range b off len = Some v \<Longrightarrow> length v = len"
  by (auto simp: get_range_def split: if_splits)

lemma get_range_Some_iff:
  "get_range b off len = Some v \<longleftrightarrow> off + len \<le> length b \<and> v = bslice b off (off + len)"
  by (auto simp: get_range_def bslice_def)

text \<open>\<open>slice::chunks_exact\<close>.\<close>

function chunks_exact :: "nat \<Rightarrow> 'a list \<Rightarrow> 'a list list" where
  "chunks_exact n xs =
     (if n = 0 \<or> length xs < n then [] else take n xs # chunks_exact n (drop n xs))"
  by auto
termination by (relation "measure (\<lambda>(n, xs). length xs)") auto

declare chunks_exact.simps [simp del]

lemma chunks_exact_concat:
  "0 < n \<Longrightarrow> (\<forall>x\<in>set xs. length x = n) \<Longrightarrow> chunks_exact n (concat xs) = xs"
  by (induction xs) (simp_all add: chunks_exact.simps [of n])

lemma concat_chunks_exact: "0 < n \<Longrightarrow> n dvd length xs \<Longrightarrow> concat (chunks_exact n xs) = xs"
proof (induction n xs rule: chunks_exact.induct)
  case (1 n xs)
  show ?case
  proof (cases "length xs < n")
    case True
    with 1(3) have "xs = []" by (metis dvd_imp_le leD length_greater_0_conv)
    then show ?thesis using 1(2) by (simp add: chunks_exact.simps)
  next
    case False
    with 1(2,3) have "concat (chunks_exact n (drop n xs)) = drop n xs"
      by (intro 1(1)) auto
    with False 1(2) show ?thesis by (subst chunks_exact.simps) simp
  qed
qed

lemma chunks_exact_lengths: "x \<in> set (chunks_exact n xs) \<Longrightarrow> length x = n"
  by (induction n xs rule: chunks_exact.induct)
    (subst (asm) (2) chunks_exact.simps, auto split: if_splits)

text \<open>The iterator's \<open>remainder()\<close>.\<close>

definition chunks_remainder :: "nat \<Rightarrow> 'a list \<Rightarrow> 'a list" where
  "chunks_remainder n xs = drop (length xs div n * n) xs"

lemma chunks_remainder_step:
  "0 < n \<Longrightarrow> n \<le> length xs \<Longrightarrow> chunks_remainder n (drop n xs) = chunks_remainder n xs"
  by (simp add: chunks_remainder_def div_if [of "length xs" n] add.commute)

lemma concat_chunks_remainder:
  "0 < n \<Longrightarrow> concat (chunks_exact n xs) @ chunks_remainder n xs = xs"
proof (induction n xs rule: chunks_exact.induct)
  case (1 n xs)
  show ?case
  proof (cases "length xs < n")
    case True
    with 1(2) show ?thesis by (simp add: chunks_exact.simps chunks_remainder_def)
  next
    case False
    with 1 have "concat (chunks_exact n (drop n xs)) @ chunks_remainder n (drop n xs) = drop n xs" by simp
    with False 1(2) show ?thesis
      by (subst chunks_exact.simps) (simp add: chunks_remainder_step)
  qed
qed

end
