(* ===== verification/Common.thy ===== *)
theory Common
  imports Prelude
begin

text \<open>
  The identifiers, the tenant and keyspace model and the crate-wide error type of
  \<open>crates/common\<close> (\<open>ids.rs\<close>, \<open>keyspace.rs\<close>, \<open>error.rs\<close>). The Rust newtypes over
  integers are type synonyms of the integer. An error that carries a formatted message
  keeps the fixed text of the message; numbers interpolated into a message are dropped,
  numbers that are fields of the variant are kept.
\<close>

section \<open>Identifiers\<close>

type_synonym node_id = u64
type_synonym region_id = u64
type_synonym keyspace_id = u32
type_synonym tenant_id = u64

definition META_REGION_0 :: region_id where
  "META_REGION_0 = 1"

definition BACKUP_DESTINATION_NODE :: node_id where
  "BACKUP_DESTINATION_NODE = - 1"

definition KEYSPACE_SYSTEM :: keyspace_id where
  "KEYSPACE_SYSTEM = 0"

definition KEYSPACE_MAX :: keyspace_id where
  "KEYSPACE_MAX = 0x00FFFFFF"

record applied_position =
  ap_term :: u64
  ap_index :: u64

lemma unat_KEYSPACE_MAX [simp]: "unat KEYSPACE_MAX = 16777215"
  by (simp add: KEYSPACE_MAX_def)

section \<open>Errors\<close>

datatype ttl_rejection = NotEnabled | LegacyCommand | InvalidScope

datatype clock_refusal =
    ClkUnavailable | ClkWarmingUp | ClkUnsynchronized | ClkInvalidReading | ClkSampleTooSlow
  | ClkExcessiveUncertainty | ClkDiscontinuity | ClkSourceFailed | ClkFenced | ClkBehindWatermark

datatype read_barrier_phase = QuorumConfirmation | ApplyCatchUp

datatype error =
    RawTtlClock clock_refusal
  | KeyspaceIdOutOfRange u32
  | MalformedKey string
  | InvalidKeyMode byte
  | KeyspaceNotFound keyspace_id
  | ApiTypeMismatch keyspace_id
  | RegionNotFound
  | StaleEpoch region_id
  | RawTtlRejected region_id ttl_rejection
  | WriteConflict string
  | MetaNotReady string
  | RaftError string
  | WriteBackpressure region_id
  | RangeCrossesRegion
  | PartialDeleteRange u64 u64 u64 string
  | NotLeader "node_id option"
  | ReadUnconfirmed read_barrier_phase
  | ObjectContentMismatch string
  | EngineError string
  | ConfigError string
  | NotImplemented string

type_synonym 'a result = "error + 'a"

section \<open>The cluster identity as text\<close>

text \<open>
  \<open>ClusterId\<close> is 16 bytes, printed as exactly 32 lower-case hexadecimal digits and parsed
  from 32 digits of either case.
\<close>

definition hex_digit :: "nat \<Rightarrow> byte" where
  "hex_digit n = (if n < 10 then of_nat (48 + n) else of_nat (87 + n))"

definition hex_value :: "byte \<Rightarrow> nat option" where
  "hex_value c =
     (let n = unat c in
      if 48 \<le> n \<and> n \<le> 57 then Some (n - 48)
      else if 65 \<le> n \<and> n \<le> 70 then Some (n - 55)
      else if 97 \<le> n \<and> n \<le> 102 then Some (n - 87)
      else None)"

definition cluster_id_display :: "u128 \<Rightarrow> bytes" where
  "cluster_id_display c =
     concat (map (\<lambda>b. [hex_digit (unat b div 16), hex_digit (unat b mod 16)]) (to_be 16 c))"

fun hex_pairs :: "bytes \<Rightarrow> bytes" where
  "hex_pairs (h # l # rest) =
     of_nat (the (hex_value h) * 16 + the (hex_value l)) # hex_pairs rest"
| "hex_pairs _ = []"

definition cluster_id_from_str :: "bytes \<Rightarrow> u128 result" where
  "cluster_id_from_str s =
     (if length s \<noteq> 32 then Inl (ConfigError ''cluster id must be exactly 32 hex characters'')
      else if \<exists>b \<in> set s. hex_value b = None
      then Inl (ConfigError ''cluster id must be hex'')
      else Inr (from_be (hex_pairs s)))"

lemma hex_value_digit: "n < 16 \<Longrightarrow> hex_value (hex_digit n) = Some n"
  by (auto simp: hex_value_def hex_digit_def Let_def unat_of_nat_byte simp del: of_nat_add)

lemma hex_pairs_display:
  "hex_pairs (concat (map (\<lambda>b. [hex_digit (unat b div 16), hex_digit (unat b mod 16)]) bs)) = bs"
proof (induction bs)
  case (Cons b bs)
  have "unat b div 16 < 16" using unat_byte_lt [of b] by linarith
  then show ?case using Cons
    by (simp add: hex_value_digit of_nat_add [symmetric] of_nat_mult [symmetric]
        del: of_nat_add of_nat_mult)
qed simp

lemma length_concat_pairs: "length (concat (map (\<lambda>b. [f b, g b]) bs)) = 2 * length bs"
  by (induction bs) simp_all

lemma display_is_hex:
  "b \<in> set (concat (map (\<lambda>b. [hex_digit (unat b div 16), hex_digit (unat b mod 16)]) (bs :: bytes))) \<Longrightarrow>
     hex_value b \<noteq> None"
proof -
  assume "b \<in> set (concat (map (\<lambda>b. [hex_digit (unat b div 16), hex_digit (unat b mod 16)]) bs))"
  then have "\<exists>c :: byte. b = hex_digit (unat c div 16) \<or> b = hex_digit (unat c mod 16)"
    by auto
  then obtain c :: byte where "b = hex_digit (unat c div 16) \<or> b = hex_digit (unat c mod 16)" ..
  moreover have "unat c div 16 < 16" using unat_byte_lt [of c] by linarith
  ultimately show ?thesis by (auto simp: hex_value_digit)
qed

text \<open>Parsing inverts printing for every cluster identity.\<close>

lemma cluster_id_roundtrip: "cluster_id_from_str (cluster_id_display c) = Inr c"
  using display_is_hex [of _ "to_be 16 c"]
  by (auto simp: cluster_id_from_str_def cluster_id_display_def length_concat_pairs hex_pairs_display
      simp del: set_concat)

end
