(* ===== verification/OrdMap.thy ===== *)
theory OrdMap
  imports Prelude
begin

text \<open>
  The ordered map of the standard library (\<open>std::collections::BTreeMap\<close>) as a strictly
  sorted association list: \<open>get\<close> is \<^const>\<open>map_of\<close>, iteration is the list itself. The components
  that use a \<open>BTreeMap\<close> use these operations.
\<close>

type_synonym ('k, 'v) omap = "('k \<times> 'v) list"

definition om_ok :: "('k :: linorder, 'v) omap \<Rightarrow> bool" where
  "om_ok m \<longleftrightarrow> sorted_wrt (<) (map fst m)"

fun om_insert :: "'k :: linorder \<Rightarrow> 'v \<Rightarrow> ('k, 'v) omap \<Rightarrow> ('k, 'v) omap" where
  "om_insert k v [] = [(k, v)]"
| "om_insert k v ((k', v') # m) =
     (if k < k' then (k, v) # (k', v') # m
      else if k = k' then (k, v) # m
      else (k', v') # om_insert k v m)"

definition om_remove :: "'k :: linorder \<Rightarrow> ('k, 'v) omap \<Rightarrow> ('k, 'v) omap" where
  "om_remove k m = filter (\<lambda>e. fst e \<noteq> k) m"

text \<open>\<open>range(lo..hi)\<close>; the callers keep \<open>lo \<le> hi\<close>.\<close>

definition om_range :: "'k :: linorder \<Rightarrow> 'k \<Rightarrow> ('k, 'v) omap \<Rightarrow> ('k, 'v) omap" where
  "om_range lo hi m = filter (\<lambda>e. lo \<le> fst e \<and> fst e < hi) m"

lemma om_ok_Nil [simp]: "om_ok []"
  by (simp add: om_ok_def)

lemma om_ok_Cons: "om_ok (e # m) \<longleftrightarrow> (\<forall>k\<in>fst ` set m. fst e < k) \<and> om_ok m"
  by (auto simp: om_ok_def)

lemma om_ok_distinct: "om_ok m \<Longrightarrow> distinct (map fst m)"
  by (induction m) (auto simp: om_ok_Cons)

lemma om_keys_insert [simp]: "fst ` set (om_insert k v m) = insert k (fst ` set m)"
  by (induction k v m rule: om_insert.induct) auto

lemma om_ok_insert [simp, intro]: "om_ok m \<Longrightarrow> om_ok (om_insert k v m)"
  by (induction k v m rule: om_insert.induct) (auto simp: om_ok_Cons)

lemma om_get_insert [simp]: "om_ok m \<Longrightarrow> map_of (om_insert k v m) = (map_of m)(k \<mapsto> v)"
proof (induction k v m rule: om_insert.induct)
  case (2 k v k' v' m)
  then show ?case by (auto simp: om_ok_Cons fun_eq_iff map_of_eq_None_iff)
qed simp

lemma om_ok_filter [simp, intro]: "om_ok m \<Longrightarrow> om_ok (filter P m)"
  by (induction m) (auto simp: om_ok_Cons)

lemma om_ok_remove [simp, intro]: "om_ok m \<Longrightarrow> om_ok (om_remove k m)"
  by (simp add: om_remove_def)

lemma om_get_filter:
  "om_ok m \<Longrightarrow> map_of (filter (\<lambda>e. P (fst e)) m) k = (if P k then map_of m k else None)"
  by (induction m) (auto simp: om_ok_Cons)

lemma om_get_remove [simp]: "om_ok m \<Longrightarrow> map_of (om_remove k m) = (map_of m)(k := None)"
  by (auto simp: om_remove_def om_get_filter [where P = "\<lambda>x. x \<noteq> k"] fun_eq_iff)

lemma om_get_range:
  "om_ok m \<Longrightarrow> map_of (om_range lo hi m) k = (if lo \<le> k \<and> k < hi then map_of m k else None)"
  unfolding om_range_def by (rule om_get_filter [where P = "\<lambda>x. lo \<le> x \<and> x < hi"])

lemma om_ok_range [simp, intro]: "om_ok m \<Longrightarrow> om_ok (om_range lo hi m)"
  by (simp add: om_range_def)

lemma om_mem_iff: "om_ok m \<Longrightarrow> (k, v) \<in> set m \<longleftrightarrow> map_of m k = Some v"
  by (simp add: om_ok_distinct)

text \<open>A sorted list is determined by the map it denotes.\<close>

lemma om_ext_set: "om_ok m \<Longrightarrow> om_ok n \<Longrightarrow> set m = set n \<Longrightarrow> m = n"
proof (induction m arbitrary: n)
  case (Cons a m)
  then obtain b n' where n: "n = b # n'" by (cases n) auto
  have "a = b"
  proof (rule ccontr)
    assume "a \<noteq> b"
    with Cons.prems n have "a \<in> set n'" "b \<in> set m" by auto
    with Cons.prems n have "fst a < fst b" "fst b < fst a" by (auto simp: om_ok_Cons)
    then show False by simp
  qed
  moreover have "a \<notin> set m" "b \<notin> set n'" using Cons.prems n by (auto simp: om_ok_Cons)
  ultimately have "set m = set n'" using Cons.prems n by auto
  with Cons n \<open>a = b\<close> show ?case by (simp add: om_ok_Cons)
qed simp

lemma om_ext: "om_ok m \<Longrightarrow> om_ok n \<Longrightarrow> map_of m = map_of n \<Longrightarrow> m = n"
  by (rule om_ext_set) (auto simp: om_mem_iff)

lemma om_length_insert:
  "om_ok m \<Longrightarrow> length (om_insert k v m) = (if map_of m k = None then Suc (length m) else length m)"
  by (induction k v m rule: om_insert.induct)
    (auto simp: om_ok_Cons map_of_eq_None_iff split: if_splits)

lemma om_insert_snoc: "om_ok (m @ [(k, v)]) \<Longrightarrow> om_insert k v m = m @ [(k, v)]"
  by (induction m) (auto simp: om_ok_Cons)

lemma om_ok_append:
  "om_ok (m @ n) \<longleftrightarrow> om_ok m \<and> om_ok n \<and> (\<forall>a\<in>set m. \<forall>b\<in>set n. fst a < fst b)"
  by (auto simp: om_ok_def sorted_wrt_append)

lemma om_set_insert_subset: "set (om_insert k v m) \<subseteq> insert (k, v) (set m)"
  by (induction k v m rule: om_insert.induct) auto

lemma om_ball_insert: "\<forall>e\<in>set m. P e \<Longrightarrow> P (k, v) \<Longrightarrow> e \<in> set (om_insert k v m) \<Longrightarrow> P e"
  using om_set_insert_subset [of k v m] by blast

lemma om_ok_last_less:
  "om_ok m \<Longrightarrow> om_ok (m @ [(k, v)]) \<longleftrightarrow> m = [] \<or> fst (last m) < k"
proof (induction m)
  case (Cons a m)
  then show ?case by (cases m) (auto simp: om_ok_Cons)
qed (simp add: om_ok_Cons)

text \<open>Splitting off the greatest key of a range.\<close>

lemma om_range_split:
  assumes "om_ok m" "lo \<le> key" "key < hi" "\<forall>e\<in>set m. lo \<le> fst e \<and> fst e < hi \<longrightarrow> fst e \<le> key"
  shows "om_range lo hi m = om_range lo key m @ (case map_of m key of None \<Rightarrow> [] | Some val \<Rightarrow> [(key, val)])"
proof (rule om_ext_set)
  show "om_ok (om_range lo key m @ (case map_of m key of None \<Rightarrow> [] | Some val \<Rightarrow> [(key, val)]))"
    using assms(1) by (auto simp: om_ok_append om_range_def om_ok_Cons split: option.splits)
  show "set (om_range lo hi m) = set (om_range lo key m @ (case map_of m key of None \<Rightarrow> [] | Some val \<Rightarrow> [(key, val)]))"
  proof (rule set_eqI)
    fix e
    show "e \<in> set (om_range lo hi m) \<longleftrightarrow>
        e \<in> set (om_range lo key m @ (case map_of m key of None \<Rightarrow> [] | Some val \<Rightarrow> [(key, val)]))"
      using assms om_mem_iff [OF assms(1), of "fst e" "snd e"]
      by (cases e) (fastforce simp: om_range_def order_le_less split: option.splits)
  qed
qed (use assms(1) in simp)

text \<open>The entries after a nonempty prefix, and those before a nonempty suffix.\<close>

lemma om_after_prefix:
  assumes "om_ok (a @ b)" "a \<noteq> []"
  shows "filter (\<lambda>e. fst (last a) < fst e) (a @ b) = b"
  using assms(2)
proof (cases a rule: rev_cases)
  case (snoc a' x)
  have "filter (\<lambda>e. fst x < fst e) a' = []" "filter (\<lambda>e. fst x < fst e) b = b"
    using assms(1) snoc by (auto simp: om_ok_append om_ok_Cons filter_empty_conv filter_id_conv dest: less_not_sym)
  with snoc show ?thesis by simp
qed simp

lemma om_before_suffix:
  assumes "om_ok (b @ a)" "a \<noteq> []"
  shows "filter (\<lambda>e. fst e < fst (hd a)) (b @ a) = b"
proof -
  obtain x a' where a: "a = x # a'" using assms(2) by (cases a) auto
  have "filter (\<lambda>e. fst e < fst x) a' = []" "filter (\<lambda>e. fst e < fst x) b = b"
    using assms(1) a by (auto simp: om_ok_append om_ok_Cons filter_empty_conv filter_id_conv dest: less_not_sym)
  with a show ?thesis by simp
qed

end
