(* ===== verification/Retention.thy ===== *)
theory Retention
  imports Common OrdMap
begin

text \<open>
  Retention records, \<open>crates/common/src/retention.rs\<close>: the per-resource pin state machine
  and its recovery encoding. \<open>NonZeroU64\<close> and \<open>OwnerId\<close> are words with the non-zero condition
  in \<open>token_ok\<close>; SHA-256 is the parameter \<open>sha256\<close>. \<open>pin_apply\<close> returns the record it leaves
  behind together with the result, so that a refusal's effect on the state is visible.
\<close>

section \<open>Data\<close>

definition PIN_MAGIC :: bytes where
  "PIN_MAGIC = [0x4b, 0x56, 0x39, 0x50, 0x49, 0x4e, 0x30, 0x31]"

definition PIN_HEADER :: nat where "PIN_HEADER = 8 + 32 + 1 + 16 + 32 + 8 + 1 + 4"

definition OWNER_BYTES :: nat where "OWNER_BYTES = 16 + 8 + 1"

definition MAX_PIN_OWNERS :: nat where "MAX_PIN_OWNERS = 4096"

definition MAX_PIN_RECORD_BYTES :: nat where
  "MAX_PIN_RECORD_BYTES = PIN_HEADER + MAX_PIN_OWNERS * OWNER_BYTES + 32"

datatype pin_error = InvalidIdentity | Format | Checksum | WrongResource | Inconsistent | Retired
  | Generation | OwnerState | Pinned | Capacity | Exhausted | Revision

datatype resource_kind = Sst | Manifest | WalSegment | Snapshot | HistoryEvidence | Backup

fun kind_byte :: "resource_kind \<Rightarrow> byte" where
  "kind_byte Sst = 1" | "kind_byte Manifest = 2" | "kind_byte WalSegment = 3"
| "kind_byte Snapshot = 4" | "kind_byte HistoryEvidence = 5" | "kind_byte Backup = 6"

definition kind_of_byte :: "byte \<Rightarrow> pin_error + resource_kind" where
  "kind_of_byte b =
     (if b = 1 then Inr Sst else if b = 2 then Inr Manifest else if b = 3 then Inr WalSegment
      else if b = 4 then Inr Snapshot else if b = 5 then Inr HistoryEvidence
      else if b = 6 then Inr Backup else Inl Format)"

record resource_identity =
  ri_root :: digest
  ri_kind :: resource_kind
  ri_instance :: "128 word"
  ri_content :: digest

definition identity_new ::
  "digest \<Rightarrow> resource_kind \<Rightarrow> 128 word \<Rightarrow> digest \<Rightarrow> pin_error + resource_identity" where
  "identity_new root kind inst content =
     (if root = 0 \<or> inst = 0 then Inl InvalidIdentity
      else Inr \<lparr>ri_root = root, ri_kind = kind, ri_instance = inst, ri_content = content\<rparr>)"

type_synonym owner_id = "128 word"

definition owner_new :: "128 word \<Rightarrow> pin_error + owner_id" where
  "owner_new w = (if w = 0 then Inl InvalidIdentity else Inr w)"

record owner_token =
  ot_owner :: owner_id
  ot_generation :: u64

datatype pin_phase = Held | Published | Quiesced | Released

fun phase_byte :: "pin_phase \<Rightarrow> byte" where
  "phase_byte Held = 1" | "phase_byte Published = 2" | "phase_byte Quiesced = 3"
| "phase_byte Released = 4"

definition phase_of_byte :: "byte \<Rightarrow> pin_error + pin_phase" where
  "phase_of_byte b =
     (if b = 1 then Inr Held else if b = 2 then Inr Published else if b = 3 then Inr Quiesced
      else if b = 4 then Inr Released else Inl Format)"

record owner_slot =
  os_generation :: u64
  os_phase :: pin_phase

datatype pin_command = Acquire owner_token | Publish owner_token | Quiesce owner_token
  | Release owner_token | Share owner_token owner_token | Retire u64

datatype pin_transition = Changed u64 | Unchanged u64

record retention_record =
  rr_identity :: resource_identity
  rr_revision :: u64
  rr_retired :: bool
  rr_owners :: "(owner_id, owner_slot) omap"

section \<open>Transitions\<close>

definition record_new :: "resource_identity \<Rightarrow> retention_record" where
  "record_new identity = \<lparr>rr_identity = identity, rr_revision = 0, rr_retired = False, rr_owners = []\<rparr>"

definition pin_exact :: "retention_record \<Rightarrow> owner_token \<Rightarrow> pin_error + pin_phase" where
  "pin_exact r token =
     (case map_of (rr_owners r) (ot_owner token) of
        None \<Rightarrow> Inl OwnerState
      | Some slot \<Rightarrow>
          if os_generation slot \<noteq> ot_generation token then Inl Generation else Inr (os_phase slot))"

definition pin_acquire :: "retention_record \<Rightarrow> owner_token \<Rightarrow> pin_error + pin_phase option" where
  "pin_acquire r token =
     (if rr_retired r then Inl Retired
      else
        case map_of (rr_owners r) (ot_owner token) of
          None \<Rightarrow>
            if ot_generation token \<noteq> 1 then Inl Generation
            else if length (rr_owners r) = MAX_PIN_OWNERS then Inl Capacity
            else Inr (Some Held)
        | Some slot \<Rightarrow>
            if os_generation slot = ot_generation token
            then if os_phase slot \<in> {Held, Published} then Inr None else Inl OwnerState
            else if os_phase slot \<noteq> Released
                 \<or> checked_add (os_generation slot) 1 \<noteq> Some (ot_generation token)
            then Inl Generation
            else Inr (Some Held))"

text \<open>The \<open>match\<close> that selects the edit, for every command but \<open>Retire\<close>.\<close>

definition pin_edit ::
  "retention_record \<Rightarrow> pin_command \<Rightarrow> pin_error + (owner_token \<times> pin_phase) option" where
  "pin_edit r command =
     (case command of
        Acquire token \<Rightarrow> bind_res (pin_acquire r token) (\<lambda>p. Inr (map_option (Pair token) p))
      | Share from to \<Rightarrow>
          if ot_owner from = ot_owner to then Inl InvalidIdentity
          else bind_res (pin_exact r from) (\<lambda>phase.
            if phase \<notin> {Held, Published} then Inl OwnerState
            else bind_res (pin_acquire r to) (\<lambda>p. Inr (map_option (Pair to) p)))
      | Publish token \<Rightarrow> bind_res (pin_exact r token) (\<lambda>phase. case phase of
            Held \<Rightarrow> Inr (Some (token, Published)) | Published \<Rightarrow> Inr None | _ \<Rightarrow> Inl OwnerState)
      | Quiesce token \<Rightarrow> bind_res (pin_exact r token) (\<lambda>phase. case phase of
            Held \<Rightarrow> Inr (Some (token, Quiesced)) | Published \<Rightarrow> Inr (Some (token, Quiesced))
          | Quiesced \<Rightarrow> Inr None | Released \<Rightarrow> Inl OwnerState)
      | Release token \<Rightarrow> bind_res (pin_exact r token) (\<lambda>phase. case phase of
            Quiesced \<Rightarrow> Inr (Some (token, Released)) | Released \<Rightarrow> Inr None | _ \<Rightarrow> Inl Pinned)
      | Retire _ \<Rightarrow> Inr None)"

definition pin_apply ::
  "retention_record \<Rightarrow> pin_command \<Rightarrow> retention_record \<times> (pin_error + pin_transition)" where
  "pin_apply r command =
     (case command of
        Retire expected \<Rightarrow>
          if rr_retired r then (r, Inr (Unchanged (rr_revision r)))
          else if rr_revision r \<noteq> expected then (r, Inl Revision)
          else if \<exists>e\<in>set (rr_owners r). os_phase (snd e) \<noteq> Released then (r, Inl Pinned)
          else (case checked_add (rr_revision r) 1 of
                  None \<Rightarrow> (r, Inl Exhausted)
                | Some revision \<Rightarrow>
                    (r\<lparr>rr_retired := True, rr_revision := revision\<rparr>, Inr (Changed revision)))
      | _ \<Rightarrow>
          (case pin_edit r command of
             Inl e \<Rightarrow> (r, Inl e)
           | Inr None \<Rightarrow> (r, Inr (Unchanged (rr_revision r)))
           | Inr (Some (token, phase)) \<Rightarrow>
               (case checked_add (rr_revision r) 1 of
                  None \<Rightarrow> (r, Inl Exhausted)
                | Some revision \<Rightarrow>
                    (r\<lparr>rr_owners := om_insert (ot_owner token)
                         \<lparr>os_generation = ot_generation token, os_phase = phase\<rparr> (rr_owners r),
                       rr_revision := revision\<rparr>, Inr (Changed revision)))))"

section \<open>Recovery encoding\<close>

definition enc_owner :: "owner_id \<times> owner_slot \<Rightarrow> bytes" where
  "enc_owner e = to_be 16 (fst e) @ to_be 8 (os_generation (snd e)) @ [phase_byte (os_phase (snd e))]"

definition pin_body :: "retention_record \<Rightarrow> bytes" where
  "pin_body r =
     PIN_MAGIC @ to_be 32 (ri_root (rr_identity r)) @ [kind_byte (ri_kind (rr_identity r))]
     @ to_be 16 (ri_instance (rr_identity r)) @ to_be 32 (ri_content (rr_identity r))
     @ to_be 8 (rr_revision r) @ [if rr_retired r then 1 else 0]
     @ to_be 4 (of_nat (length (rr_owners r)) :: u32)
     @ concat (map enc_owner (rr_owners r))"

definition pin_encode :: "(bytes \<Rightarrow> digest) \<Rightarrow> retention_record \<Rightarrow> bytes" where
  "pin_encode sha256 r = pin_body r @ to_be 32 (sha256 (pin_body r))"

fun decode_owners ::
  "u64 \<Rightarrow> bool \<Rightarrow> owner_id option \<Rightarrow> (owner_id, owner_slot) omap \<Rightarrow> bytes list
    \<Rightarrow> pin_error + (owner_id, owner_slot) omap" where
  "decode_owners revision retired previous owners [] = Inr owners"
| "decode_owners revision retired previous owners (chunk # rest) =
     bind_res (owner_new (from_be (bslice chunk 0 16))) (\<lambda>owner.
       let generation = from_be (bslice chunk 16 24) in
       if generation = 0 then Inl InvalidIdentity
       else bind_res (phase_of_byte (chunk ! 24)) (\<lambda>phase.
         if (case previous of None \<Rightarrow> False | Some p \<Rightarrow> p \<ge> owner)
            \<or> generation > revision \<or> (retired \<and> phase \<noteq> Released)
         then Inl Inconsistent
         else decode_owners revision retired (Some owner)
                (om_insert owner \<lparr>os_generation = generation, os_phase = phase\<rparr> owners) rest))"

definition flag_of_byte :: "byte \<Rightarrow> pin_error + bool" where
  "flag_of_byte b = (if b = 0 then Inr False else if b = 1 then Inr True else Inl Format)"

definition pin_decode ::
  "(bytes \<Rightarrow> digest) \<Rightarrow> bytes \<Rightarrow> resource_identity \<Rightarrow> pin_error + retention_record" where
  "pin_decode sha256 b expected =
     (if length b < PIN_HEADER + 32 \<or> length b > MAX_PIN_RECORD_BYTES \<or> take 8 b \<noteq> PIN_MAGIC
      then Inl Format
      else
        let fin = length b - 32 in
        if to_be 32 (sha256 (take fin b)) \<noteq> drop fin b then Inl Checksum
        else
          bind_res (kind_of_byte (b ! 40)) (\<lambda>kind.
          bind_res (identity_new (from_be (bslice b 8 40)) kind (from_be (bslice b 41 57))
                     (from_be (bslice b 57 89))) (\<lambda>identity.
          if identity \<noteq> expected then Inl WrongResource
          else
            let revision = from_be (bslice b 89 97) in
            bind_res (flag_of_byte (b ! 97)) (\<lambda>retired.
            let count = unat (from_be (bslice b 98 102) :: u32) in
            if count > MAX_PIN_OWNERS \<or> PIN_HEADER + count * OWNER_BYTES \<noteq> fin then Inl Format
            else if retired \<and> revision = 0 then Inl Inconsistent
            else
              bind_res (decode_owners revision retired None []
                          (chunks_exact OWNER_BYTES (bslice b PIN_HEADER fin))) (\<lambda>owners.
              Inr \<lparr>rr_identity = identity, rr_revision = revision, rr_retired = retired,
                   rr_owners = owners\<rparr>)))))"

section \<open>The record invariant\<close>

definition token_ok :: "owner_token \<Rightarrow> bool" where
  "token_ok t \<longleftrightarrow> ot_owner t \<noteq> 0 \<and> ot_generation t \<noteq> 0"

fun command_ok :: "pin_command \<Rightarrow> bool" where
  "command_ok (Share a b) = (token_ok a \<and> token_ok b)"
| "command_ok (Retire _) = True"
| "command_ok (Acquire t) = token_ok t"
| "command_ok (Publish t) = token_ok t"
| "command_ok (Quiesce t) = token_ok t"
| "command_ok (Release t) = token_ok t"

definition slot_ok :: "u64 \<Rightarrow> bool \<Rightarrow> owner_id \<times> owner_slot \<Rightarrow> bool" where
  "slot_ok revision retired e \<longleftrightarrow> fst e \<noteq> 0 \<and> os_generation (snd e) \<noteq> 0
     \<and> os_generation (snd e) \<le> revision \<and> (retired \<longrightarrow> os_phase (snd e) = Released)"

definition record_ok :: "retention_record \<Rightarrow> bool" where
  "record_ok r \<longleftrightarrow> ri_root (rr_identity r) \<noteq> 0 \<and> ri_instance (rr_identity r) \<noteq> 0
     \<and> om_ok (rr_owners r) \<and> length (rr_owners r) \<le> MAX_PIN_OWNERS
     \<and> (rr_retired r \<longrightarrow> rr_revision r \<noteq> 0)
     \<and> (\<forall>e\<in>set (rr_owners r). slot_ok (rr_revision r) (rr_retired r) e)"

definition pin_run :: "retention_record \<Rightarrow> pin_command list \<Rightarrow> retention_record" where
  "pin_run r cs = foldl (\<lambda>r c. fst (pin_apply r c)) r cs"

text \<open>An owner is live when it holds a pin of the token's generation that was not quiesced.\<close>

definition live :: "retention_record \<Rightarrow> owner_token \<Rightarrow> bool" where
  "live r t \<longleftrightarrow> (\<exists>s. map_of (rr_owners r) (ot_owner t) = Some s \<and> os_generation s = ot_generation t
     \<and> os_phase s \<in> {Held, Published})"

lemma pin_exact_Inr:
  "pin_exact r t = Inr p \<longleftrightarrow> (\<exists>s. map_of (rr_owners r) (ot_owner t) = Some s
     \<and> os_generation s = ot_generation t \<and> os_phase s = p)"
  by (auto simp: pin_exact_def split: option.splits if_splits)

lemma pin_acquire_Some:
  "pin_acquire r t = Inr (Some p) \<longleftrightarrow> \<not> rr_retired r \<and> p = Held \<and>
     (case map_of (rr_owners r) (ot_owner t) of
        None \<Rightarrow> ot_generation t = 1 \<and> length (rr_owners r) \<noteq> MAX_PIN_OWNERS
      | Some s \<Rightarrow> os_generation s \<noteq> ot_generation t \<and> os_phase s = Released
          \<and> checked_add (os_generation s) 1 = Some (ot_generation t))"
  by (auto simp: pin_acquire_def split: option.splits if_splits)

lemma pin_acquire_not_retired: "pin_acquire r t = Inr x \<Longrightarrow> \<not> rr_retired r"
  by (auto simp: pin_acquire_def split: if_splits)

lemma owner_slot_ok:
  "record_ok r \<Longrightarrow> map_of (rr_owners r) k = Some s \<Longrightarrow> slot_ok (rr_revision r) (rr_retired r) (k, s)"
  by (auto simp: record_ok_def dest: map_of_SomeD)

text \<open>What an edit can do to the owner it names.\<close>

definition edit_effect :: "retention_record \<Rightarrow> owner_token \<Rightarrow> pin_phase \<Rightarrow> bool" where
  "edit_effect r t p \<longleftrightarrow> \<not> rr_retired r \<and> token_ok t \<and>
     (case map_of (rr_owners r) (ot_owner t) of
        None \<Rightarrow> ot_generation t = 1 \<and> length (rr_owners r) \<noteq> MAX_PIN_OWNERS \<and> p = Held
      | Some s \<Rightarrow>
          (os_phase s = Released \<and> checked_add (os_generation s) 1 = Some (ot_generation t) \<and> p = Held)
          \<or> (os_generation s = ot_generation t \<and>
             (os_phase s, p) \<in> {(Held, Published), (Held, Quiesced), (Published, Quiesced),
                               (Quiesced, Released)}))"

lemma pin_edit_effect:
  assumes "record_ok r" "command_ok c" "pin_edit r c = Inr (Some (t, p))"
  shows "edit_effect r t p"
proof -
  have ret: "\<not> rr_retired r" if "pin_exact r u = Inr q" "q \<noteq> Released" for u q
    using that owner_slot_ok [OF assms(1)] by (auto simp: pin_exact_Inr slot_ok_def)
  show ?thesis
  proof (cases c)
    case (Acquire u)
    with assms show ?thesis
      by (auto simp: pin_edit_def bind_res_Inr_iff edit_effect_def pin_acquire_Some split: option.splits)
  next
    case (Share u v)
    with assms show ?thesis
      by (auto simp: pin_edit_def bind_res_Inr_iff edit_effect_def pin_acquire_Some
          split: option.splits if_splits)
  next
    case (Publish u)
    with assms(3) obtain q where q: "pin_exact r u = Inr q" by (auto simp: pin_edit_def bind_res_Inr_iff)
    with ret [OF q] Publish assms(2,3) show ?thesis
      by (cases q) (auto simp: pin_edit_def edit_effect_def pin_exact_Inr)
  next
    case (Quiesce u)
    with assms(3) obtain q where q: "pin_exact r u = Inr q" by (auto simp: pin_edit_def bind_res_Inr_iff)
    with ret [OF q] Quiesce assms(2,3) show ?thesis
      by (cases q) (auto simp: pin_edit_def edit_effect_def pin_exact_Inr)
  next
    case (Release u)
    with assms(3) obtain q where q: "pin_exact r u = Inr q" by (auto simp: pin_edit_def bind_res_Inr_iff)
    with ret [OF q] Release assms(2,3) show ?thesis
      by (cases q) (auto simp: pin_edit_def edit_effect_def pin_exact_Inr)
  qed (use assms in \<open>simp add: pin_edit_def\<close>)
qed

text \<open>Every command but \<open>Retire\<close> is its edit.\<close>

lemma pin_apply_other:
  assumes "\<nexists>n. c = Retire n"
  shows "pin_apply r c = (case pin_edit r c of
       Inl e \<Rightarrow> (r, Inl e)
     | Inr None \<Rightarrow> (r, Inr (Unchanged (rr_revision r)))
     | Inr (Some (token, phase)) \<Rightarrow>
         (case checked_add (rr_revision r) 1 of
            None \<Rightarrow> (r, Inl Exhausted)
          | Some revision \<Rightarrow>
              (r\<lparr>rr_owners := om_insert (ot_owner token)
                   \<lparr>os_generation = ot_generation token, os_phase = phase\<rparr> (rr_owners r),
                 rr_revision := revision\<rparr>, Inr (Changed revision))))"
  using assms by (cases c) (simp_all add: pin_apply_def)

lemma pin_apply_refused:
  assumes "snd (pin_apply r c) = Inl e"
  shows "fst (pin_apply r c) = r"
proof (cases "\<exists>n. c = Retire n")
  case True
  with assms show ?thesis by (auto simp: pin_apply_def split: if_splits option.splits)
next
  case False
  note ap = pin_apply_other [OF False]
  show ?thesis using assms unfolding ap by (auto split: sum.splits option.splits)
qed

text \<open>The three outcomes of a command: nothing, retirement, or one owner edited.\<close>

lemma pin_apply_cases:
  assumes "record_ok r" "command_ok c"
  obtains (same) "fst (pin_apply r c) = r"
  | (retire) v where "checked_add (rr_revision r) 1 = Some v" "\<not> rr_retired r"
      "\<forall>e\<in>set (rr_owners r). os_phase (snd e) = Released" "c = Retire (rr_revision r)"
      "fst (pin_apply r c) = r\<lparr>rr_retired := True, rr_revision := v\<rparr>"
  | (edit) v t p where "checked_add (rr_revision r) 1 = Some v" "pin_edit r c = Inr (Some (t, p))"
      "edit_effect r t p"
      "fst (pin_apply r c) = r\<lparr>rr_owners := om_insert (ot_owner t)
         \<lparr>os_generation = ot_generation t, os_phase = p\<rparr> (rr_owners r), rr_revision := v\<rparr>"
proof (cases "\<exists>n. c = Retire n")
  case True
  then obtain n where c: "c = Retire n" by blast
  show ?thesis
  proof (cases "rr_retired r \<or> rr_revision r \<noteq> n \<or> (\<exists>e\<in>set (rr_owners r). os_phase (snd e) \<noteq> Released)
      \<or> checked_add (rr_revision r) 1 = None")
    case True
    then have "fst (pin_apply r c) = r" by (auto simp: pin_apply_def c)
    then show ?thesis by (rule same)
  next
    case False
    then obtain v where "checked_add (rr_revision r) 1 = Some v" by blast
    with False show ?thesis by (intro retire [of v]) (auto simp: pin_apply_def c)
  qed
next
  case False
  then have ap: "pin_apply r c = (case pin_edit r c of
       Inl e \<Rightarrow> (r, Inl e)
     | Inr None \<Rightarrow> (r, Inr (Unchanged (rr_revision r)))
     | Inr (Some (token, phase)) \<Rightarrow>
         (case checked_add (rr_revision r) 1 of
            None \<Rightarrow> (r, Inl Exhausted)
          | Some revision \<Rightarrow>
              (r\<lparr>rr_owners := om_insert (ot_owner token)
                   \<lparr>os_generation = ot_generation token, os_phase = phase\<rparr> (rr_owners r),
                 rr_revision := revision\<rparr>, Inr (Changed revision))))"
    by (rule pin_apply_other)
  show ?thesis
  proof (cases "\<exists>t p v. pin_edit r c = Inr (Some (t, p)) \<and> checked_add (rr_revision r) 1 = Some v")
    case True
    then obtain t p v where "pin_edit r c = Inr (Some (t, p))" "checked_add (rr_revision r) 1 = Some v"
      by blast
    with pin_edit_effect [OF assms] show ?thesis by (intro edit [of v t p]) (auto simp: ap)
  next
    case False
    then have "fst (pin_apply r c) = r"
      by (auto simp: ap split: sum.splits option.splits)
    then show ?thesis by (rule same)
  qed
qed

lemma pin_apply_ok:
  assumes "record_ok r" "command_ok c"
  shows "record_ok (fst (pin_apply r c))"
  using assms
proof (cases rule: pin_apply_cases)
  case (retire v)
  have "unat v = unat (rr_revision r) + 1" using checked_add_SomeD [OF retire(1)] by simp
  then have "v \<noteq> 0" "rr_revision r \<le> v" by (auto simp: word_le_nat_alt)
  then have "x \<le> v" if "x \<le> rr_revision r" for x using that by (meson order_trans)
  with \<open>v \<noteq> 0\<close> retire(3,5) assms(1) show ?thesis
    by (simp add: record_ok_def slot_ok_def)
next
  case (edit v t p)
  let ?o = "om_insert (ot_owner t) \<lparr>os_generation = ot_generation t, os_phase = p\<rparr> (rr_owners r)"
  have v: "unat v = unat (rr_revision r) + 1" using checked_add_SomeD [OF edit(1)] by simp
  have "rr_revision r \<le> v" by (simp add: word_le_nat_alt v)
  then have "x \<le> v" if "x \<le> rr_revision r" for x using that by (meson order_trans)
  then have old: "slot_ok v False e" if "e \<in> set (rr_owners r)" for e
    using that assms(1) by (simp add: record_ok_def slot_ok_def)
  have gen: "ot_generation t \<le> v"
  proof (cases "map_of (rr_owners r) (ot_owner t)")
    case None
    with edit(3) v show ?thesis by (simp add: edit_effect_def word_le_nat_alt)
  next
    case (Some s)
    then have "os_generation s \<le> rr_revision r" using owner_slot_ok [OF assms(1) Some]
      by (simp add: slot_ok_def)
    with edit(3) Some v show ?thesis
      by (auto simp: edit_effect_def word_le_nat_alt dest!: checked_add_SomeD)
  qed
  have new: "slot_ok v False (ot_owner t, \<lparr>os_generation = ot_generation t, os_phase = p\<rparr>)"
    using gen edit(3) by (simp add: slot_ok_def edit_effect_def token_ok_def)
  have "slot_ok v False e" if "e \<in> set ?o" for e
    using that old new om_ball_insert [where P = "slot_ok v False"] by blast
  moreover have "length ?o \<le> MAX_PIN_OWNERS"
    using assms(1) edit(3) om_length_insert [of "rr_owners r" "ot_owner t"]
    by (auto simp: record_ok_def edit_effect_def split: option.splits)
  ultimately show ?thesis using assms(1) edit
    by (auto simp: record_ok_def edit_effect_def)
qed (use assms in simp)

lemma pin_run_ok:
  "record_ok r \<Longrightarrow> list_all command_ok cs \<Longrightarrow> record_ok (pin_run r cs)"
  by (induction cs arbitrary: r) (auto simp: pin_run_def pin_apply_ok)

section \<open>Protection and permanence\<close>

lemma retired_stays:
  assumes "record_ok r" "command_ok c" "rr_retired r"
  shows "fst (pin_apply r c) = r"
  using assms(1,2) by (cases rule: pin_apply_cases) (use assms(3) in \<open>auto simp: edit_effect_def\<close>)

lemma pin_edit_Quiesced: "pin_edit r c = Inr (Some (t, Quiesced)) \<Longrightarrow> c = Quiesce t"
  by (cases c)
    (auto simp: pin_edit_def bind_res_Inr_iff pin_acquire_Some split: pin_phase.splits if_splits,
     (metis pin_phase.exhaust)+)

lemma live_step:
  assumes "record_ok r" "command_ok c" "live r t" "c \<noteq> Quiesce t"
  shows "live (fst (pin_apply r c)) t"
  using assms(1,2)
proof (cases rule: pin_apply_cases)
  case (retire v)
  with assms(3) show ?thesis by (force simp: live_def dest: map_of_SomeD)
next
  case (edit v u p)
  have ok: "om_ok (rr_owners r)" using assms(1) by (simp add: record_ok_def)
  show ?thesis
  proof (cases "ot_owner u = ot_owner t")
    case False
    with edit(4) ok assms(3) show ?thesis by (simp add: live_def)
  next
    case True
    from assms(3) obtain s where s: "map_of (rr_owners r) (ot_owner t) = Some s"
      "os_generation s = ot_generation t" "os_phase s \<in> {Held, Published}" by (auto simp: live_def)
    with edit(3) True have g: "ot_generation u = ot_generation t" and p: "p = Published \<or> p = Quiesced"
      by (auto simp: edit_effect_def)
    then have u: "u = t" using True by (cases u; cases t) simp
    have "p \<noteq> Quiesced" using edit(2) assms(4) u pin_edit_Quiesced by blast
    with p edit(4) ok g u show ?thesis by (simp add: live_def)
  qed
qed (use assms in simp)

lemma live_not_retired: "record_ok r \<Longrightarrow> live r t \<Longrightarrow> \<not> rr_retired r"
  by (auto simp: live_def slot_ok_def dest: owner_slot_ok)

section \<open>Codec lemmas\<close>

lemma kind_of_byte_iff: "kind_of_byte b = Inr k \<longleftrightarrow> b = kind_byte k"
  by (cases k) (auto simp: kind_of_byte_def)

lemma phase_of_byte_iff: "phase_of_byte b = Inr p \<longleftrightarrow> b = phase_byte p"
  by (cases p) (auto simp: phase_of_byte_def)

lemma flag_of_byte_iff: "flag_of_byte b = Inr f \<longleftrightarrow> b = (if f then 1 else 0)"
  by (auto simp: flag_of_byte_def)

lemma length_enc_owner [simp]: "length (enc_owner e) = OWNER_BYTES"
  by (simp add: enc_owner_def OWNER_BYTES_def)

lemma length_concat_owners: "length (concat (map enc_owner es)) = length es * OWNER_BYTES"
  by (induction es) auto

lemma enc_owner_iff:
  assumes "length chunk = OWNER_BYTES"
  shows "chunk = enc_owner e \<longleftrightarrow> fst e = from_be (bslice chunk 0 16)
    \<and> os_generation (snd e) = from_be (bslice chunk 16 24) \<and> chunk ! 24 = phase_byte (os_phase (snd e))"
proof
  assume "fst e = from_be (bslice chunk 0 16)
    \<and> os_generation (snd e) = from_be (bslice chunk 16 24) \<and> chunk ! 24 = phase_byte (os_phase (snd e))"
  moreover have "bslice chunk 24 25 = [chunk ! 24]"
    using assms slice_single [of 24 chunk] by (simp add: OWNER_BYTES_def)
  ultimately have "enc_owner e = bslice chunk 0 16 @ bslice chunk 16 24 @ bslice chunk 24 25"
    using assms by (simp add: enc_owner_def to_from_be_widths OWNER_BYTES_def)
  with assms show "chunk = enc_owner e"
    by (simp add: slice_append_slice slice_append_slice_assoc slice_full OWNER_BYTES_def)
qed (simp add: enc_owner_def bslice_def nth_append)

definition last_key :: "(owner_id, owner_slot) omap \<Rightarrow> owner_id option" where
  "last_key m = (if m = [] then None else Some (fst (last m)))"

lemma last_key_after:
  "om_ok m \<Longrightarrow> (case last_key m of None \<Rightarrow> False | Some p \<Rightarrow> p \<ge> k) \<longleftrightarrow> \<not> om_ok (m @ [(k, v)])"
  using om_ok_last_less [of m k v] by (auto simp: last_key_def not_le)

lemma last_key_snoc [simp]: "last_key (m @ [(k, v)]) = Some k"
  by (simp add: last_key_def)

lemma decode_owners_encode:
  "om_ok (acc @ es) \<Longrightarrow> \<forall>e\<in>set es. slot_ok rv ret e \<Longrightarrow>
   decode_owners rv ret (last_key acc) acc (map enc_owner es) = Inr (acc @ es)"
proof (induction es arbitrary: acc)
  case (Cons e es)
  obtain k g p where e: "e = (k, \<lparr>os_generation = g, os_phase = p\<rparr>)"
    by (cases e; cases "snd e") auto
  let ?s = "\<lparr>os_generation = g, os_phase = p\<rparr>"
  have ok: "om_ok acc" "om_ok (acc @ [(k, ?s)])" using Cons.prems(1) e by (auto simp: om_ok_append om_ok_Cons)
  have b: "bslice (enc_owner (k, ?s)) 0 16 = to_be 16 k"
    "bslice (enc_owner (k, ?s)) 16 24 = to_be 8 g"
    "enc_owner (k, ?s) ! 24 = phase_byte p"
    by (simp_all add: enc_owner_def bslice_def nth_append)
  have "phase_of_byte (phase_byte p) = Inr p" by (simp add: phase_of_byte_iff)
  moreover have "\<not> (case last_key acc of None \<Rightarrow> False | Some p \<Rightarrow> p \<ge> k)"
    using last_key_after ok by blast
  ultimately have "decode_owners rv ret (last_key acc) acc (enc_owner e # map enc_owner es) =
      decode_owners rv ret (Some k) (acc @ [(k, ?s)]) (map enc_owner es)"
    using Cons.prems(2) e om_insert_snoc [OF ok(2)]
    by (auto simp: b owner_new_def slot_ok_def Let_def not_less)
  also have "\<dots> = Inr (acc @ e # es)" using Cons.IH [of "acc @ [(k, ?s)]"] Cons.prems e by simp
  finally show ?case by simp
qed simp

lemma decode_owners_Inr:
  "\<forall>x\<in>set chunks. length x = OWNER_BYTES \<Longrightarrow> om_ok acc \<Longrightarrow>
   decode_owners rv ret (last_key acc) acc chunks = Inr m \<Longrightarrow>
   \<exists>es. m = acc @ es \<and> om_ok m \<and> (\<forall>e\<in>set es. slot_ok rv ret e) \<and> chunks = map enc_owner es"
proof (induction chunks arbitrary: acc)
  case (Cons chunk rest)
  define k :: owner_id where "k = from_be (bslice chunk 0 16)"
  define g :: u64 where "g = from_be (bslice chunk 16 24)"
  from Cons.prems(3) obtain p where p: "k \<noteq> 0" "g \<noteq> 0" "phase_of_byte (chunk ! 24) = Inr p"
    "\<not> (case last_key acc of None \<Rightarrow> False | Some q \<Rightarrow> q \<ge> k)" "g \<le> rv" "ret \<longrightarrow> p = Released"
    and d: "decode_owners rv ret (Some k) (om_insert k \<lparr>os_generation = g, os_phase = p\<rparr> acc) rest = Inr m"
    by (auto simp: bind_res_Inr_iff owner_new_def Let_def not_less simp flip: k_def g_def split: if_splits)
  let ?e = "(k, \<lparr>os_generation = g, os_phase = p\<rparr>)"
  have ok: "om_ok (acc @ [?e])" using p(4) Cons.prems(2) last_key_after by blast
  with d have "decode_owners rv ret (last_key (acc @ [?e])) (acc @ [?e]) rest = Inr m"
    by (simp add: om_insert_snoc)
  with Cons.IH [of "acc @ [?e]"] Cons.prems(1) ok obtain es where es: "m = (acc @ [?e]) @ es" "om_ok m"
    "\<forall>e\<in>set es. slot_ok rv ret e" "rest = map enc_owner es" by auto
  have "chunk = enc_owner ?e" using Cons.prems(1) p(3) enc_owner_iff [of chunk ?e]
    by (simp add: k_def g_def phase_of_byte_iff)
  moreover have "slot_ok rv ret ?e" using p by (simp add: slot_ok_def)
  ultimately show ?case using es by (intro exI [of _ "?e # es"]) simp
qed simp

lemmas pin_sizes = PIN_HEADER_def OWNER_BYTES_def MAX_PIN_OWNERS_def MAX_PIN_RECORD_BYTES_def

lemma length_pin_magic [simp]: "length PIN_MAGIC = 8"
  by (simp add: PIN_MAGIC_def)

definition pin_header :: "retention_record \<Rightarrow> bytes" where
  "pin_header r =
     PIN_MAGIC @ to_be 32 (ri_root (rr_identity r)) @ [kind_byte (ri_kind (rr_identity r))]
     @ to_be 16 (ri_instance (rr_identity r)) @ to_be 32 (ri_content (rr_identity r))
     @ to_be 8 (rr_revision r) @ [if rr_retired r then 1 else 0]
     @ to_be 4 (of_nat (length (rr_owners r)) :: u32)"

lemma length_pin_header [simp]: "length (pin_header r) = 102"
  by (simp add: pin_header_def)

lemma pin_body_header: "pin_body r = pin_header r @ concat (map enc_owner (rr_owners r))"
  by (simp add: pin_body_def pin_header_def)

lemma length_pin_body: "length (pin_body r) = 102 + length (rr_owners r) * OWNER_BYTES"
  by (simp add: pin_body_header length_concat_owners)

lemma pin_header_fields:
  "take 8 (pin_header r @ x) = PIN_MAGIC"
  "bslice (pin_header r @ x) 8 40 = to_be 32 (ri_root (rr_identity r))"
  "(pin_header r @ x) ! 40 = kind_byte (ri_kind (rr_identity r))"
  "bslice (pin_header r @ x) 41 57 = to_be 16 (ri_instance (rr_identity r))"
  "bslice (pin_header r @ x) 57 89 = to_be 32 (ri_content (rr_identity r))"
  "bslice (pin_header r @ x) 89 97 = to_be 8 (rr_revision r)"
  "(pin_header r @ x) ! 97 = (if rr_retired r then 1 else 0)"
  "bslice (pin_header r @ x) 98 102 = to_be 4 (of_nat (length (rr_owners r)) :: u32)"
  by (simp_all add: pin_header_def bslice_def nth_append)

lemma record_eta:
  "\<lparr>rr_identity = rr_identity r, rr_revision = rr_revision r, rr_retired = rr_retired r,
    rr_owners = rr_owners r\<rparr> = (r :: retention_record)"
  "\<lparr>ri_root = ri_root i, ri_kind = ri_kind i, ri_instance = ri_instance i, ri_content = ri_content i\<rparr>
    = (i :: resource_identity)"
  by simp_all

lemma pin_decode_encode:
  assumes "record_ok r"
  shows "pin_decode sha256 (pin_encode sha256 r) (rr_identity r) = Inr r"
proof -
  let ?n = "length (rr_owners r)" and ?b = "pin_encode sha256 r"
  have n: "?n \<le> 4096" using assms by (simp add: record_ok_def MAX_PIN_OWNERS_def)
  have b: "?b = pin_header r @ concat (map enc_owner (rr_owners r)) @ to_be 32 (sha256 (pin_body r))"
    by (simp add: pin_encode_def pin_body_header)
  have len: "length ?b = 134 + ?n * OWNER_BYTES" by (simp add: pin_encode_def length_pin_body)
  let ?fin = "102 + ?n * OWNER_BYTES"
  have cut: "take ?fin ?b = pin_body r" "drop ?fin ?b = to_be 32 (sha256 (pin_body r))"
    by (simp_all add: pin_encode_def flip: length_pin_body)
  have cnt: "unat (of_nat ?n :: u32) = ?n" using n by (simp add: unat_of_nat take_bit_eq_mod)
  have "bslice ?b 102 ?fin = concat (map enc_owner (rr_owners r))"
    by (simp add: bslice_def b length_concat_owners)
  moreover have "chunks_exact OWNER_BYTES (concat (map enc_owner (rr_owners r))) = map enc_owner (rr_owners r)"
    by (rule chunks_exact_concat) (simp_all add: OWNER_BYTES_def)
  ultimately have ow: "decode_owners (rr_revision r) (rr_retired r) None []
      (chunks_exact OWNER_BYTES (bslice ?b 102 ?fin)) = Inr (rr_owners r)"
    using assms decode_owners_encode [of "[]" "rr_owners r"] by (simp add: record_ok_def last_key_def)
  have flds: "take 8 ?b = PIN_MAGIC" "bslice ?b 8 40 = to_be 32 (ri_root (rr_identity r))"
    "kind_of_byte (?b ! 40) = Inr (ri_kind (rr_identity r))"
    "bslice ?b 41 57 = to_be 16 (ri_instance (rr_identity r))"
    "bslice ?b 57 89 = to_be 32 (ri_content (rr_identity r))"
    "bslice ?b 89 97 = to_be 8 (rr_revision r)" "flag_of_byte (?b ! 97) = Inr (rr_retired r)"
    "bslice ?b 98 102 = to_be 4 (of_nat ?n :: u32)"
    unfolding b by (simp_all only: pin_header_fields kind_of_byte_iff flag_of_byte_iff)
  have id: "identity_new (ri_root (rr_identity r)) (ri_kind (rr_identity r)) (ri_instance (rr_identity r))
      (ri_content (rr_identity r)) = Inr (rr_identity r)"
    using assms by (simp add: identity_new_def record_ok_def)
  show ?thesis
    using assms n
    by (simp add: pin_decode_def len cut flds id cnt ow Let_def record_ok_def
        PIN_HEADER_def MAX_PIN_OWNERS_def MAX_PIN_RECORD_BYTES_def)
qed

lemma pin_decode_Inr:
  assumes "pin_decode sha256 b expected = Inr r"
  shows "record_ok r \<and> rr_identity r = expected \<and> b = pin_encode sha256 r"
proof -
  define fin where "fin = length b - 32"
  define n where "n = unat (from_be (bslice b 98 102) :: u32)"
  from assms obtain kind own ret where
    l: "102 + 32 \<le> length b" and magic: "take 8 b = PIN_MAGIC"
    and sum: "to_be 32 (sha256 (take fin b)) = drop fin b"
    and kind: "kind_of_byte (b ! 40) = Inr kind"
    and id: "identity_new (from_be (bslice b 8 40)) kind (from_be (bslice b 41 57))
              (from_be (bslice b 57 89)) = Inr expected"
    and ret: "flag_of_byte (b ! 97) = Inr ret"
    and n: "n \<le> MAX_PIN_OWNERS" "102 + n * OWNER_BYTES = fin"
    and z: "ret \<longrightarrow> (from_be (bslice b 89 97) :: u64) \<noteq> 0"
    and own: "decode_owners (from_be (bslice b 89 97)) ret None []
        (chunks_exact OWNER_BYTES (bslice b 102 fin)) = Inr own"
    and r: "r = \<lparr>rr_identity = expected, rr_revision = from_be (bslice b 89 97), rr_retired = ret,
        rr_owners = own\<rparr>"
    by (auto simp: pin_decode_def Let_def PIN_HEADER_def bind_res_Inr_iff not_less
        simp flip: fin_def n_def split: if_splits)
  have fin: "fin \<le> length b" "102 \<le> fin" "length b = fin + 32" using l by (auto simp: fin_def)
  let ?o = "bslice b 102 fin" and ?cs = "chunks_exact OWNER_BYTES (bslice b 102 fin)"
  have lo: "length ?o = n * OWNER_BYTES" using n(2) fin by simp
  have own': "om_ok own" "\<forall>e\<in>set own. slot_ok (from_be (bslice b 89 97)) ret e" "?cs = map enc_owner own"
    using decode_owners_Inr [of ?cs "[]" "from_be (bslice b 89 97)" ret own] own
    by (simp_all add: last_key_def chunks_exact_lengths)
  have o: "concat (map enc_owner own) = ?o"
    using concat_chunks_exact [of OWNER_BYTES ?o] lo own'(3) by (simp add: OWNER_BYTES_def)
  have "length own * OWNER_BYTES = n * OWNER_BYTES" using lo o length_concat_owners by metis
  then have len: "length own = n" by (simp add: OWNER_BYTES_def)
  have ex: "expected = \<lparr>ri_root = from_be (bslice b 8 40), ri_kind = kind,
      ri_instance = from_be (bslice b 41 57), ri_content = from_be (bslice b 57 89)\<rparr>"
    and nz: "ri_root expected \<noteq> 0" "ri_instance expected \<noteq> 0"
    using id by (auto simp: identity_new_def split: if_splits)
  have single: "[b ! 40] = bslice b 40 41" "[b ! 97] = bslice b 97 98"
    using l slice_single [of 40 b] slice_single [of 97 b] by simp_all
  have "pin_header r = bslice b 0 8 @ bslice b 8 40 @ bslice b 40 41 @ bslice b 41 57 @ bslice b 57 89
      @ bslice b 89 97 @ bslice b 97 98 @ bslice b 98 102"
    using l kind ret magic
    by (simp add: pin_header_def r ex to_from_be_widths len n_def kind_of_byte_iff flag_of_byte_iff
        take_as_slice flip: single)
  also have "\<dots> = bslice b 0 102" by (simp add: slice_append_slice slice_append_slice_assoc)
  finally have "pin_body r = take fin b"
    using fin o by (simp add: pin_body_header r slice_append_slice take_as_slice)
  then have "pin_encode sha256 r = b" using sum by (simp add: pin_encode_def)
  moreover have "record_ok r" using nz n(1) z own' len by (simp add: record_ok_def r)
  ultimately show ?thesis by (simp add: r)
qed

section \<open>Properties\<close>

text \<open>
  C23. Recovery is exact: a byte string decodes for an expected resource to a record if and only
  if the record satisfies the record invariant, names that resource, and the bytes are its
  encoding. This holds for any checksum function.
\<close>

theorem retention_codec_exact:
  "pin_decode sha256 b expected = Inr r \<longleftrightarrow>
     record_ok r \<and> rr_identity r = expected \<and> b = pin_encode sha256 r"
  using pin_decode_Inr pin_decode_encode by metis

text \<open>
  C24. Every record reached from a new resource by any sequence of commands (accepted or refused)
  satisfies the record invariant and is recovered unchanged from its encoding.
\<close>

theorem retention_reachable_recovers:
  assumes "ri_root i \<noteq> 0" "ri_instance i \<noteq> 0" "list_all command_ok cs"
  shows "record_ok (pin_run (record_new i) cs) \<and>
    pin_decode sha256 (pin_encode sha256 (pin_run (record_new i) cs)) (rr_identity (pin_run (record_new i) cs))
      = Inr (pin_run (record_new i) cs)"
proof -
  have "record_ok (record_new i)" using assms by (simp add: record_ok_def record_new_def)
  then have "record_ok (pin_run (record_new i) cs)" using assms(3) by (rule pin_run_ok)
  then show ?thesis by (simp add: pin_decode_encode)
qed

definition sample_resource :: resource_identity where
  "sample_resource = \<lparr>ri_root = 9, ri_kind = Sst, ri_instance = 1, ri_content = 8\<rparr>"

theorem retention_reachable_recovers_witness:
  "record_ok (pin_run (record_new sample_resource) [Acquire \<lparr>ot_owner = 1, ot_generation = 1\<rparr>])"
  using retention_reachable_recovers [of sample_resource "[Acquire \<lparr>ot_owner = 1, ot_generation = 1\<rparr>]"]
  by (simp add: sample_resource_def token_ok_def)

text \<open>
  C25. A pin protects its resource: while an owner holds a live pin, no sequence of commands that
  omits the quiesce of that very pin retires the resource or ends the pin.
\<close>

theorem pin_protects:
  assumes "record_ok r" "list_all command_ok cs" "live r t" "Quiesce t \<notin> set cs"
  shows "live (pin_run r cs) t \<and> \<not> rr_retired (pin_run r cs)"
  using assms
proof (induction cs arbitrary: r)
  case Nil
  then show ?case by (simp add: pin_run_def live_not_retired)
next
  case (Cons c cs)
  then have "live (fst (pin_apply r c)) t" "record_ok (fst (pin_apply r c))"
    by (auto intro: live_step pin_apply_ok)
  with Cons show ?case by (simp add: pin_run_def)
qed

theorem pin_protects_witness:
  "\<not> rr_retired (pin_run (pin_run (record_new sample_resource) [Acquire \<lparr>ot_owner = 1, ot_generation = 1\<rparr>])
     [Publish \<lparr>ot_owner = 1, ot_generation = 1\<rparr>, Retire 2])"
proof -
  let ?t = "\<lparr>ot_owner = 1, ot_generation = 1\<rparr> :: owner_token"
  have "record_ok (pin_run (record_new sample_resource) [Acquire ?t])"
    by (rule pin_run_ok) (simp_all add: record_ok_def record_new_def sample_resource_def token_ok_def)
  moreover have "live (pin_run (record_new sample_resource) [Acquire ?t]) ?t"
    by (simp add: pin_run_def live_def pin_apply_def pin_edit_def pin_acquire_def record_new_def
        MAX_PIN_OWNERS_def checked_add_def)
  ultimately show ?thesis
    using pin_protects [of _ "[Publish ?t, Retire 2]" ?t] by (simp add: token_ok_def)
qed

text \<open>
  C26. Retirement is permanent and refusals change nothing: a retired record is left unchanged by
  every command, and a command that fails leaves any record unchanged.
\<close>

theorem retirement_permanent:
  assumes "record_ok r" "command_ok c"
  shows "(rr_retired r \<longrightarrow> fst (pin_apply r c) = r)
    \<and> (\<forall>e. snd (pin_apply r c) = Inl e \<longrightarrow> fst (pin_apply r c) = r)"
  using retired_stays [OF assms] pin_apply_refused by blast

theorem retirement_permanent_witness:
  "snd (pin_apply (pin_run (record_new sample_resource) [Retire 0]) (Acquire \<lparr>ot_owner = 1, ot_generation = 1\<rparr>))
     = Inl Retired \<and>
   fst (pin_apply (pin_run (record_new sample_resource) [Retire 0]) (Acquire \<lparr>ot_owner = 1, ot_generation = 1\<rparr>))
     = pin_run (record_new sample_resource) [Retire 0]"
proof -
  let ?t = "\<lparr>ot_owner = 1, ot_generation = 1\<rparr> :: owner_token"
  let ?r = "pin_run (record_new sample_resource) [Retire 0]"
  have r: "rr_retired ?r" by (simp add: pin_run_def pin_apply_def record_new_def checked_add_def)
  have "record_ok ?r"
    by (rule pin_run_ok) (simp_all add: record_ok_def record_new_def sample_resource_def)
  then have "fst (pin_apply ?r (Acquire ?t)) = ?r"
    using retirement_permanent [of ?r "Acquire ?t"] r by (simp add: token_ok_def)
  with r show ?thesis by (simp add: pin_apply_def pin_edit_def pin_acquire_def)
qed

end
