(* ===== verification/Lease.thy ===== *)
theory Lease
  imports Prelude
begin

text \<open>
  The fixed-configuration leader lease, \<open>crates/raft/src/lease.rs\<close>: lease timing, the local
  clock fence, the leader's renewal and read state, and the voter's promise. An operation on
  \<open>&mut self\<close> returns the state it leaves together with its result, so that the fencing done
  on an error path is part of the model. A \<open>BTreeSet\<close> of voters is a list without
  duplicates, and \<open>binary_search\<close> on the sorted voter slice is list membership.
\<close>

section \<open>Operations with state and failure\<close>

type_synonym ('s, 'e, 'a) act = "'s \<Rightarrow> 's \<times> ('e + 'a)"

definition act_bind :: "('s, 'e, 'a) act \<Rightarrow> ('a \<Rightarrow> ('s, 'e, 'b) act) \<Rightarrow> ('s, 'e, 'b) act" where
  "act_bind m f s = (case m s of (s', Inl e) \<Rightarrow> (s', Inl e) | (s', Inr a) \<Rightarrow> f a s')"

lemma act_bind_Inr:
  "act_bind m f s = (s', Inr b) \<longleftrightarrow> (\<exists>t a. m s = (t, Inr a) \<and> f a t = (s', Inr b))"
  by (auto simp: act_bind_def split: prod.splits sum.splits)

lemma act_bind_fst:
  "fst (act_bind m f s) = (case m s of (t, Inl e) \<Rightarrow> t | (t, Inr a) \<Rightarrow> fst (f a t))"
  by (auto simp: act_bind_def split: prod.splits sum.splits)

section \<open>Timing and clocks\<close>

definition RATE_SCALE :: nat where "RATE_SCALE = 1000000000"

definition MAX_VOTERS :: nat where "MAX_VOTERS = 64"

datatype refused = InvalidConfiguration | InvalidTiming | Overflow | ClockChanged | ClockRegressed
  | ClockUnavailable | Fenced | Revoked | WrongAuthority | NoCurrentTermCommit | CommitRegressed
  | NoCertificate | Expired | Deadline | WrongRound | WrongVoter | NoQuorum | ApplyLag | InvalidView
  | RecoveryQuarantine | VotingPromise

record timing =
  promise_ns :: u64
  leader_ns :: u64
  recovery_ns :: u64

text \<open>
  The products of a \<open>u64\<close> and a rate below \<open>2 * 10^9\<close> fit \<open>u128\<close>, so the intermediate
  arithmetic is exact on natural numbers; the final conversions to \<open>u64\<close> are checked.
\<close>

definition timing_new :: "u64 \<Rightarrow> u32 \<Rightarrow> u64 \<Rightarrow> refused + timing" where
  "timing_new promise drift_ppb margin =
     (if promise = 0 \<or> unat drift_ppb \<ge> RATE_SCALE then Inl InvalidTiming
      else
        let a = RATE_SCALE - unat drift_ppb; b = RATE_SCALE + unat drift_ppb;
            q = unat promise * a div b in
        if q < unat margin \<or> q - unat margin = 0 then Inl InvalidTiming
        else
          let leader = q - unat margin;
              recovery = (unat promise * b + a - 1) div a + unat margin in
          if recovery \<ge> 2 ^ 128 then Inl Overflow
          else if leader \<ge> 2 ^ 64 then Inl Overflow
          else if recovery \<ge> 2 ^ 64 then Inl Overflow
          else Inr \<lparr>promise_ns = promise, leader_ns = of_nat leader, recovery_ns = of_nat recovery\<rparr>)"

record clock_reading =
  cr_domain :: u128
  cr_nanos :: u64

type_synonym clock_fence = clock_reading

definition fence_new :: "clock_reading \<Rightarrow> refused + clock_fence" where
  "fence_new now = (if cr_domain now = 0 then Inl ClockChanged else Inr now)"

definition fence_observe :: "clock_fence \<Rightarrow> clock_reading \<Rightarrow> clock_fence \<times> (refused + u64)" where
  "fence_observe lst now =
     (if cr_domain now \<noteq> cr_domain lst then (lst, Inl ClockChanged)
      else if cr_nanos now < cr_nanos lst then (lst, Inl ClockRegressed)
      else (now, Inr (cr_nanos now)))"

section \<open>Configuration and messages\<close>

record fixed_configuration =
  fc_id :: u128
  fc_voters :: "u64 list"

definition configuration_new :: "u128 \<Rightarrow> u64 list \<Rightarrow> refused + fixed_configuration" where
  "configuration_new ident voters =
     (if ident = 0 \<or> voters = [] \<or> length voters > MAX_VOTERS then Inl InvalidConfiguration
      else
        let voters = sort voters in
        if hd voters = 0 \<or> \<not> successively (\<noteq>) voters then Inl InvalidConfiguration
        else Inr \<lparr>fc_id = ident, fc_voters = voters\<rparr>)"

definition fc_contains :: "fixed_configuration \<Rightarrow> u64 \<Rightarrow> bool" where
  "fc_contains c node \<longleftrightarrow> node \<in> set (fc_voters c)"

definition fc_quorum :: "fixed_configuration \<Rightarrow> nat" where
  "fc_quorum c = length (fc_voters c) div 2 + 1"

record authority =
  au_group :: u64
  au_configuration :: u128
  au_leader :: u64
  au_term :: u64
  au_incarnation :: u128

record renewal =
  rn_authority :: authority
  rn_generation :: u64
  rn_sequence :: u64
  rn_promise_ns :: u64

record grant =
  gr_renewal :: renewal
  gr_voter :: u64

record progress =
  pg_configuration :: u128
  pg_leader :: u64
  pg_term :: u64
  pg_committed :: u64
  pg_committed_term :: u64

record certificate =
  ct_renewal :: renewal
  ct_end :: u64

record pending =
  pd_certificate :: certificate
  pd_acknowledgements :: "u64 list"

datatype lease_mode = LeaderMode | RevokedMode | FencedMode

record read_ticket =
  rt_certificate :: certificate
  rt_clock_domain :: u128
  rt_committed :: u64
  rt_deadline :: u64

record read_decision =
  rd_committed :: u64
  rd_view_index :: u64

section \<open>The leader\<close>

record leader_lease =
  ll_configuration :: fixed_configuration
  ll_authority :: authority
  ll_timing :: timing
  ll_clock :: clock_fence
  ll_mode :: lease_mode
  ll_generation :: u64
  ll_sequence :: u64
  ll_known :: u64
  ll_pending :: "pending option"
  ll_active :: "certificate option"

definition leader_new ::
  "fixed_configuration \<Rightarrow> authority \<Rightarrow> timing \<Rightarrow> clock_reading \<Rightarrow> refused + leader_lease" where
  "leader_new configuration authority timing now =
     (if au_configuration authority \<noteq> fc_id configuration
         \<or> \<not> fc_contains configuration (au_leader authority)
         \<or> au_term authority = 0 \<or> au_incarnation authority = 0
      then Inl WrongAuthority
      else bind_res (fence_new now) (\<lambda>clock.
        Inr \<lparr>ll_configuration = configuration, ll_authority = authority, ll_timing = timing,
             ll_clock = clock, ll_mode = LeaderMode, ll_generation = 0, ll_sequence = 0, ll_known = 0,
             ll_pending = None, ll_active = None\<rparr>))"

definition ll_fence :: "leader_lease \<Rightarrow> leader_lease" where
  "ll_fence l = l\<lparr>ll_mode := FencedMode, ll_generation := - 1, ll_pending := None, ll_active := None\<rparr>"

definition ll_revoke :: "leader_lease \<Rightarrow> leader_lease" where
  "ll_revoke l =
     (if ll_mode l \<noteq> LeaderMode then l
      else
        let l = l\<lparr>ll_pending := None, ll_active := None, ll_generation := ll_generation l + 1\<rparr> in
        if ll_generation l = - 1 then ll_fence l else l\<lparr>ll_mode := RevokedMode\<rparr>)"

definition ll_observe :: "clock_reading \<Rightarrow> (leader_lease, refused, u64) act" where
  "ll_observe now l =
     (if ll_mode l = FencedMode then (l, Inl Fenced)
      else case fence_observe (ll_clock l) now of
        (clock, Inr time) \<Rightarrow> (l\<lparr>ll_clock := clock\<rparr>, Inr time)
      | (clock, Inl reason) \<Rightarrow> (ll_fence (l\<lparr>ll_clock := clock\<rparr>), Inl reason))"

definition ll_progress :: "progress \<Rightarrow> (leader_lease, refused, unit) act" where
  "ll_progress progress l =
     (if pg_configuration progress \<noteq> au_configuration (ll_authority l)
         \<or> pg_leader progress \<noteq> au_leader (ll_authority l)
         \<or> pg_term progress \<noteq> au_term (ll_authority l)
      then (ll_fence l, Inl WrongAuthority)
      else if pg_committed progress < ll_known l then (ll_fence l, Inl CommitRegressed)
      else
        let l = l\<lparr>ll_known := pg_committed progress\<rparr> in
        if pg_committed progress = 0 \<or> pg_committed_term progress \<noteq> au_term (ll_authority l)
        then (l, Inl NoCurrentTermCommit) else (l, Inr ()))"

definition ll_live :: "(leader_lease, refused, unit) act" where
  "ll_live l = (l, case ll_mode l of LeaderMode \<Rightarrow> Inr () | RevokedMode \<Rightarrow> Inl Revoked
                   | FencedMode \<Rightarrow> Inl Fenced)"

definition ll_rearm :: "clock_reading \<Rightarrow> progress \<Rightarrow> (leader_lease, refused, unit) act" where
  "ll_rearm now progress =
     act_bind (ll_observe now) (\<lambda>_. act_bind (ll_progress progress) (\<lambda>_ l.
       case ll_mode l of
         RevokedMode \<Rightarrow> (l\<lparr>ll_mode := LeaderMode\<rparr>, Inr ())
       | LeaderMode \<Rightarrow> (l, Inr ())
       | FencedMode \<Rightarrow> (l, Inl Fenced)))"

definition ll_start :: "clock_reading \<Rightarrow> progress \<Rightarrow> (leader_lease, refused, renewal) act" where
  "ll_start now progress =
     act_bind (ll_observe now) (\<lambda>time. act_bind (ll_progress progress) (\<lambda>_. act_bind ll_live (\<lambda>_ l.
       case checked_add time (leader_ns (ll_timing l)) of
         None \<Rightarrow> (ll_fence l, Inl Overflow)
       | Some end' \<Rightarrow>
           (case checked_add (ll_sequence l) 1 of
              None \<Rightarrow> (ll_fence l, Inl Overflow)
            | Some sequence \<Rightarrow>
                let renewal = \<lparr>rn_authority = ll_authority l, rn_generation = ll_generation l,
                               rn_sequence = sequence, rn_promise_ns = promise_ns (ll_timing l)\<rparr> in
                (l\<lparr>ll_sequence := sequence,
                   ll_pending := Some \<lparr>pd_certificate = \<lparr>ct_renewal = renewal, ct_end = end'\<rparr>,
                                      pd_acknowledgements = []\<rparr>\<rparr>, Inr renewal)))))"

definition ll_acknowledge :: "clock_reading \<Rightarrow> grant \<Rightarrow> (leader_lease, refused, bool) act" where
  "ll_acknowledge now grant =
     act_bind (ll_observe now) (\<lambda>time. act_bind ll_live (\<lambda>_ l.
       if \<not> fc_contains (ll_configuration l) (gr_voter grant) then (l, Inl WrongVoter)
       else case ll_pending l of
         None \<Rightarrow> (l, Inl WrongRound)
       | Some pending \<Rightarrow>
           if ct_renewal (pd_certificate pending) \<noteq> gr_renewal grant then (l, Inl WrongRound)
           else if time \<ge> ct_end (pd_certificate pending) then (l, Inl Expired)
           else
             let acks = List.insert (gr_voter grant) (pd_acknowledgements pending) in
             (l\<lparr>ll_pending := Some (pending\<lparr>pd_acknowledgements := acks\<rparr>)\<rparr>,
              Inr (length acks \<ge> fc_quorum (ll_configuration l)))))"

definition ll_publish :: "clock_reading \<Rightarrow> progress \<Rightarrow> renewal \<Rightarrow> (leader_lease, refused, unit) act" where
  "ll_publish now progress renewal =
     act_bind (ll_observe now) (\<lambda>time. act_bind (ll_progress progress) (\<lambda>_. act_bind ll_live (\<lambda>_ l.
       case ll_pending l of
         None \<Rightarrow> (l, Inl WrongRound)
       | Some pending \<Rightarrow>
           if ct_renewal (pd_certificate pending) \<noteq> renewal then (l, Inl WrongRound)
           else if time \<ge> ct_end (pd_certificate pending) then (l, Inl Expired)
           else if length (pd_acknowledgements pending) < fc_quorum (ll_configuration l)
           then (l, Inl NoQuorum)
           else (l\<lparr>ll_active := Some (pd_certificate pending), ll_pending := None\<rparr>, Inr ()))))"

definition ll_validate_renewal ::
  "clock_reading \<Rightarrow> progress \<Rightarrow> renewal \<Rightarrow> (leader_lease, refused, unit) act" where
  "ll_validate_renewal now progress renewal =
     act_bind (ll_observe now) (\<lambda>time. act_bind (ll_progress progress) (\<lambda>_. act_bind ll_live (\<lambda>_ l.
       case ll_pending l of
         None \<Rightarrow> (l, Inl WrongRound)
       | Some pending \<Rightarrow>
           if ct_renewal (pd_certificate pending) \<noteq> renewal then (l, Inl WrongRound)
           else if time \<ge> ct_end (pd_certificate pending) then (l, Inl Expired)
           else (l, Inr ()))))"

definition ll_begin_read :: "clock_reading \<Rightarrow> progress \<Rightarrow> u64 \<Rightarrow> (leader_lease, refused, read_ticket) act" where
  "ll_begin_read now progress request_deadline =
     act_bind (ll_observe now) (\<lambda>time. act_bind (ll_progress progress) (\<lambda>_. act_bind ll_live (\<lambda>_ l.
       if time \<ge> request_deadline then (l, Inl Deadline)
       else case ll_active l of
         None \<Rightarrow> (l, Inl NoCertificate)
       | Some certificate \<Rightarrow>
           if time \<ge> ct_end certificate then (l, Inl Expired)
           else (l, Inr \<lparr>rt_certificate = certificate, rt_clock_domain = cr_domain now,
                         rt_committed = pg_committed progress, rt_deadline = request_deadline\<rparr>))))"

definition ll_finish_read ::
  "clock_reading \<Rightarrow> progress \<Rightarrow> read_ticket \<Rightarrow> u64 \<Rightarrow> (leader_lease, refused, read_decision) act" where
  "ll_finish_read now progress ticket view_index =
     act_bind (ll_observe now) (\<lambda>time. act_bind (ll_progress progress) (\<lambda>_. act_bind ll_live (\<lambda>_ l.
       if rn_authority (ct_renewal (rt_certificate ticket)) \<noteq> ll_authority l
          \<or> rn_generation (ct_renewal (rt_certificate ticket)) \<noteq> ll_generation l
          \<or> rt_clock_domain ticket \<noteq> cr_domain now
       then (l, Inl WrongAuthority)
       else if time \<ge> rt_deadline ticket then (l, Inl Deadline)
       else if time \<ge> ct_end (rt_certificate ticket) then (l, Inl Expired)
       else if view_index < rt_committed ticket then (l, Inl ApplyLag)
       else if view_index > pg_committed progress then (l, Inl InvalidView)
       else (l, Inr \<lparr>rd_committed = rt_committed ticket, rd_view_index = view_index\<rparr>))))"

section \<open>The voter\<close>

record held_grant =
  hg_renewal :: renewal
  hg_end :: u64

record voter_lease =
  vl_node :: u64
  vl_group :: u64
  vl_configuration :: fixed_configuration
  vl_timing :: timing
  vl_clock :: clock_fence
  vl_term :: u64
  vl_hold_until :: u64
  vl_recovery_until :: u64
  vl_last_grant :: "held_grant option"
  vl_fenced :: bool

definition voter_recover ::
  "u64 \<Rightarrow> u64 \<Rightarrow> fixed_configuration \<Rightarrow> timing \<Rightarrow> clock_reading \<Rightarrow> u64 \<Rightarrow> refused + voter_lease" where
  "voter_recover node grp configuration timing now durable_term =
     (if \<not> fc_contains configuration node then Inl WrongVoter
      else case checked_add (cr_nanos now) (recovery_ns timing) of
        None \<Rightarrow> Inl Overflow
      | Some recovery_until \<Rightarrow>
          bind_res (fence_new now) (\<lambda>clock.
            Inr \<lparr>vl_node = node, vl_group = grp, vl_configuration = configuration,
                 vl_timing = timing, vl_clock = clock, vl_term = durable_term, vl_hold_until = 0,
                 vl_recovery_until = recovery_until, vl_last_grant = None, vl_fenced = False\<rparr>))"

definition vl_fence :: "voter_lease \<Rightarrow> voter_lease" where
  "vl_fence v = v\<lparr>vl_fenced := True\<rparr>"

definition vl_observe :: "clock_reading \<Rightarrow> u64 \<Rightarrow> (voter_lease, refused, u64) act" where
  "vl_observe now raft_term v =
     (if vl_fenced v then (v, Inl Fenced)
      else if raft_term < vl_term v then (vl_fence v, Inl WrongAuthority)
      else
        let v = v\<lparr>vl_term := raft_term\<rparr> in
        case fence_observe (vl_clock v) now of
          (clock, Inr time) \<Rightarrow> (v\<lparr>vl_clock := clock\<rparr>, Inr time)
        | (clock, Inl reason) \<Rightarrow> (vl_fence (v\<lparr>vl_clock := clock\<rparr>), Inl reason))"

definition vl_may_vote :: "clock_reading \<Rightarrow> u64 \<Rightarrow> (voter_lease, refused, unit) act" where
  "vl_may_vote now raft_term =
     act_bind (vl_observe now raft_term) (\<lambda>time v.
       if time < vl_recovery_until v then (v, Inl RecoveryQuarantine)
       else if time < vl_hold_until v then (v, Inl VotingPromise)
       else (v, Inr ()))"

text \<open>The identity checks of \<open>promise\<close>, and the check against the last grant: \<open>Inr True\<close> is
  the duplicate that is granted again, \<open>Inr False\<close> continues to a fresh hold.\<close>

definition renewal_foreign :: "voter_lease \<Rightarrow> u64 \<Rightarrow> renewal \<Rightarrow> bool" where
  "renewal_foreign v raft_leader renewal \<longleftrightarrow>
     (let authority = rn_authority renewal in
      au_group authority \<noteq> vl_group v \<or> au_configuration authority \<noteq> fc_id (vl_configuration v)
      \<or> \<not> fc_contains (vl_configuration v) (au_leader authority) \<or> au_leader authority \<noteq> raft_leader
      \<or> au_term authority \<noteq> vl_term v \<or> au_term authority = 0 \<or> au_incarnation authority = 0
      \<or> rn_sequence renewal = 0 \<or> rn_generation renewal = - 1
      \<or> rn_promise_ns renewal \<noteq> promise_ns (vl_timing v))"

definition last_grant_check :: "voter_lease \<Rightarrow> u64 \<Rightarrow> renewal \<Rightarrow> refused + bool" where
  "last_grant_check v time renewal =
     (case vl_last_grant v of
        None \<Rightarrow> Inr False
      | Some lst \<Rightarrow>
          if rn_authority (hg_renewal lst) = rn_authority renewal then
            if rn_sequence renewal < rn_sequence (hg_renewal lst)
               \<or> rn_generation renewal < rn_generation (hg_renewal lst) then Inl WrongRound
            else if rn_sequence renewal = rn_sequence (hg_renewal lst) then
              if renewal \<noteq> hg_renewal lst then Inl WrongRound
              else if time \<ge> hg_end lst then Inl Expired
              else Inr True
            else Inr False
          else if time < vl_hold_until v then Inl VotingPromise
          else Inr False)"

definition vl_promise ::
  "clock_reading \<Rightarrow> u64 \<Rightarrow> u64 \<Rightarrow> renewal \<Rightarrow> (voter_lease, refused, grant) act" where
  "vl_promise now raft_term raft_leader renewal =
     act_bind (vl_observe now raft_term) (\<lambda>time v.
       if time < vl_recovery_until v then (v, Inl RecoveryQuarantine)
       else if renewal_foreign v raft_leader renewal then (v, Inl WrongAuthority)
       else case last_grant_check v time renewal of
         Inl e \<Rightarrow> (v, Inl e)
       | Inr True \<Rightarrow> (v, Inr \<lparr>gr_renewal = renewal, gr_voter = vl_node v\<rparr>)
       | Inr False \<Rightarrow>
           (case checked_add time (promise_ns (vl_timing v)) of
              None \<Rightarrow> (vl_fence v, Inl Overflow)
            | Some end' \<Rightarrow>
                (v\<lparr>vl_hold_until := max (vl_hold_until v) end',
                   vl_last_grant := Some \<lparr>hg_renewal = renewal, hg_end = end'\<rparr>\<rparr>,
                 Inr \<lparr>gr_renewal = renewal, gr_voter = vl_node v\<rparr>)))"

end
