(* ===== verification/LeaseSystem.thy ===== *)
theory LeaseSystem
  imports Lease
begin

text \<open>
  The lease protocol as a whole: one leader incarnation, the voters of a fixed configuration,
  drifting local clocks, crashes, message loss and delay. The steps of the system call the
  operations of \<open>Lease\<close>; the environment only delivers grants that were issued and renewals of
  this leader that were started, and a clock reading of the expected domain is truthful.
  The frame conditions and the effect of each operation are proved here, once per operation.
\<close>

section \<open>Frame conditions\<close>

text \<open>A relation between the states before and after an operation, closed under sequencing.\<close>

locale act_frame =
  fixes keeps :: "'s \<Rightarrow> 's \<Rightarrow> bool"
  assumes keeps_refl: "keeps s s"
    and keeps_trans: "keeps s t \<Longrightarrow> keeps t u \<Longrightarrow> keeps s u"
begin

lemma keeps_bind:
  assumes "\<And>s. keeps s (fst (m s))" "\<And>a s. keeps s (fst (f a s))"
  shows "keeps s (fst (act_bind m f s))"
  using assms(1) [of s] assms(2) keeps_trans
  by (auto simp: act_bind_fst split: prod.splits sum.splits)

lemma keeps_run:
  assumes "m s = (t, Inr a)" "\<And>s. keeps s (fst (m s))" "keeps t u"
  shows "keeps s u"
  using assms(2) [of s] assms(1,3) keeps_trans by simp

end

definition ll_keeps :: "leader_lease \<Rightarrow> leader_lease \<Rightarrow> bool" where
  "ll_keeps l l' \<longleftrightarrow> ll_authority l' = ll_authority l \<and> ll_timing l' = ll_timing l
     \<and> ll_configuration l' = ll_configuration l \<and> ll_sequence l' = ll_sequence l
     \<and> (ll_pending l' = None \<or> ll_pending l' = ll_pending l)
     \<and> (ll_active l' = None \<or> ll_active l' = ll_active l)"

definition vl_keeps :: "voter_lease \<Rightarrow> voter_lease \<Rightarrow> bool" where
  "vl_keeps v v' \<longleftrightarrow> vl_node v' = vl_node v \<and> vl_timing v' = vl_timing v
     \<and> vl_configuration v' = vl_configuration v \<and> vl_group v' = vl_group v
     \<and> vl_hold_until v' = vl_hold_until v \<and> vl_recovery_until v' = vl_recovery_until v
     \<and> vl_last_grant v' = vl_last_grant v \<and> (vl_fenced v \<longrightarrow> vl_fenced v')"

interpretation leader_frame: act_frame ll_keeps
  by unfold_locales (auto simp: ll_keeps_def)

interpretation voter_frame: act_frame vl_keeps
  by unfold_locales (auto simp: vl_keeps_def)

named_theorems lease_keeps

lemma ll_keeps_fence [lease_keeps]: "ll_keeps l (ll_fence l)"
  by (simp add: ll_keeps_def ll_fence_def)

lemma ll_keeps_observe [lease_keeps]: "ll_keeps l (fst (ll_observe now l))"
  by (auto simp: ll_keeps_def ll_observe_def ll_fence_def split: prod.splits sum.splits)

lemma ll_keeps_progress [lease_keeps]: "ll_keeps l (fst (ll_progress p l))"
  by (simp add: ll_keeps_def ll_progress_def ll_fence_def Let_def)

lemma ll_keeps_live [lease_keeps]: "ll_keeps l (fst (ll_live l))"
  by (simp add: ll_keeps_def ll_live_def)

lemma ll_keeps_revoke [lease_keeps]: "ll_keeps l (ll_revoke l)"
  by (simp add: ll_keeps_def ll_revoke_def ll_fence_def Let_def)

lemma ll_keeps_rearm [lease_keeps]: "ll_keeps l (fst (ll_rearm now p l))"
  unfolding ll_rearm_def
  by (intro leader_frame.keeps_bind lease_keeps) (simp add: ll_keeps_def split: lease_mode.split)

lemma ll_keeps_validate [lease_keeps]: "ll_keeps l (fst (ll_validate_renewal now p r l))"
  unfolding ll_validate_renewal_def
  by (intro leader_frame.keeps_bind lease_keeps) (simp add: leader_frame.keeps_refl split: option.split)

lemma ll_keeps_begin_read [lease_keeps]: "ll_keeps l (fst (ll_begin_read now p d l))"
  unfolding ll_begin_read_def
  by (intro leader_frame.keeps_bind lease_keeps) (simp add: leader_frame.keeps_refl split: option.split)

lemma ll_keeps_finish_read [lease_keeps]: "ll_keeps l (fst (ll_finish_read now p t i l))"
  unfolding ll_finish_read_def
  by (intro leader_frame.keeps_bind lease_keeps) (simp add: leader_frame.keeps_refl)

lemma vl_keeps_fence [lease_keeps]: "vl_keeps v (vl_fence v)"
  by (simp add: vl_keeps_def vl_fence_def)

lemma vl_keeps_observe [lease_keeps]: "vl_keeps v (fst (vl_observe now t v))"
  by (auto simp: vl_keeps_def vl_observe_def vl_fence_def Let_def split: prod.splits sum.splits)

lemma vl_keeps_may_vote [lease_keeps]: "vl_keeps v (fst (vl_may_vote now t v))"
  unfolding vl_may_vote_def
  by (intro voter_frame.keeps_bind lease_keeps) (simp add: voter_frame.keeps_refl)

section \<open>What a successful operation establishes\<close>

lemma ll_observe_Inr:
  "ll_observe now l = (l', Inr t) \<Longrightarrow> t = cr_nanos now \<and> cr_domain now = cr_domain (ll_clock l)"
  by (auto simp: ll_observe_def fence_observe_def split: if_splits prod.splits sum.splits)

lemma vl_observe_Inr:
  "vl_observe now rt v = (v', Inr t) \<Longrightarrow> t = cr_nanos now \<and> cr_domain now = cr_domain (vl_clock v)
     \<and> \<not> vl_fenced v \<and> vl_term v' = rt \<and> vl_keeps v v'"
  using vl_keeps_observe [of v now rt]
  by (auto simp: vl_observe_def fence_observe_def Let_def split: if_splits prod.splits sum.splits)

text \<open>The common prefix of the operations: observe the clock, check progress, be live.\<close>

lemma ll_prefix:
  assumes "act_bind (ll_observe now) (\<lambda>t. act_bind (ll_progress p) (\<lambda>_. act_bind ll_live (\<lambda>_. f t))) l
      = (l', res)"
  shows "(\<exists>l1. ll_keeps l l1 \<and> cr_domain now = cr_domain (ll_clock l) \<and> f (cr_nanos now) l1 = (l', res))
    \<or> (ll_keeps l l' \<and> (\<exists>e. res = Inl e))"
proof -
  obtain l0 r0 where o: "ll_observe now l = (l0, r0)" by fastforce
  obtain l1 r1 where p: "ll_progress p l0 = (l1, r1)" by fastforce
  have k: "ll_keeps l l0" "ll_keeps l0 l1" "fst (ll_live l1) = l1"
    using ll_keeps_observe [of l now] ll_keeps_progress [of l0 p] o p by (auto simp: ll_live_def)
  then have k1: "ll_keeps l l1" using leader_frame.keeps_trans by blast
  show ?thesis
  proof (cases r0)
    case (Inl e)
    with assms o k show ?thesis by (auto simp: act_bind_def)
  next
    case t: (Inr t)
    show ?thesis
    proof (cases r1)
      case (Inl e)
      with assms o p t k1 show ?thesis by (auto simp: act_bind_def)
    next
      case (Inr u)
      with assms o p t k k1 ll_observe_Inr [of now l l0 t] show ?thesis
        by (auto simp: act_bind_def ll_live_def split: sum.splits lease_mode.splits)
    qed
  qed
qed

lemma ll_prefix_live:
  assumes "act_bind (ll_observe now) (\<lambda>t. act_bind ll_live (\<lambda>_. f t)) l = (l', res)"
  shows "(\<exists>l1. ll_keeps l l1 \<and> cr_domain now = cr_domain (ll_clock l) \<and> f (cr_nanos now) l1 = (l', res))
    \<or> (ll_keeps l l' \<and> (\<exists>e. res = Inl e))"
proof -
  obtain l0 r0 where o: "ll_observe now l = (l0, r0)" by fastforce
  have k: "ll_keeps l l0" using ll_keeps_observe [of l now] o by simp
  show ?thesis
  proof (cases r0)
    case (Inl e)
    with assms o k show ?thesis by (auto simp: act_bind_def)
  next
    case (Inr t)
    with assms o k ll_observe_Inr [of now l l0 t] show ?thesis
      by (auto simp: act_bind_def ll_live_def split: sum.splits lease_mode.splits)
  qed
qed

definition ll_same :: "leader_lease \<Rightarrow> leader_lease \<Rightarrow> bool" where
  "ll_same l l' \<longleftrightarrow> ll_authority l' = ll_authority l \<and> ll_timing l' = ll_timing l
     \<and> ll_configuration l' = ll_configuration l"

lemma ll_start_spec:
  assumes "ll_start now p l = (l', res)"
  obtains (started) rn e where "res = Inr rn" "rn_authority rn = ll_authority l"
      "unat (rn_sequence rn) = unat (ll_sequence l) + 1" "cr_domain now = cr_domain (ll_clock l)"
      "unat e = unat (cr_nanos now) + unat (leader_ns (ll_timing l))"
      "ll_pending l' = Some \<lparr>pd_certificate = \<lparr>ct_renewal = rn, ct_end = e\<rparr>, pd_acknowledgements = []\<rparr>"
      "ll_active l' = None \<or> ll_active l' = ll_active l" "ll_same l l'" "ll_sequence l' = rn_sequence rn"
  | (refused) "ll_keeps l l'" "\<exists>e. res = Inl e"
proof -
  from ll_prefix [OF assms [unfolded ll_start_def]] show ?thesis
  proof (elim disjE exE conjE)
    fix l1
    assume k: "ll_keeps l l1" and d: "cr_domain now = cr_domain (ll_clock l)"
      and f: "(case checked_add (cr_nanos now) (leader_ns (ll_timing l1)) of
         None \<Rightarrow> (ll_fence l1, Inl Overflow)
       | Some end' \<Rightarrow>
           (case checked_add (ll_sequence l1) 1 of
              None \<Rightarrow> (ll_fence l1, Inl Overflow)
            | Some sequence \<Rightarrow>
                let renewal = \<lparr>rn_authority = ll_authority l1, rn_generation = ll_generation l1,
                               rn_sequence = sequence, rn_promise_ns = promise_ns (ll_timing l1)\<rparr> in
                (l1\<lparr>ll_sequence := sequence,
                   ll_pending := Some \<lparr>pd_certificate = \<lparr>ct_renewal = renewal, ct_end = end'\<rparr>,
                                      pd_acknowledgements = []\<rparr>\<rparr>, Inr renewal))) = (l', res)"
    have kf: "ll_keeps l (ll_fence l1)" using k ll_keeps_fence leader_frame.keeps_trans by blast
    show ?thesis
    proof (cases "checked_add (cr_nanos now) (leader_ns (ll_timing l1))")
      case None
      with f kf show ?thesis by (auto intro: refused)
    next
      case e: (Some e)
      show ?thesis
      proof (cases "checked_add (ll_sequence l1) 1")
        case None
        with f kf e show ?thesis by (auto intro: refused)
      next
        case (Some q)
        with f e k d checked_add_SomeD [OF e] checked_add_SomeD [OF Some] show ?thesis
          by (intro started) (auto simp: ll_keeps_def ll_same_def Let_def)
      qed
    qed
  qed (auto intro: refused)
qed

lemma ll_acknowledge_spec:
  assumes "ll_acknowledge now g l = (l', res)"
  obtains (added) pd where "ll_pending l = Some pd" "ct_renewal (pd_certificate pd) = gr_renewal g"
      "gr_voter g \<in> set (fc_voters (ll_configuration l))"
      "ll_pending l' = Some (pd\<lparr>pd_acknowledgements := List.insert (gr_voter g) (pd_acknowledgements pd)\<rparr>)"
      "ll_active l' = None \<or> ll_active l' = ll_active l" "ll_same l l'" "ll_sequence l' = ll_sequence l"
  | (refused) "ll_keeps l l'"
proof -
  from ll_prefix_live [OF assms [unfolded ll_acknowledge_def]] show ?thesis
  proof (elim disjE exE conjE)
    fix l1
    assume k: "ll_keeps l l1"
      and f: "(if \<not> fc_contains (ll_configuration l1) (gr_voter g) then (l1, Inl WrongVoter)
       else case ll_pending l1 of
         None \<Rightarrow> (l1, Inl WrongRound)
       | Some pending \<Rightarrow>
           if ct_renewal (pd_certificate pending) \<noteq> gr_renewal g then (l1, Inl WrongRound)
           else if cr_nanos now \<ge> ct_end (pd_certificate pending) then (l1, Inl Expired)
           else
             let acks = List.insert (gr_voter g) (pd_acknowledgements pending) in
             (l1\<lparr>ll_pending := Some (pending\<lparr>pd_acknowledgements := acks\<rparr>)\<rparr>,
              Inr (length acks \<ge> fc_quorum (ll_configuration l1)))) = (l', res)"
    show ?thesis
    proof (cases "l' = l1")
      case True
      with k show ?thesis by (auto intro: refused)
    next
      case False
      with f obtain pd where "ll_pending l1 = Some pd" "fc_contains (ll_configuration l1) (gr_voter g)"
        "ct_renewal (pd_certificate pd) = gr_renewal g"
        "l' = l1\<lparr>ll_pending := Some (pd\<lparr>pd_acknowledgements :=
            List.insert (gr_voter g) (pd_acknowledgements pd)\<rparr>)\<rparr>"
        by (auto simp: Let_def split: if_splits option.splits)
      with k show ?thesis by (intro added [of pd]) (auto simp: ll_keeps_def ll_same_def fc_contains_def)
    qed
  qed (rule refused)
qed

lemma ll_publish_spec:
  assumes "ll_publish now p r l = (l', res)"
  obtains (published) pd where "ll_pending l = Some pd" "ll_active l' = Some (pd_certificate pd)"
      "fc_quorum (ll_configuration l) \<le> length (pd_acknowledgements pd)"
      "ll_pending l' = None" "ll_same l l'" "ll_sequence l' = ll_sequence l"
  | (refused) "ll_keeps l l'"
proof -
  from ll_prefix [OF assms [unfolded ll_publish_def]] show ?thesis
  proof (elim disjE exE conjE)
    fix l1
    assume k: "ll_keeps l l1"
      and f: "(case ll_pending l1 of
         None \<Rightarrow> (l1, Inl WrongRound)
       | Some pending \<Rightarrow>
           if ct_renewal (pd_certificate pending) \<noteq> r then (l1, Inl WrongRound)
           else if cr_nanos now \<ge> ct_end (pd_certificate pending) then (l1, Inl Expired)
           else if length (pd_acknowledgements pending) < fc_quorum (ll_configuration l1)
           then (l1, Inl NoQuorum)
           else (l1\<lparr>ll_active := Some (pd_certificate pending), ll_pending := None\<rparr>, Inr ())) = (l', res)"
    show ?thesis
    proof (cases "l' = l1")
      case True
      with k show ?thesis by (auto intro: refused)
    next
      case False
      with f obtain pd where "ll_pending l1 = Some pd"
        "fc_quorum (ll_configuration l1) \<le> length (pd_acknowledgements pd)"
        "l' = l1\<lparr>ll_active := Some (pd_certificate pd), ll_pending := None\<rparr>"
        by (auto split: if_splits option.splits)
      with k show ?thesis by (intro published [of pd]) (auto simp: ll_keeps_def ll_same_def)
    qed
  qed (rule refused)
qed

lemma ll_begin_read_spec:
  "ll_begin_read now p d l = (l', Inr t) \<Longrightarrow> ll_active l = Some (rt_certificate t)"
  unfolding ll_begin_read_def
  by (drule ll_prefix) (auto simp: ll_keeps_def split: if_splits option.splits)

lemma ll_finish_read_spec:
  "ll_finish_read now p t i l = (l', Inr d) \<Longrightarrow>
     cr_nanos now < ct_end (rt_certificate t) \<and> cr_domain now = cr_domain (ll_clock l)
     \<and> rt_committed t \<le> rd_view_index d \<and> rd_view_index d \<le> pg_committed p"
  unfolding ll_finish_read_def
  by (drule ll_prefix) (auto simp: ll_keeps_def split: if_splits)

lemma vl_promise_spec:
  assumes "vl_promise now rt ld rn v = (v', res)"
  obtains (again) h where "res = Inr \<lparr>gr_renewal = rn, gr_voter = vl_node v\<rparr>" "vl_keeps v v'"
      "vl_last_grant v = Some h" "hg_renewal h = rn"
  | (fresh) h where "res = Inr \<lparr>gr_renewal = rn, gr_voter = vl_node v\<rparr>" "au_term (rn_authority rn) = rt"
      "cr_domain now = cr_domain (vl_clock v)"
      "unat (cr_nanos now) + unat (promise_ns (vl_timing v)) \<le> unat (vl_hold_until v')"
      "vl_hold_until v \<le> vl_hold_until v'" "vl_recovery_until v' = vl_recovery_until v"
      "vl_last_grant v' = Some h" "hg_renewal h = rn" "vl_node v' = vl_node v" "vl_timing v' = vl_timing v"
      "\<not> vl_fenced v"
  | (refused) e where "res = Inl e" "vl_keeps v v'"
proof (cases "vl_observe now rt v")
  case (Pair v1 r1)
  show ?thesis
  proof (cases r1)
    case (Inl e)
    with Pair assms vl_keeps_observe [of v now rt] show ?thesis
      by (intro refused [of e]) (auto simp: vl_promise_def act_bind_def)
  next
    case (Inr t)
    from vl_observe_Inr [OF Pair [unfolded Inr]] have o: "t = cr_nanos now"
      "cr_domain now = cr_domain (vl_clock v)" "\<not> vl_fenced v" "vl_term v1 = rt" "vl_keeps v v1" by auto
    have kf: "vl_keeps v (vl_fence v1)" using o(5) vl_keeps_fence voter_frame.keeps_trans by blast
    from assms have f: "(if t < vl_recovery_until v1 then (v1, Inl RecoveryQuarantine)
       else if renewal_foreign v1 ld rn then (v1, Inl WrongAuthority)
       else case last_grant_check v1 t rn of
         Inl e \<Rightarrow> (v1, Inl e)
       | Inr True \<Rightarrow> (v1, Inr \<lparr>gr_renewal = rn, gr_voter = vl_node v1\<rparr>)
       | Inr False \<Rightarrow>
           (case checked_add t (promise_ns (vl_timing v1)) of
              None \<Rightarrow> (vl_fence v1, Inl Overflow)
            | Some end' \<Rightarrow>
                (v1\<lparr>vl_hold_until := max (vl_hold_until v1) end',
                   vl_last_grant := Some \<lparr>hg_renewal = rn, hg_end = end'\<rparr>\<rparr>,
                 Inr \<lparr>gr_renewal = rn, gr_voter = vl_node v1\<rparr>))) = (v', res)"
      by (simp add: vl_promise_def act_bind_def Pair Inr)
    show ?thesis
    proof (cases "t < vl_recovery_until v1 \<or> renewal_foreign v1 ld rn \<or> (\<exists>e. last_grant_check v1 t rn = Inl e)")
      case True
      with f o(5) show ?thesis by (auto intro: refused split: if_splits)
    next
      case False
      then obtain b where b: "last_grant_check v1 t rn = Inr b" and nf: "\<not> renewal_foreign v1 ld rn"
        by (cases "last_grant_check v1 t rn") auto
      show ?thesis
      proof (cases b)
        case True
        with b obtain h where "vl_last_grant v1 = Some h" "hg_renewal h = rn"
          by (auto simp: last_grant_check_def split: option.splits if_splits)
        with f False b True o(5) show ?thesis by (intro again [of h]) (auto simp: vl_keeps_def)
      next
        case nb: False
        show ?thesis
        proof (cases "checked_add t (promise_ns (vl_timing v1))")
          case None
          with f False b nb kf show ?thesis by (auto intro: refused)
        next
          case (Some e)
          with f False b nb o nf checked_add_SomeD [OF Some] show ?thesis
            by (intro fresh [of "\<lparr>hg_renewal = rn, hg_end = e\<rparr>"])
              (auto simp: vl_keeps_def renewal_foreign_def Let_def unat_max)
        qed
      qed
    qed
  qed
qed

section \<open>Timing\<close>

record lease_env =
  en_authority :: authority
  en_configuration :: fixed_configuration
  en_timing :: timing
  en_promise :: u64
  en_drift :: u32
  en_margin :: u64
  en_error :: nat
  en_clock :: "nat \<Rightarrow> nat"

text \<open>
  A clock whose rate lies in \<open>[1 - rho, 1 + rho]\<close> and whose readings are off by less than the
  error of the environment, over real time in nanoseconds.
\<close>

definition clock_ok :: "lease_env \<Rightarrow> (nat \<Rightarrow> nat) \<Rightarrow> bool" where
  "clock_ok e clk \<longleftrightarrow> (\<forall>s t. s \<le> t \<longrightarrow>
     (RATE_SCALE - unat (en_drift e)) * (t - s) + RATE_SCALE * clk s \<le> RATE_SCALE * (clk t + en_error e)
     \<and> RATE_SCALE * clk t \<le> RATE_SCALE * clk s + (RATE_SCALE + unat (en_drift e)) * (t - s)
         + RATE_SCALE * en_error e)"

definition env_ok :: "lease_env \<Rightarrow> bool" where
  "env_ok e \<longleftrightarrow> timing_new (en_promise e) (en_drift e) (en_margin e) = Inr (en_timing e)
     \<and> (\<exists>c i. configuration_new i c = Inr (en_configuration e))
     \<and> 2 * en_error e \<le> unat (en_margin e) \<and> clock_ok e (en_clock e)"

lemma timing_new_facts:
  assumes "timing_new p d m = Inr t"
  shows "unat d < RATE_SCALE" "promise_ns t = p"
    "(RATE_SCALE + unat d) * (unat (leader_ns t) + unat m) \<le> unat p * (RATE_SCALE - unat d)"
    "unat p \<le> unat (recovery_ns t)"
proof -
  let ?a = "RATE_SCALE - unat d" and ?b = "RATE_SCALE + unat d"
  let ?q = "unat p * ?a div ?b" and ?r = "(unat p * ?b + ?a - 1) div ?a"
  from assms have d: "unat d < RATE_SCALE" and q: "unat m \<le> ?q" "?q - unat m < 2 ^ 64"
    and r: "?r + unat m < 2 ^ 64"
    and t: "t = \<lparr>promise_ns = p, leader_ns = of_nat (?q - unat m), recovery_ns = of_nat (?r + unat m)\<rparr>"
    by (auto simp: timing_new_def Let_def not_le not_less split: if_splits)
  show "unat d < RATE_SCALE" "promise_ns t = p" using d t by simp_all
  have "unat (leader_ns t) = ?q - unat m"
    unfolding t timing.select_convs by (rule unat_of_nat_u64 [OF q(2)])
  then have "unat (leader_ns t) + unat m = ?q" using q by simp
  then show "?b * (unat (leader_ns t) + unat m) \<le> unat p * ?a"
    by (metis mult.commute times_div_less_eq_dividend)
  have "unat p * ?a \<le> unat p * ?b + ?a - 1"
  proof -
    have "unat p * ?a \<le> unat p * ?b" by (intro mult_le_mono2) simp
    then show ?thesis using d by linarith
  qed
  then have "unat p \<le> ?r" using d by (simp add: less_eq_div_iff_mult_less_eq)
  moreover have "unat (recovery_ns t) = ?r + unat m"
    unfolding t timing.select_convs by (rule unat_of_nat_u64 [OF r])
  ultimately show "unat p \<le> unat (recovery_ns t)" by simp
qed

text \<open>The leader may still read: its clock has not used up the leader window since \<open>st\<close>.\<close>

definition in_window :: "lease_env \<Rightarrow> nat \<Rightarrow> nat \<Rightarrow> bool" where
  "in_window e st now \<longleftrightarrow>
     (RATE_SCALE - unat (en_drift e)) * (now - st) < RATE_SCALE * (unat (leader_ns (en_timing e)) + en_error e)"

lemma in_window_mono: "in_window e st now' \<Longrightarrow> now \<le> now' \<Longrightarrow> in_window e st now"
  unfolding in_window_def by (meson diff_le_mono mult_le_mono2 le_less_trans)

lemma window_of_clock:
  assumes "env_ok e" "st \<le> now" "en_clock e now < en_clock e st + unat (leader_ns (en_timing e))"
  shows "in_window e st now"
proof -
  have "(RATE_SCALE - unat (en_drift e)) * (now - st) + RATE_SCALE * en_clock e st
      \<le> RATE_SCALE * (en_clock e now + en_error e)"
    using assms(1,2) by (auto simp: env_ok_def clock_ok_def)
  also have "\<dots> < RATE_SCALE * (en_clock e st + unat (leader_ns (en_timing e)) + en_error e)"
    using assms(3) by (simp add: RATE_SCALE_def)
  finally show ?thesis by (simp add: in_window_def add_mult_distrib2)
qed

text \<open>The drift inequality: inside the leader's window no voter's clock has used up the promise.\<close>

lemma promise_covers_window:
  assumes e: "env_ok e" and clk: "clock_ok e clk" and "st \<le> g" "g \<le> now" and w: "in_window e st now"
  shows "clk now < clk g + unat (en_promise e)"
proof -
  let ?S = RATE_SCALE and ?a = "RATE_SCALE - unat (en_drift e)" and ?b = "RATE_SCALE + unat (en_drift e)"
  let ?L = "unat (leader_ns (en_timing e))" and ?x = "en_error e" and ?P = "unat (en_promise e)"
  have t: "unat (en_drift e) < ?S" "?b * (?L + unat (en_margin e)) \<le> ?P * ?a"
    using e timing_new_facts by (auto simp: env_ok_def)
  have m: "2 * ?x \<le> unat (en_margin e)" using e by (simp add: env_ok_def)
  have S: "0 < ?S" "0 < ?a" using t by (simp_all add: RATE_SCALE_def)
  have "?S * clk now \<le> ?S * clk g + ?b * (now - g) + ?S * ?x"
    using clk assms(4) by (simp add: clock_ok_def)
  then have 1: "?a * (?S * clk now) \<le> ?a * (?S * clk g) + ?b * (?a * (now - g)) + ?a * (?S * ?x)"
    by (metis (no_types, lifting) add_mult_distrib2 mult.left_commute mult_le_mono2)
  have "?a * (now - g) < ?S * (?L + ?x)"
    using w assms(3) unfolding in_window_def by (meson diff_le_mono2 le_less_trans mult_le_mono2)
  then have "?b * (?a * (now - g)) < ?b * (?S * (?L + ?x))" using S(1) by simp
  with 1 have "?a * (?S * clk now) < ?a * (?S * clk g) + ?b * (?S * (?L + ?x)) + ?a * (?S * ?x)"
    by linarith
  then have "?S * (?a * clk now) < ?S * (?a * clk g + ?b * (?L + ?x) + ?a * ?x)"
    by (simp add: algebra_simps)
  then have "?a * clk now < ?a * clk g + ?b * (?L + ?x) + ?a * ?x" using S by simp
  also have "\<dots> \<le> ?a * clk g + ?b * (?L + 2 * ?x)"
  proof -
    have "?a * ?x \<le> ?b * ?x" by (intro mult_le_mono1) simp
    moreover have "?b * (?L + 2 * ?x) = ?b * (?L + ?x) + ?b * ?x" by (simp add: algebra_simps)
    ultimately show ?thesis by linarith
  qed
  also have "\<dots> \<le> ?a * clk g + ?b * (?L + unat (en_margin e))" using m by simp
  also have "\<dots> \<le> ?a * (clk g + ?P)" using t(2) by (simp add: add_mult_distrib2 mult.commute)
  finally show ?thesis using S by simp
qed

section \<open>The system\<close>

text \<open>
  The ghost fields record what was sent, granted, ticketed and voted; \<open>sy_rterm\<close> is the durable
  Raft term of each node and \<open>sy_vclk\<close> the clock of each voter's current incarnation.
\<close>

record lease_sys =
  sy_now :: nat
  sy_leader :: leader_lease
  sy_voter :: "u64 \<Rightarrow> voter_lease"
  sy_vclk :: "u64 \<Rightarrow> nat \<Rightarrow> nat"
  sy_rterm :: "u64 \<Rightarrow> u64"
  sy_sent :: "(renewal \<times> nat) set"
  sy_grants :: "(u64 \<times> renewal) set"
  sy_tickets :: "read_ticket set"
  sy_voted :: "(u64 \<times> u64) set"

definition truthful :: "(nat \<Rightarrow> nat) \<Rightarrow> clock_fence \<Rightarrow> nat \<Rightarrow> clock_reading \<Rightarrow> bool" where
  "truthful clk fence now rd \<longleftrightarrow> (cr_domain rd = cr_domain fence \<longrightarrow> unat (cr_nanos rd) = clk now)"

abbreviation leader_reads :: "lease_env \<Rightarrow> lease_sys \<Rightarrow> clock_reading \<Rightarrow> bool" where
  "leader_reads e s rd \<equiv> truthful (en_clock e) (ll_clock (sy_leader s)) (sy_now s) rd"

abbreviation voter_reads :: "lease_sys \<Rightarrow> u64 \<Rightarrow> clock_reading \<Rightarrow> bool" where
  "voter_reads s v rd \<equiv> truthful (sy_vclk s v) (vl_clock (sy_voter s v)) (sy_now s) rd"

definition lease_voters :: "lease_env \<Rightarrow> u64 set" where
  "lease_voters e = set (fc_voters (en_configuration e))"

definition recovered :: "lease_env \<Rightarrow> nat \<Rightarrow> u64 \<Rightarrow> (nat \<Rightarrow> nat) \<Rightarrow> u64 \<Rightarrow> voter_lease \<Rightarrow> bool" where
  "recovered e now v clk t w \<longleftrightarrow> clock_ok e clk \<and> (\<exists>rd. unat (cr_nanos rd) = clk now
     \<and> voter_recover v (au_group (en_authority e)) (en_configuration e) (en_timing e) rd t = Inr w)"

definition lease_init :: "lease_env \<Rightarrow> lease_sys \<Rightarrow> bool" where
  "lease_init e s \<longleftrightarrow>
     (\<exists>rd. unat (cr_nanos rd) = en_clock e (sy_now s) \<and>
       leader_new (en_configuration e) (en_authority e) (en_timing e) rd = Inr (sy_leader s))
     \<and> (\<forall>v\<in>lease_voters e. recovered e (sy_now s) v (sy_vclk s v) (sy_rterm s v) (sy_voter s v))
     \<and> sy_sent s = {} \<and> sy_grants s = {} \<and> sy_tickets s = {}
     \<and> (\<forall>v t. (v, t) \<in> sy_voted s \<longrightarrow> t \<le> sy_rterm s v)"

inductive lease_step :: "lease_env \<Rightarrow> lease_sys \<Rightarrow> lease_sys \<Rightarrow> bool" for e where
  tick: "sy_now s \<le> t \<Longrightarrow> lease_step e s (s\<lparr>sy_now := t\<rparr>)"
| leader_fence: "lease_step e s (s\<lparr>sy_leader := ll_fence (sy_leader s)\<rparr>)"
| leader_revoke: "lease_step e s (s\<lparr>sy_leader := ll_revoke (sy_leader s)\<rparr>)"
| leader_rearm: "leader_reads e s rd \<Longrightarrow> ll_rearm rd p (sy_leader s) = (l, res) \<Longrightarrow>
    lease_step e s (s\<lparr>sy_leader := l\<rparr>)"
| leader_validate: "leader_reads e s rd \<Longrightarrow> ll_validate_renewal rd p r (sy_leader s) = (l, res) \<Longrightarrow>
    lease_step e s (s\<lparr>sy_leader := l\<rparr>)"
| leader_start: "leader_reads e s rd \<Longrightarrow> ll_start rd p (sy_leader s) = (l, res) \<Longrightarrow>
    lease_step e s (s\<lparr>sy_leader := l,
      sy_sent := (case res of Inl _ \<Rightarrow> sy_sent s | Inr r \<Rightarrow> insert (r, sy_now s) (sy_sent s))\<rparr>)"
| leader_ack: "leader_reads e s rd \<Longrightarrow> (gr_voter g, gr_renewal g) \<in> sy_grants s \<Longrightarrow>
    ll_acknowledge rd g (sy_leader s) = (l, res) \<Longrightarrow> lease_step e s (s\<lparr>sy_leader := l\<rparr>)"
| leader_publish: "leader_reads e s rd \<Longrightarrow> ll_publish rd p r (sy_leader s) = (l, res) \<Longrightarrow>
    lease_step e s (s\<lparr>sy_leader := l\<rparr>)"
| leader_begin: "leader_reads e s rd \<Longrightarrow> ll_begin_read rd p d (sy_leader s) = (l, res) \<Longrightarrow>
    lease_step e s (s\<lparr>sy_leader := l,
      sy_tickets := (case res of Inl _ \<Rightarrow> sy_tickets s | Inr t \<Rightarrow> insert t (sy_tickets s))\<rparr>)"
| leader_finish: "leader_reads e s rd \<Longrightarrow> t \<in> sy_tickets s \<Longrightarrow>
    ll_finish_read rd p t i (sy_leader s) = (l, res) \<Longrightarrow> lease_step e s (s\<lparr>sy_leader := l\<rparr>)"
| raise_term: "sy_rterm s v \<le> t \<Longrightarrow> lease_step e s (s\<lparr>sy_rterm := (sy_rterm s)(v := t)\<rparr>)"
| voter_fence: "v \<in> lease_voters e \<Longrightarrow>
    lease_step e s (s\<lparr>sy_voter := (sy_voter s)(v := vl_fence (sy_voter s v))\<rparr>)"
| voter_promise: "v \<in> lease_voters e \<Longrightarrow> voter_reads s v rd \<Longrightarrow>
    (rn_authority r = en_authority e \<Longrightarrow> r \<in> fst ` sy_sent s) \<Longrightarrow>
    vl_promise rd (sy_rterm s v) ld r (sy_voter s v) = (w, res) \<Longrightarrow>
    lease_step e s (s\<lparr>sy_voter := (sy_voter s)(v := w),
      sy_grants := (case res of Inl _ \<Rightarrow> sy_grants s
        | Inr g \<Rightarrow> insert (gr_voter g, gr_renewal g) (sy_grants s))\<rparr>)"
| voter_refuse: "v \<in> lease_voters e \<Longrightarrow> voter_reads s v rd \<Longrightarrow>
    vl_may_vote rd (sy_rterm s v) (sy_voter s v) = (w, Inl x) \<Longrightarrow>
    lease_step e s (s\<lparr>sy_voter := (sy_voter s)(v := w)\<rparr>)"
| voter_vote: "v \<in> lease_voters e \<Longrightarrow> voter_reads s v rd \<Longrightarrow> sy_rterm s v \<le> t \<Longrightarrow>
    vl_may_vote rd (sy_rterm s v) (sy_voter s v) = (w, Inr ()) \<Longrightarrow>
    lease_step e s (s\<lparr>sy_voter := (sy_voter s)(v := w), sy_rterm := (sy_rterm s)(v := t),
      sy_voted := insert (v, t) (sy_voted s)\<rparr>)"
| voter_restart: "v \<in> lease_voters e \<Longrightarrow> recovered e (sy_now s) v clk (sy_rterm s v) w \<Longrightarrow>
    lease_step e s (s\<lparr>sy_voter := (sy_voter s)(v := w), sy_vclk := (sy_vclk s)(v := clk)\<rparr>)"

definition lease_reachable :: "lease_env \<Rightarrow> lease_sys \<Rightarrow> bool" where
  "lease_reachable e s \<longleftrightarrow> (\<exists>s0. lease_init e s0 \<and> (lease_step e)\<^sup>*\<^sup>* s0 s)"

end
