(* ===== verification/LeaseSafety.thy ===== *)
theory LeaseSafety
  imports LeaseSystem
begin

text \<open>
  Safety of the leader lease: the inductive invariant of the system of \<open>LeaseSystem\<close>, and that
  a read finished under the lease excludes every election of a later term.
\<close>

section \<open>The invariant\<close>

definition covered :: "lease_env \<Rightarrow> lease_sys \<Rightarrow> u64 \<Rightarrow> nat \<Rightarrow> bool" where
  "covered e s v st \<longleftrightarrow> vl_fenced (sy_voter s v) \<or>
     (\<exists>g. st \<le> g \<and> g \<le> sy_now s \<and> sy_vclk s v g + unat (en_promise e)
        \<le> max (unat (vl_hold_until (sy_voter s v))) (unat (vl_recovery_until (sy_voter s v))))"

definition grant_inv :: "lease_env \<Rightarrow> lease_sys \<Rightarrow> u64 \<Rightarrow> renewal \<Rightarrow> bool" where
  "grant_inv e s v r \<longleftrightarrow> v \<in> lease_voters e \<and> r \<in> fst ` sy_sent s \<and>
     (\<forall>st. (r, st) \<in> sy_sent s \<longrightarrow> covered e s v st \<and>
        (\<forall>t. (v, t) \<in> sy_voted s \<longrightarrow> au_term (en_authority e) < t \<longrightarrow> \<not> in_window e st (sy_now s)))"

definition cert_inv :: "lease_env \<Rightarrow> lease_sys \<Rightarrow> certificate \<Rightarrow> bool" where
  "cert_inv e s c \<longleftrightarrow> (\<exists>st. (ct_renewal c, st) \<in> sy_sent s \<and>
     unat (ct_end c) = en_clock e st + unat (leader_ns (en_timing e)))"

definition quorum_inv :: "lease_env \<Rightarrow> lease_sys \<Rightarrow> certificate \<Rightarrow> bool" where
  "quorum_inv e s c \<longleftrightarrow> cert_inv e s c \<and>
     (\<exists>Q \<subseteq> lease_voters e. fc_quorum (en_configuration e) \<le> card Q \<and> (\<forall>v\<in>Q. (v, ct_renewal c) \<in> sy_grants s))"

definition pending_inv :: "lease_env \<Rightarrow> lease_sys \<Rightarrow> pending \<Rightarrow> bool" where
  "pending_inv e s p \<longleftrightarrow> cert_inv e s (pd_certificate p) \<and> distinct (pd_acknowledgements p) \<and>
     set (pd_acknowledgements p) \<subseteq> lease_voters e \<and>
     (\<forall>v\<in>set (pd_acknowledgements p). (v, ct_renewal (pd_certificate p)) \<in> sy_grants s)"

definition voter_inv :: "lease_env \<Rightarrow> lease_sys \<Rightarrow> u64 \<Rightarrow> bool" where
  "voter_inv e s v \<longleftrightarrow> clock_ok e (sy_vclk s v) \<and> vl_node (sy_voter s v) = v
     \<and> vl_timing (sy_voter s v) = en_timing e
     \<and> (\<forall>h. vl_last_grant (sy_voter s v) = Some h \<longrightarrow> (v, hg_renewal h) \<in> sy_grants s)"

definition leader_inv :: "lease_env \<Rightarrow> lease_sys \<Rightarrow> bool" where
  "leader_inv e s \<longleftrightarrow> ll_authority (sy_leader s) = en_authority e \<and> ll_timing (sy_leader s) = en_timing e
     \<and> ll_configuration (sy_leader s) = en_configuration e
     \<and> (\<forall>r st. (r, st) \<in> sy_sent s \<longrightarrow> rn_authority r = en_authority e \<and> st \<le> sy_now s
         \<and> rn_sequence r \<le> ll_sequence (sy_leader s))
     \<and> (\<forall>p. ll_pending (sy_leader s) = Some p \<longrightarrow> pending_inv e s p)
     \<and> (\<forall>c. ll_active (sy_leader s) = Some c \<longrightarrow> quorum_inv e s c)
     \<and> (\<forall>t\<in>sy_tickets s. quorum_inv e s (rt_certificate t))"

definition lease_inv :: "lease_env \<Rightarrow> lease_sys \<Rightarrow> bool" where
  "lease_inv e s \<longleftrightarrow> leader_inv e s \<and> (\<forall>v\<in>lease_voters e. voter_inv e s v)
     \<and> (\<forall>v r. (v, r) \<in> sy_grants s \<longrightarrow> rn_authority r = en_authority e \<longrightarrow> grant_inv e s v r)
     \<and> (\<forall>v t. (v, t) \<in> sy_voted s \<longrightarrow> t \<le> sy_rterm s v)"

lemmas lease_inv_defs = covered_def grant_inv_def cert_inv_def quorum_inv_def pending_inv_def voter_inv_def

lemma inv_frame_leader [simp]:
  "covered e (s\<lparr>sy_leader := l\<rparr>) v st = covered e s v st"
  "grant_inv e (s\<lparr>sy_leader := l\<rparr>) v r = grant_inv e s v r"
  "cert_inv e (s\<lparr>sy_leader := l\<rparr>) c = cert_inv e s c"
  "quorum_inv e (s\<lparr>sy_leader := l\<rparr>) c = quorum_inv e s c"
  "pending_inv e (s\<lparr>sy_leader := l\<rparr>) p = pending_inv e s p"
  "voter_inv e (s\<lparr>sy_leader := l\<rparr>) v = voter_inv e s v"
  by (simp_all add: lease_inv_defs)

lemma inv_frame_tickets [simp]:
  "grant_inv e (s\<lparr>sy_tickets := l\<rparr>) v r = grant_inv e s v r"
  "quorum_inv e (s\<lparr>sy_tickets := l\<rparr>) c = quorum_inv e s c"
  "pending_inv e (s\<lparr>sy_tickets := l\<rparr>) p = pending_inv e s p"
  "voter_inv e (s\<lparr>sy_tickets := l\<rparr>) v = voter_inv e s v"
  by (simp_all add: lease_inv_defs)

lemma cert_inv_mono: "cert_inv e s c \<Longrightarrow> sy_sent s \<subseteq> sy_sent s' \<Longrightarrow> cert_inv e s' c"
  by (auto simp: cert_inv_def)

lemma quorum_inv_mono:
  "quorum_inv e s c \<Longrightarrow> sy_sent s \<subseteq> sy_sent s' \<Longrightarrow> sy_grants s \<subseteq> sy_grants s' \<Longrightarrow> quorum_inv e s' c"
  by (auto simp: quorum_inv_def intro: cert_inv_mono) (meson subset_iff)

lemma pending_inv_mono:
  "pending_inv e s p \<Longrightarrow> sy_sent s \<subseteq> sy_sent s' \<Longrightarrow> sy_grants s \<subseteq> sy_grants s' \<Longrightarrow> pending_inv e s' p"
  by (auto simp: pending_inv_def intro: cert_inv_mono)

lemma leader_inv_mono:
  assumes "leader_inv e s" "sy_leader s' = sy_leader s" "sy_sent s' = sy_sent s" "sy_tickets s' = sy_tickets s"
    "sy_grants s \<subseteq> sy_grants s'" "sy_now s \<le> sy_now s'"
  shows "leader_inv e s'"
proof -
  have "quorum_inv e s' c" if "quorum_inv e s c" for c
    using that assms by (auto intro: quorum_inv_mono)
  moreover have "pending_inv e s' p" if "pending_inv e s p" for p
    using that assms by (auto intro: pending_inv_mono)
  ultimately show ?thesis using assms by (fastforce simp: leader_inv_def)
qed

text \<open>Steps of the leader that keep or drop its certificates.\<close>

lemma inv_leader_keeps:
  assumes "lease_inv e s" "ll_keeps (sy_leader s) l"
  shows "lease_inv e (s\<lparr>sy_leader := l\<rparr>)"
  using assms by (auto simp: lease_inv_def leader_inv_def ll_keeps_def)

lemma inv_start:
  assumes inv: "lease_inv e s" and rd: "leader_reads e s rd" and st: "ll_start rd p (sy_leader s) = (l, res)"
  shows "lease_inv e (s\<lparr>sy_leader := l,
      sy_sent := (case res of Inl _ \<Rightarrow> sy_sent s | Inr r \<Rightarrow> insert (r, sy_now s) (sy_sent s))\<rparr>)"
  using st
proof (cases rule: ll_start_spec)
  case (started rn d)
  let ?s = "s\<lparr>sy_leader := l, sy_sent := insert (rn, sy_now s) (sy_sent s)\<rparr>"
  have L: "leader_inv e s" using inv by (simp add: lease_inv_def)
  have seq: "rn_sequence r \<le> ll_sequence (sy_leader s)" if "(r, t) \<in> sy_sent s" for r t
    using L that by (auto simp: leader_inv_def)
  have lt: "ll_sequence (sy_leader s) < rn_sequence rn" using started(3) by (simp add: word_less_nat_alt)
  have new: "rn \<notin> fst ` sy_sent s" using seq lt by fastforce
  have "unat d = en_clock e (sy_now s) + unat (leader_ns (en_timing e))"
    using started(4,5) rd L by (simp add: truthful_def leader_inv_def)
  then have pend: "pending_inv e ?s \<lparr>pd_certificate = \<lparr>ct_renewal = rn, ct_end = d\<rparr>, pd_acknowledgements = []\<rparr>"
    by (auto simp: pending_inv_def cert_inv_def)
  have q: "quorum_inv e ?s c" if "quorum_inv e s c" for c using that by (rule quorum_inv_mono) auto
  have "rn_sequence r \<le> ll_sequence l" if "(r, t) \<in> sy_sent s" for r t
    using seq [OF that] lt started(9) by (metis order_trans less_imp_le)
  then have "leader_inv e ?s"
    using L started pend q by (auto simp: leader_inv_def ll_same_def)
  moreover have "grant_inv e ?s v r" if "grant_inv e s v r" for v r
    using that new by (force simp: grant_inv_def covered_def)
  moreover have "voter_inv e ?s v" if "voter_inv e s v" for v using that by (simp add: voter_inv_def)
  ultimately have "lease_inv e ?s" using inv by (auto simp: lease_inv_def)
  then show ?thesis using started(1) by simp
next
  case refused
  with inv_leader_keeps [OF inv] show ?thesis by auto
qed

lemma inv_ack:
  assumes inv: "lease_inv e s" and g: "(gr_voter g, gr_renewal g) \<in> sy_grants s"
    and a: "ll_acknowledge rd g (sy_leader s) = (l, res)"
  shows "lease_inv e (s\<lparr>sy_leader := l\<rparr>)"
  using a
proof (cases rule: ll_acknowledge_spec)
  case (added pd)
  have "pending_inv e s pd" using inv added(1) by (auto simp: lease_inv_def leader_inv_def)
  moreover have "gr_voter g \<in> lease_voters e"
    using inv added(3) by (simp add: lease_inv_def leader_inv_def lease_voters_def)
  ultimately have "pending_inv e s (pd\<lparr>pd_acknowledgements := List.insert (gr_voter g) (pd_acknowledgements pd)\<rparr>)"
    using g added(2) by (auto simp: pending_inv_def)
  with inv added show ?thesis
    by (auto simp: lease_inv_def leader_inv_def ll_same_def)
qed (rule inv_leader_keeps [OF inv])

lemma inv_publish:
  assumes inv: "lease_inv e s" and a: "ll_publish rd p r (sy_leader s) = (l, res)"
  shows "lease_inv e (s\<lparr>sy_leader := l\<rparr>)"
  using a
proof (cases rule: ll_publish_spec)
  case (published pd)
  have p: "pending_inv e s pd" using inv published(1) by (auto simp: lease_inv_def leader_inv_def)
  have "quorum_inv e s (pd_certificate pd)"
    unfolding quorum_inv_def
  proof (intro conjI exI [of _ "set (pd_acknowledgements pd)"])
    show "fc_quorum (en_configuration e) \<le> card (set (pd_acknowledgements pd))"
      using p published(3) inv by (simp add: pending_inv_def distinct_card lease_inv_def leader_inv_def)
  qed (use p in \<open>auto simp: pending_inv_def\<close>)
  with inv published show ?thesis
    by (auto simp: lease_inv_def leader_inv_def ll_same_def)
qed (rule inv_leader_keeps [OF inv])

lemma inv_begin:
  assumes inv: "lease_inv e s" and a: "ll_begin_read rd p d (sy_leader s) = (l, res)"
  shows "lease_inv e (s\<lparr>sy_leader := l,
      sy_tickets := (case res of Inl _ \<Rightarrow> sy_tickets s | Inr t \<Rightarrow> insert t (sy_tickets s))\<rparr>)"
proof -
  have k: "lease_inv e (s\<lparr>sy_leader := l\<rparr>)"
    using inv_leader_keeps [OF inv] ll_keeps_begin_read [of "sy_leader s" rd p d] a by simp
  have "quorum_inv e s (rt_certificate t)" if "res = Inr t" for t
    using ll_begin_read_spec [of rd p d "sy_leader s" l t] a that inv
    by (auto simp: lease_inv_def leader_inv_def)
  with k show ?thesis
    by (cases res) (auto simp: lease_inv_def leader_inv_def)
qed

text \<open>Steps of one voter.\<close>

lemma covered_voter:
  assumes "covered e s v st" "vl_fenced (sy_voter s v) \<Longrightarrow> vl_fenced w"
    "vl_hold_until (sy_voter s v) \<le> vl_hold_until w" "vl_recovery_until w = vl_recovery_until (sy_voter s v)"
    "sy_now s' = sy_now s" "sy_vclk s' v = sy_vclk s v" "sy_voter s' v = w"
  shows "covered e s' v st"
proof (cases "vl_fenced (sy_voter s v)")
  case False
  with assms(1) obtain g where g: "st \<le> g" "g \<le> sy_now s" "sy_vclk s v g + unat (en_promise e)
      \<le> max (unat (vl_hold_until (sy_voter s v))) (unat (vl_recovery_until (sy_voter s v)))"
    by (auto simp: covered_def)
  have "unat (vl_hold_until (sy_voter s v)) \<le> unat (vl_hold_until w)"
    using assms(3) by (simp add: word_le_nat_alt)
  with g assms show ?thesis unfolding covered_def by (intro disjI2 exI [of _ g]) auto
qed (use assms in \<open>simp add: covered_def\<close>)

lemma covered_other:
  "sy_now s' = sy_now s \<Longrightarrow> sy_vclk s' u = sy_vclk s u \<Longrightarrow> sy_voter s' u = sy_voter s u \<Longrightarrow>
    covered e s' u st = covered e s u st"
  by (simp add: covered_def)

lemma inv_voter_keeps:
  assumes "lease_inv e s" "v \<in> lease_voters e" "vl_keeps (sy_voter s v) w"
  shows "lease_inv e (s\<lparr>sy_voter := (sy_voter s)(v := w)\<rparr>)"
proof -
  let ?s = "s\<lparr>sy_voter := (sy_voter s)(v := w)\<rparr>"
  have c: "covered e ?s u st" if "covered e s u st" for u st
  proof (cases "u = v")
    case True
    with assms(3) covered_voter [OF that, of w ?s] show ?thesis by (simp add: vl_keeps_def)
  qed (use that in \<open>simp add: covered_def\<close>)
  have "grant_inv e ?s u r" if "grant_inv e s u r" for u r
    using that c by (auto simp: grant_inv_def)
  moreover have "voter_inv e ?s u" if "voter_inv e s u" for u
    using that assms(3) by (auto simp: voter_inv_def vl_keeps_def)
  moreover have "leader_inv e ?s" using assms(1) by (auto simp: lease_inv_def intro: leader_inv_mono)
  ultimately show ?thesis using assms(1) by (auto simp: lease_inv_def)
qed

lemma inv_promise:
  assumes inv: "lease_inv e s" and env: "env_ok e" and v: "v \<in> lease_voters e" and rd: "voter_reads s v rd"
    and sent: "rn_authority r = en_authority e \<Longrightarrow> r \<in> fst ` sy_sent s"
    and p: "vl_promise rd (sy_rterm s v) ld r (sy_voter s v) = (w, res)"
  shows "lease_inv e (s\<lparr>sy_voter := (sy_voter s)(v := w),
      sy_grants := (case res of Inl _ \<Rightarrow> sy_grants s
        | Inr g \<Rightarrow> insert (gr_voter g, gr_renewal g) (sy_grants s))\<rparr>)"
  using p
proof (cases rule: vl_promise_spec)
  case (again h)
  have "(v, r) \<in> sy_grants s" "vl_node (sy_voter s v) = v"
    using inv v again(3,4) by (auto simp: lease_inv_def voter_inv_def)
  with again inv_voter_keeps [OF inv v again(2)] show ?thesis by (simp add: insert_absorb)
next
  case (fresh h)
  have V: "voter_inv e s v" using inv v by (simp add: lease_inv_def)
  let ?s = "s\<lparr>sy_voter := (sy_voter s)(v := w), sy_grants := insert (v, r) (sy_grants s)\<rparr>"
  have node: "vl_node (sy_voter s v) = v" using V by (simp add: voter_inv_def)
  have "promise_ns (vl_timing (sy_voter s v)) = en_promise e"
    using V env timing_new_facts(2) by (auto simp: voter_inv_def env_ok_def)
  then have hold: "sy_vclk s v (sy_now s) + unat (en_promise e) \<le> unat (vl_hold_until w)"
    using fresh(3,4) rd by (simp add: truthful_def)
  have c: "covered e ?s u st" if "covered e s u st" for u st
  proof (cases "u = v")
    case True
    with fresh(5,6,11) covered_voter [OF that, of w ?s] show ?thesis by simp
  qed (use that in \<open>simp add: covered_def\<close>)
  have G: "grant_inv e ?s u q" if "grant_inv e s u q" for u q
    using that c by (auto simp: grant_inv_def)
  have new: "grant_inv e ?s v r" if "rn_authority r = en_authority e"
    unfolding grant_inv_def
  proof (intro conjI allI impI)
    fix st assume st: "(r, st) \<in> sy_sent ?s"
    then have "st \<le> sy_now s" using inv by (auto simp: lease_inv_def leader_inv_def)
    with hold show "covered e ?s v st" by (auto simp: covered_def intro!: exI [of _ "sy_now s"])
    fix t assume "(v, t) \<in> sy_voted ?s" "au_term (en_authority e) < t"
    moreover from this have "t \<le> sy_rterm s v" using inv by (simp add: lease_inv_def)
    ultimately have False using fresh(2) that by simp
    then show "\<not> in_window e st (sy_now ?s)" ..
  qed (use v sent that in auto)
  have "voter_inv e ?s u" if "voter_inv e s u" for u
    using that fresh by (auto simp: voter_inv_def)
  moreover have "leader_inv e ?s" using inv by (auto simp: lease_inv_def intro: leader_inv_mono)
  ultimately have "lease_inv e ?s" using inv G new by (auto simp: lease_inv_def)
  with fresh(1) node show ?thesis by simp
next
  case (refused x)
  with inv_voter_keeps [OF inv v refused(2)] show ?thesis by simp
qed

lemma may_vote_spec:
  assumes "vl_may_vote rd t v = (w, Inr ())"
  shows "\<not> vl_fenced v" "cr_domain rd = cr_domain (vl_clock v)" "vl_hold_until v \<le> cr_nanos rd"
    "vl_recovery_until v \<le> cr_nanos rd" "vl_keeps v w"
proof -
  from assms obtain v1 n where o: "vl_observe rd t v = (v1, Inr n)"
    and f: "\<not> n < vl_recovery_until v1" "\<not> n < vl_hold_until v1"
    by (auto simp: vl_may_vote_def act_bind_Inr split: if_splits)
  from vl_observe_Inr [OF o] f show "\<not> vl_fenced v" "cr_domain rd = cr_domain (vl_clock v)"
    "vl_hold_until v \<le> cr_nanos rd" "vl_recovery_until v \<le> cr_nanos rd"
    by (auto simp: vl_keeps_def)
  show "vl_keeps v w" using vl_keeps_may_vote [of v rd t] assms by simp
qed

lemma vote_outside_window:
  assumes "env_ok e" "voter_inv e s v" "voter_reads s v rd" "vl_may_vote rd t (sy_voter s v) = (w, Inr ())"
    and c: "covered e s v st"
  shows "\<not> in_window e st (sy_now s)"
proof
  assume win: "in_window e st (sy_now s)"
  note mv = may_vote_spec [OF assms(4)]
  from c mv(1) obtain g where g: "st \<le> g" "g \<le> sy_now s" "sy_vclk s v g + unat (en_promise e)
      \<le> max (unat (vl_hold_until (sy_voter s v))) (unat (vl_recovery_until (sy_voter s v)))"
    by (auto simp: covered_def)
  have "unat (cr_nanos rd) = sy_vclk s v (sy_now s)" using assms(3) mv(2) by (simp add: truthful_def)
  with mv(3,4) g(3) have "sy_vclk s v g + unat (en_promise e) \<le> sy_vclk s v (sy_now s)"
    by (simp add: word_le_nat_alt)
  moreover have "sy_vclk s v (sy_now s) < sy_vclk s v g + unat (en_promise e)"
    using assms(1,2) g win by (intro promise_covers_window [of e _ st]) (auto simp: voter_inv_def)
  ultimately show False by simp
qed

lemma inv_vote:
  assumes inv: "lease_inv e s" and env: "env_ok e" and v: "v \<in> lease_voters e" and rd: "voter_reads s v rd"
    and t: "sy_rterm s v \<le> t" and p: "vl_may_vote rd (sy_rterm s v) (sy_voter s v) = (w, Inr ())"
  shows "lease_inv e (s\<lparr>sy_voter := (sy_voter s)(v := w), sy_rterm := (sy_rterm s)(v := t),
      sy_voted := insert (v, t) (sy_voted s)\<rparr>)" (is "lease_inv e ?s")
proof -
  let ?s1 = "s\<lparr>sy_voter := (sy_voter s)(v := w)\<rparr>"
  have V: "voter_inv e s v" using inv v by (simp add: lease_inv_def)
  have inv1: "lease_inv e ?s1" using inv_voter_keeps [OF inv v may_vote_spec(5) [OF p]] .
  have "grant_inv e ?s u r" if "grant_inv e ?s1 u r" "grant_inv e s u r" for u r
    using that vote_outside_window [OF env V rd p] by (auto simp: grant_inv_def covered_def)
  moreover have "voter_inv e ?s u" if "voter_inv e ?s1 u" for u using that by (simp add: voter_inv_def)
  moreover have "leader_inv e ?s" using inv by (auto simp: lease_inv_def intro: leader_inv_mono)
  moreover have "q \<le> sy_rterm ?s u" if "(u, q) \<in> sy_voted ?s" for u q
    using that inv t by (auto simp: lease_inv_def intro: order_trans [of q "sy_rterm s v" t])
  ultimately show ?thesis using inv inv1 by (auto simp: lease_inv_def)
qed

lemma voter_recover_spec:
  assumes "recovered e now v clk t w" "env_ok e"
  shows "clock_ok e clk" "vl_node w = v" "vl_timing w = en_timing e" "vl_last_grant w = None"
    "clk now + unat (en_promise e) \<le> unat (vl_recovery_until w)"
proof -
  from assms(1) obtain rd where rd: "unat (cr_nanos rd) = clk now"
    and v: "voter_recover v (au_group (en_authority e)) (en_configuration e) (en_timing e) rd t = Inr w"
    by (auto simp: recovered_def)
  from v obtain u where u: "checked_add (cr_nanos rd) (recovery_ns (en_timing e)) = Some u"
    by (auto simp: voter_recover_def split: if_splits option.splits)
  with v have w: "vl_recovery_until w = u"
    by (auto simp: voter_recover_def bind_res_Inr_iff split: if_splits)
  have "unat (en_promise e) \<le> unat (recovery_ns (en_timing e))"
    using assms(2) timing_new_facts(4) by (auto simp: env_ok_def)
  with rd w checked_add_SomeD [OF u]
  show "clk now + unat (en_promise e) \<le> unat (vl_recovery_until w)" by simp
qed (use assms in \<open>auto simp: recovered_def voter_recover_def bind_res_Inr_iff split: if_splits option.splits\<close>)

lemma inv_restart:
  assumes inv: "lease_inv e s" and env: "env_ok e" and v: "v \<in> lease_voters e"
    and r: "recovered e (sy_now s) v clk (sy_rterm s v) w"
  shows "lease_inv e (s\<lparr>sy_voter := (sy_voter s)(v := w), sy_vclk := (sy_vclk s)(v := clk)\<rparr>)"
    (is "lease_inv e ?s")
proof -
  note w = voter_recover_spec [OF r env]
  have c: "covered e ?s u st" if "covered e s u st" "st \<le> sy_now s" for u st
  proof (cases "u = v")
    case True
    with that w(5) show ?thesis by (auto simp: covered_def intro!: exI [of _ "sy_now s"])
  qed (use that in \<open>simp add: covered_def\<close>)
  have "st \<le> sy_now s" if "(q, st) \<in> sy_sent s" for q st
    using inv that by (auto simp: lease_inv_def leader_inv_def)
  with c have "grant_inv e ?s u q" if "grant_inv e s u q" for u q
    using that by (auto simp: grant_inv_def)
  moreover have "voter_inv e ?s u" if "voter_inv e s u" for u
    using that w by (auto simp: voter_inv_def)
  moreover have "leader_inv e ?s" using inv by (auto simp: lease_inv_def intro: leader_inv_mono)
  ultimately show ?thesis using inv by (auto simp: lease_inv_def)
qed

lemma inv_raise:
  assumes inv: "lease_inv e s" and t: "sy_rterm s v \<le> t"
  shows "lease_inv e (s\<lparr>sy_rterm := (sy_rterm s)(v := t)\<rparr>)" (is "lease_inv e ?s")
proof -
  have "grant_inv e ?s u q = grant_inv e s u q" "voter_inv e ?s u = voter_inv e s u" for u q
    by (simp_all add: lease_inv_defs)
  moreover have "leader_inv e ?s" using inv by (auto simp: lease_inv_def intro: leader_inv_mono)
  moreover have "q \<le> sy_rterm ?s u" if "(u, q) \<in> sy_voted s" for u q
    using that inv t by (auto simp: lease_inv_def intro: order_trans [of q "sy_rterm s v" t])
  ultimately show ?thesis using inv by (auto simp: lease_inv_def)
qed

lemma inv_tick:
  assumes inv: "lease_inv e s" and t: "sy_now s \<le> t"
  shows "lease_inv e (s\<lparr>sy_now := t\<rparr>)" (is "lease_inv e ?s")
proof -
  have "covered e ?s u st" if "covered e s u st" for u st
    using that t by (auto simp: covered_def intro: order_trans)
  then have "grant_inv e ?s u q" if "grant_inv e s u q" for u q
    using that in_window_mono [OF _ t] by (auto simp: grant_inv_def)
  moreover have "voter_inv e ?s u = voter_inv e s u" for u by (simp add: voter_inv_def)
  moreover have "leader_inv e ?s" using inv t by (auto simp: lease_inv_def intro: leader_inv_mono)
  ultimately show ?thesis using inv by (auto simp: lease_inv_def)
qed

lemma inv_step:
  assumes "env_ok e" "lease_inv e s" "lease_step e s s'"
  shows "lease_inv e s'"
  using assms(3,2)
proof (cases rule: lease_step.cases)
  case (leader_rearm rd p l res)
  with inv_leader_keeps [OF assms(2)] ll_keeps_rearm [of "sy_leader s" rd p] show ?thesis by simp
next
  case (leader_validate rd p r l res)
  with inv_leader_keeps [OF assms(2)] ll_keeps_validate [of "sy_leader s" rd p r] show ?thesis by simp
next
  case (leader_finish rd t p i l res)
  with inv_leader_keeps [OF assms(2)] ll_keeps_finish_read [of "sy_leader s" rd p t i] show ?thesis by simp
next
  case (voter_refuse v rd w x)
  with inv_voter_keeps [OF assms(2)] vl_keeps_may_vote [of "sy_voter s v" rd "sy_rterm s v"] show ?thesis by simp
next
  case (voter_promise v rd r ld w res)
  show ?thesis unfolding voter_promise(1) by (rule inv_promise [OF assms(2,1) voter_promise(2-5)])
qed (use assms inv_leader_keeps ll_keeps_fence ll_keeps_revoke inv_tick inv_start inv_ack inv_publish
      inv_begin inv_raise inv_voter_keeps vl_keeps_fence inv_vote inv_restart in \<open>simp; fail\<close>)+

lemma inv_init:
  assumes "env_ok e" "lease_init e s"
  shows "lease_inv e s"
proof -
  from assms(2) obtain rd where "leader_new (en_configuration e) (en_authority e) (en_timing e) rd = Inr (sy_leader s)"
    by (auto simp: lease_init_def)
  then obtain c where "\<lparr>ll_configuration = en_configuration e, ll_authority = en_authority e,
      ll_timing = en_timing e, ll_clock = c, ll_mode = LeaderMode, ll_generation = 0, ll_sequence = 0,
      ll_known = 0, ll_pending = None, ll_active = None\<rparr> = sy_leader s"
    by (auto simp: leader_new_def bind_res_Inr_iff split: if_splits)
  from this [symmetric] have "leader_inv e s" using assms(2) by (simp add: leader_inv_def lease_init_def)
  moreover have "voter_inv e s v" if "v \<in> lease_voters e" for v
  proof -
    have "recovered e (sy_now s) v (sy_vclk s v) (sy_rterm s v) (sy_voter s v)"
      using assms(2) that by (simp add: lease_init_def)
    from voter_recover_spec [OF this assms(1)] show ?thesis by (simp add: voter_inv_def)
  qed
  ultimately show ?thesis using assms(2) by (simp add: lease_inv_def lease_init_def)
qed

lemma inv_reachable:
  assumes "env_ok e" "lease_reachable e s"
  shows "lease_inv e s"
proof -
  from assms(2) obtain s0 where "lease_init e s0" "(lease_step e)\<^sup>*\<^sup>* s0 s" by (auto simp: lease_reachable_def)
  from this(2) inv_init [OF assms(1) this(1)] show ?thesis
    by (induction rule: rtranclp_induct) (auto intro: inv_step [OF assms(1)])
qed

section \<open>Safety\<close>

definition elected :: "lease_env \<Rightarrow> lease_sys \<Rightarrow> u64 \<Rightarrow> bool" where
  "elected e s t \<longleftrightarrow> (\<exists>Q \<subseteq> lease_voters e. fc_quorum (en_configuration e) \<le> card Q \<and> (\<forall>v\<in>Q. (v, t) \<in> sy_voted s))"

lemma quorums_meet:
  assumes "Q \<subseteq> set vs" "R \<subseteq> set vs" "length vs div 2 + 1 \<le> card Q" "length vs div 2 + 1 \<le> card R"
  shows "Q \<inter> R \<noteq> {}"
proof
  assume "Q \<inter> R = {}"
  moreover have "finite Q" "finite R" using assms finite_subset by blast+
  ultimately have "card Q + card R = card (Q \<union> R)" by (simp add: card_Un_disjoint)
  also have "\<dots> \<le> length vs" using assms(1,2) card_length [of vs] card_mono [of "set vs" "Q \<union> R"] by simp
  finally show False using assms(3,4) by linarith
qed

text \<open>
  C1. Lease safety: in every reachable state of the protocol, with drifting clocks, lost and
  delayed messages, voter crashes and restarts, if the leader finishes a read under a lease
  ticket then no later term has a quorum of votes, and the retained view covers the commit
  index captured when the read began.
\<close>

theorem lease_read_excludes_election:
  assumes env: "env_ok e" and r: "lease_reachable e s" and rd: "leader_reads e s rd"
    and t: "t \<in> sy_tickets s" and f: "ll_finish_read rd p t i (sy_leader s) = (l, Inr d)"
    and later: "au_term (en_authority e) < term"
  shows "\<not> elected e s term \<and> rt_committed t \<le> rd_view_index d"
proof -
  have inv: "lease_inv e s" using inv_reachable [OF env r] .
  let ?c = "rt_certificate t"
  have "quorum_inv e s ?c" using inv t by (auto simp: lease_inv_def leader_inv_def)
  then obtain Q st where Q: "Q \<subseteq> lease_voters e" "fc_quorum (en_configuration e) \<le> card Q"
    "\<forall>v\<in>Q. (v, ct_renewal ?c) \<in> sy_grants s" and st: "(ct_renewal ?c, st) \<in> sy_sent s"
    and fin: "unat (ct_end ?c) = en_clock e st + unat (leader_ns (en_timing e))"
    by (auto simp: quorum_inv_def cert_inv_def)
  have sent: "st \<le> sy_now s" "rn_authority (ct_renewal ?c) = en_authority e"
    using inv st by (auto simp: lease_inv_def leader_inv_def)
  note fs = ll_finish_read_spec [OF f]
  have "en_clock e (sy_now s) < unat (ct_end ?c)"
    using fs rd by (simp add: truthful_def word_less_nat_alt)
  then have win: "in_window e st (sy_now s)" using window_of_clock [OF env sent(1)] fin by simp
  have "\<not> elected e s term"
  proof
    assume "elected e s term"
    then obtain R where "R \<subseteq> lease_voters e" "fc_quorum (en_configuration e) \<le> card R"
      "\<forall>v\<in>R. (v, term) \<in> sy_voted s" by (auto simp: elected_def)
    moreover from this Q have "Q \<inter> R \<noteq> {}"
      by (intro quorums_meet [of _ "fc_voters (en_configuration e)"]) (auto simp: lease_voters_def fc_quorum_def)
    ultimately obtain v where "(v, ct_renewal ?c) \<in> sy_grants s" "(v, term) \<in> sy_voted s"
      using Q(3) by blast
    moreover from this have "grant_inv e s v (ct_renewal ?c)" using inv sent by (auto simp: lease_inv_def)
    ultimately show False using st later win by (auto simp: grant_inv_def)
  qed
  with fs show ?thesis by simp
qed

text \<open>A one-voter execution that reaches a finished lease read.\<close>

definition lw_cfg :: fixed_configuration where
  "lw_cfg = \<lparr>fc_id = 1, fc_voters = [1]\<rparr>"

definition lw_auth :: authority where
  "lw_auth = \<lparr>au_group = 1, au_configuration = 1, au_leader = 1, au_term = 1, au_incarnation = 1\<rparr>"

definition lw_timing :: timing where
  "lw_timing = \<lparr>promise_ns = 10, leader_ns = 10, recovery_ns = 10\<rparr>"

definition lw_env :: lease_env where
  "lw_env = \<lparr>en_authority = lw_auth, en_configuration = lw_cfg, en_timing = lw_timing, en_promise = 10,
     en_drift = 0, en_margin = 0, en_error = 0, en_clock = (\<lambda>t. t)\<rparr>"

definition lw_reading :: "u64 \<Rightarrow> clock_reading" where
  "lw_reading n = \<lparr>cr_domain = 1, cr_nanos = n\<rparr>"

definition lw_progress :: progress where
  "lw_progress = \<lparr>pg_configuration = 1, pg_leader = 1, pg_term = 1, pg_committed = 5, pg_committed_term = 1\<rparr>"

definition lw_leader :: leader_lease where
  "lw_leader = \<lparr>ll_configuration = lw_cfg, ll_authority = lw_auth, ll_timing = lw_timing,
     ll_clock = lw_reading 0, ll_mode = LeaderMode, ll_generation = 0, ll_sequence = 0, ll_known = 0,
     ll_pending = None, ll_active = None\<rparr>"

definition lw_voter :: voter_lease where
  "lw_voter = \<lparr>vl_node = 1, vl_group = 1, vl_configuration = lw_cfg, vl_timing = lw_timing,
     vl_clock = lw_reading 0, vl_term = 1, vl_hold_until = 0, vl_recovery_until = 10,
     vl_last_grant = None, vl_fenced = False\<rparr>"

definition lw_renewal :: renewal where
  "lw_renewal = \<lparr>rn_authority = lw_auth, rn_generation = 0, rn_sequence = 1, rn_promise_ns = 10\<rparr>"

definition lw_cert :: certificate where
  "lw_cert = \<lparr>ct_renewal = lw_renewal, ct_end = 20\<rparr>"

definition lw_ticket :: read_ticket where
  "lw_ticket = \<lparr>rt_certificate = lw_cert, rt_clock_domain = 1, rt_committed = 5, rt_deadline = 100\<rparr>"

definition lw_s0 :: lease_sys where
  "lw_s0 = \<lparr>sy_now = 0, sy_leader = lw_leader, sy_voter = (\<lambda>_. lw_voter), sy_vclk = (\<lambda>_ t. t),
     sy_rterm = (\<lambda>_. 1), sy_sent = {}, sy_grants = {}, sy_tickets = {}, sy_voted = {}\<rparr>"

definition lw_s1 :: lease_sys where
  "lw_s1 = lw_s0\<lparr>sy_now := 10\<rparr>"

definition lw_s2 :: lease_sys where
  "lw_s2 = lw_s1\<lparr>sy_leader := lw_leader\<lparr>ll_clock := lw_reading 10, ll_known := 5, ll_sequence := 1,
       ll_pending := Some \<lparr>pd_certificate = lw_cert, pd_acknowledgements = []\<rparr>\<rparr>,
     sy_sent := {(lw_renewal, 10)}\<rparr>"

definition lw_s3 :: lease_sys where
  "lw_s3 = lw_s2\<lparr>sy_voter := (\<lambda>_. lw_voter)(1 := lw_voter\<lparr>vl_clock := lw_reading 10, vl_hold_until := 20,
       vl_last_grant := Some \<lparr>hg_renewal = lw_renewal, hg_end = 20\<rparr>\<rparr>),
     sy_grants := {(1, lw_renewal)}\<rparr>"

definition lw_s4 :: lease_sys where
  "lw_s4 = lw_s3\<lparr>sy_leader := lw_leader\<lparr>ll_clock := lw_reading 10, ll_known := 5, ll_sequence := 1,
       ll_pending := Some \<lparr>pd_certificate = lw_cert, pd_acknowledgements = [1]\<rparr>\<rparr>\<rparr>"

definition lw_leader5 :: leader_lease where
  "lw_leader5 = lw_leader\<lparr>ll_clock := lw_reading 10, ll_known := 5, ll_sequence := 1,
       ll_pending := None, ll_active := Some lw_cert\<rparr>"

definition lw_s5 :: lease_sys where
  "lw_s5 = lw_s4\<lparr>sy_leader := lw_leader5\<rparr>"

definition lw_s6 :: lease_sys where
  "lw_s6 = lw_s5\<lparr>sy_leader := lw_leader5, sy_tickets := {lw_ticket}\<rparr>"

lemmas lw_data = lw_cfg_def lw_auth_def lw_timing_def lw_env_def lw_reading_def lw_progress_def
  lw_leader_def lw_voter_def lw_renewal_def lw_cert_def lw_ticket_def lw_leader5_def
  lw_s0_def lw_s1_def lw_s2_def lw_s3_def lw_s4_def lw_s5_def lw_s6_def

lemmas lease_op_defs = act_bind_def ll_observe_def ll_progress_def ll_live_def fence_observe_def
  vl_observe_def fc_contains_def fc_quorum_def truthful_def checked_add_def Let_def

lemma lw_clock_ok: "clock_ok lw_env (\<lambda>t. t)"
  by (auto simp: clock_ok_def lw_data RATE_SCALE_def diff_mult_distrib2)

lemma lw_env_ok: "env_ok lw_env"
  unfolding env_ok_def
proof (intro conjI exI)
  show "timing_new (en_promise lw_env) (en_drift lw_env) (en_margin lw_env) = Inr (en_timing lw_env)"
    by (simp add: lw_data timing_new_def RATE_SCALE_def)
  show "configuration_new 1 [1] = Inr (en_configuration lw_env)"
    by (simp add: lw_data configuration_new_def MAX_VOTERS_def)
  show "clock_ok lw_env (en_clock lw_env)"
    using lw_clock_ok by (simp add: lw_env_def)
qed (simp add: lw_data)

lemma lw_init: "lease_init lw_env lw_s0"
  unfolding lease_init_def
proof (intro conjI exI ballI)
  show "unat (cr_nanos (lw_reading 0)) = en_clock lw_env (sy_now lw_s0)" by (simp add: lw_data)
  show "leader_new (en_configuration lw_env) (en_authority lw_env) (en_timing lw_env) (lw_reading 0)
      = Inr (sy_leader lw_s0)"
    by (simp add: lw_data leader_new_def fc_contains_def fence_new_def)
  fix v assume "v \<in> lease_voters lw_env"
  then have "v = 1" by (simp add: lease_voters_def lw_data)
  then show "recovered lw_env (sy_now lw_s0) v (sy_vclk lw_s0 v) (sy_rterm lw_s0 v) (sy_voter lw_s0 v)"
    unfolding recovered_def
    by (intro conjI exI [of _ "lw_reading 0"], simp add: lw_s0_def lw_clock_ok)
      (simp_all add: lw_data voter_recover_def fc_contains_def fence_new_def checked_add_def)
qed (simp_all add: lw_s0_def)

lemma lw_finish: "ll_finish_read (lw_reading 10) lw_progress lw_ticket 5 (sy_leader lw_s6)
   = (lw_leader5, Inr \<lparr>rd_committed = 5, rd_view_index = 5\<rparr>)"
  by (simp add: lw_data ll_finish_read_def lease_op_defs)

lemma lw_steps:
  "lease_step lw_env lw_s0 lw_s1" "lease_step lw_env lw_s1 lw_s2" "lease_step lw_env lw_s2 lw_s3"
  "lease_step lw_env lw_s3 lw_s4" "lease_step lw_env lw_s4 lw_s5" "lease_step lw_env lw_s5 lw_s6"
proof -
  show "lease_step lw_env lw_s0 lw_s1"
    unfolding lw_s1_def by (rule tick) (simp add: lw_s0_def)
  have "ll_start (lw_reading 10) lw_progress (sy_leader lw_s1) = (sy_leader lw_s2, Inr lw_renewal)"
    by (simp add: lw_data ll_start_def lease_op_defs)
  then show "lease_step lw_env lw_s1 lw_s2"
    using leader_start [of lw_env lw_s1 "lw_reading 10" lw_progress "sy_leader lw_s2" "Inr lw_renewal"]
    by (simp add: lw_data truthful_def)
  have "vl_promise (lw_reading 10) (sy_rterm lw_s2 1) 1 lw_renewal (sy_voter lw_s2 1)
      = (sy_voter lw_s3 1, Inr \<lparr>gr_renewal = lw_renewal, gr_voter = 1\<rparr>)"
    by (simp add: lw_data vl_promise_def renewal_foreign_def last_grant_check_def lease_op_defs max_def)
  then show "lease_step lw_env lw_s2 lw_s3"
    using voter_promise [of 1 lw_env lw_s2 "lw_reading 10" lw_renewal 1 "sy_voter lw_s3 1"
        "Inr \<lparr>gr_renewal = lw_renewal, gr_voter = 1\<rparr>"]
    by (simp add: lw_data truthful_def lease_voters_def)
  have "ll_acknowledge (lw_reading 10) \<lparr>gr_renewal = lw_renewal, gr_voter = 1\<rparr> (sy_leader lw_s3)
      = (sy_leader lw_s4, Inr True)"
    by (simp add: lw_data ll_acknowledge_def lease_op_defs)
  then show "lease_step lw_env lw_s3 lw_s4"
    using leader_ack [of lw_env lw_s3 "lw_reading 10" "\<lparr>gr_renewal = lw_renewal, gr_voter = 1\<rparr>"
        "sy_leader lw_s4" "Inr True"]
    by (simp add: lw_data truthful_def)
  have "ll_publish (lw_reading 10) lw_progress lw_renewal (sy_leader lw_s4) = (lw_leader5, Inr ())"
    by (simp add: lw_data ll_publish_def lease_op_defs)
  then show "lease_step lw_env lw_s4 lw_s5"
    using leader_publish [of lw_env lw_s4 "lw_reading 10" lw_progress lw_renewal lw_leader5 "Inr ()"]
    by (simp add: lw_data truthful_def)
  have "ll_begin_read (lw_reading 10) lw_progress 100 (sy_leader lw_s5) = (lw_leader5, Inr lw_ticket)"
    by (simp add: lw_data ll_begin_read_def lease_op_defs)
  then show "lease_step lw_env lw_s5 lw_s6"
    using leader_begin [of lw_env lw_s5 "lw_reading 10" lw_progress 100 lw_leader5 "Inr lw_ticket"]
    by (simp add: lw_data truthful_def)
qed

lemma lw_reachable: "lease_reachable lw_env lw_s6"
  unfolding lease_reachable_def
  using lw_init lw_steps
  by (meson converse_rtranclp_into_rtranclp rtranclp.rtrancl_refl)

theorem lease_read_excludes_election_witness:
  "lease_reachable lw_env lw_s6 \<and> lw_ticket \<in> sy_tickets lw_s6 \<and> \<not> elected lw_env lw_s6 2"
proof -
  have "leader_reads lw_env lw_s6 (lw_reading 10)" by (simp add: lw_data truthful_def)
  moreover have t: "lw_ticket \<in> sy_tickets lw_s6" by (simp add: lw_s6_def)
  moreover have "au_term (en_authority lw_env) < 2" by (simp add: lw_env_def lw_auth_def)
  ultimately have "\<not> elected lw_env lw_s6 2"
    using lease_read_excludes_election [OF lw_env_ok lw_reachable _ _ lw_finish] by blast
  with t lw_reachable show ?thesis by simp
qed

text \<open>
  C28. A fenced leader is dead for good: every operation refuses with \<open>Fenced\<close> and leaves it
  exactly as it was, and revoking it changes nothing.
\<close>

theorem fenced_leader_refuses:
  assumes "ll_mode l = FencedMode"
  shows "ll_start now p l = (l, Inl Fenced) \<and> ll_acknowledge now g l = (l, Inl Fenced)
    \<and> ll_publish now p r l = (l, Inl Fenced) \<and> ll_validate_renewal now p r l = (l, Inl Fenced)
    \<and> ll_begin_read now p d l = (l, Inl Fenced) \<and> ll_finish_read now p t i l = (l, Inl Fenced)
    \<and> ll_rearm now p l = (l, Inl Fenced) \<and> ll_revoke l = l"
proof -
  have "ll_observe now l = (l, Inl Fenced)" using assms by (simp add: ll_observe_def)
  then show ?thesis using assms
    by (simp add: ll_start_def ll_acknowledge_def ll_publish_def ll_validate_renewal_def ll_begin_read_def
        ll_finish_read_def ll_rearm_def ll_revoke_def act_bind_def)
qed

theorem fenced_leader_refuses_witness:
  "ll_begin_read (lw_reading 10) lw_progress 100 (ll_fence lw_leader5) = (ll_fence lw_leader5, Inl Fenced)"
  using fenced_leader_refuses [of "ll_fence lw_leader5"] by (simp add: ll_fence_def)

text \<open>
  C27. Lease timing is conservative in both directions: with \<open>a = 10^9 - drift\<close> and
  \<open>b = 10^9 + drift\<close>, the leader's window plus the margin is at most \<open>promise * a / b\<close> and is
  not empty, and the recovery quarantine less the margin is at least \<open>promise * b / a\<close>.
\<close>

theorem timing_bounds:
  assumes "timing_new p d m = Inr t"
  shows "0 < leader_ns t \<and> unat (leader_ns t) + unat m \<le> unat p \<and> unat p + unat m \<le> unat (recovery_ns t)
    \<and> (RATE_SCALE + unat d) * (unat (leader_ns t) + unat m) \<le> unat p * (RATE_SCALE - unat d)
    \<and> unat p * (RATE_SCALE + unat d) \<le> (unat (recovery_ns t) - unat m) * (RATE_SCALE - unat d)"
proof -
  let ?a = "RATE_SCALE - unat d" and ?b = "RATE_SCALE + unat d"
  let ?q = "unat p * ?a div ?b" and ?r = "(unat p * ?b + ?a - 1) div ?a"
  from assms have d: "unat d < RATE_SCALE" and q: "unat m \<le> ?q" "?q - unat m \<noteq> 0" "?q - unat m < 2 ^ 64"
    and r: "?r + unat m < 2 ^ 64"
    and t: "t = \<lparr>promise_ns = p, leader_ns = of_nat (?q - unat m), recovery_ns = of_nat (?r + unat m)\<rparr>"
    by (auto simp: timing_new_def Let_def not_le not_less split: if_splits)
  have lead: "unat (leader_ns t) = ?q - unat m"
    unfolding t timing.select_convs by (rule unat_of_nat_u64 [OF q(3)])
  have rec: "unat (recovery_ns t) = ?r + unat m"
    unfolding t timing.select_convs by (rule unat_of_nat_u64 [OF r])
  have "unat p * ?b \<le> ?r * ?a"
  proof -
    have "unat p * ?b + ?a - 1 = ?r * ?a + (unat p * ?b + ?a - 1) mod ?a"
      by (rule div_mult_mod_eq [symmetric])
    moreover have "(unat p * ?b + ?a - 1) mod ?a < ?a" using d by simp
    ultimately show ?thesis by linarith
  qed
  moreover from this d have "unat p * ?a \<le> ?r * ?a"
    by (meson diff_le_self le_add1 mult_le_mono2 order_trans)
  moreover have "?q \<le> unat p"
  proof -
    have "unat p * ?a div ?b \<le> unat p * ?b div ?b" by (intro div_le_mono mult_le_mono2) simp
    then show ?thesis using d by simp
  qed
  moreover have "0 < leader_ns t" using lead q(2) by (simp add: word_less_nat_alt)
  moreover have "?b * ?q \<le> unat p * ?a" by (rule times_div_less_eq_dividend)
  ultimately show ?thesis using lead rec q(1) d by simp
qed

theorem timing_bounds_witness:
  "unat (leader_ns lw_timing) + unat (0 :: u64) \<le> unat (10 :: u64)"
proof -
  have "timing_new 10 0 0 = Inr lw_timing"
    by (simp add: lw_data timing_new_def RATE_SCALE_def)
  from timing_bounds [OF this] show ?thesis by simp
qed

end
