(* ===== verification/KeyCodec.thy ===== *)
theory KeyCodec
  imports Common
begin

text \<open>
  The multi-tenant physical key encoding of \<open>crates/common/src/codec.rs\<close>: every stored key
  is \<open>mode_byte, keyspace_id (3 bytes, big-endian), user_key\<close>. Proved here: the encoding
  and the decoding are inverse, byte order is the order of (keyspace, user key), an id that
  does not fit three bytes is refused, and the range of a keyspace holds exactly the
  decodable keys of that keyspace.
\<close>

unbundle bit_operations_syntax

section \<open>The codec\<close>

datatype key_mode = Raw | System

fun as_byte :: "key_mode \<Rightarrow> byte" where
  "as_byte Raw = 114"
| "as_byte System = 115"

definition from_byte :: "byte \<Rightarrow> key_mode result" where
  "from_byte b = (if b = 114 then Inr Raw else if b = 115 then Inr System else Inl (InvalidKeyMode b))"

definition KEY_PREFIX_LEN :: nat where
  "KEY_PREFIX_LEN = 4"

definition validate_keyspace_id :: "keyspace_id \<Rightarrow> unit result" where
  "validate_keyspace_id ks = (if ks > KEYSPACE_MAX then Inl (KeyspaceIdOutOfRange ks) else Inr ())"

definition encode_key :: "key_mode \<Rightarrow> keyspace_id \<Rightarrow> bytes \<Rightarrow> bytes result" where
  "encode_key mode ks user_key =
     bind_res (validate_keyspace_id ks) (\<lambda>_.
       Inr ([as_byte mode,
             ucast (drop_bit 16 ks AND 0xFF),
             ucast (drop_bit 8 ks AND 0xFF),
             ucast (ks AND 0xFF)] @ user_key))"

definition keyspace_range :: "key_mode \<Rightarrow> keyspace_id \<Rightarrow> (bytes \<times> bytes) result" where
  "keyspace_range mode ks =
     bind_res (encode_key mode ks []) (\<lambda>start.
     bind_res (if ks = KEYSPACE_MAX then Inr [saturating_add (as_byte mode) 1]
               else encode_key mode (ks + 1) [])
       (\<lambda>end'. Inr (start, end')))"

record decoded_key =
  dk_mode :: key_mode
  dk_keyspace :: keyspace_id
  dk_user_key :: bytes

definition decode_key :: "bytes \<Rightarrow> decoded_key result" where
  "decode_key raw =
     (case raw of
        b0 # b1 # b2 # b3 # user_key \<Rightarrow>
          bind_res (from_byte b0) (\<lambda>mode.
            Inr \<lparr>dk_mode = mode,
                 dk_keyspace = push_bit 16 (ucast b1) OR push_bit 8 (ucast b2) OR ucast b3,
                 dk_user_key = user_key\<rparr>)
      | _ \<Rightarrow> Inl (MalformedKey ''length < prefix length''))"

definition keyspace_of :: "bytes \<Rightarrow> keyspace_id result" where
  "keyspace_of raw = bind_res (decode_key raw) (\<lambda>d. Inr (dk_keyspace d))"

section \<open>The three id bytes\<close>

definition id_bytes :: "keyspace_id \<Rightarrow> bytes" where
  "id_bytes ks = [ucast (drop_bit 16 ks AND 0xFF), ucast (drop_bit 8 ks AND 0xFF), ucast (ks AND 0xFF)]"

lemma length_id_bytes [simp]: "length (id_bytes ks) = 3"
  by (simp add: id_bytes_def)

lemma and_0xFF: "(w :: u32) AND 0xFF = take_bit 8 w"
  by (simp add: take_bit_eq_mask mask_eq_exp_minus_1)

lemma low_byte_of_nat: "ucast ((w :: u32) AND 0xFF) = (of_nat (unat w) :: byte)"
proof -
  have "unat (ucast (take_bit 8 w) :: byte) = take_bit 8 (take_bit 8 (unat w))"
    by (simp only: unsigned_ucast_eq unsigned_take_bit_eq) simp
  then have "unat (ucast (take_bit 8 w) :: byte) = unat w mod 256"
    by (simp add: take_bit_eq_mod)
  then show ?thesis
    by (simp only: and_0xFF word_unat_eq_iff unat_of_nat_byte)
qed

lemma id_bytes_be: "id_bytes ks = be_of_nat 3 (unat ks)"
proof -
  have [simp]: "take_bit 32 (unat ks) = unat ks"
    using unat_lt2p [of ks] by (simp add: take_bit_nat_eq_self_iff)
  have "unat (drop_bit 16 ks) = unat ks div 256 div 256"
    by (simp only: unsigned_drop_bit_eq) (simp add: drop_bit_eq_div div_mult2_eq [symmetric])
  moreover have "unat (drop_bit 8 ks) = unat ks div 256"
    by (simp only: unsigned_drop_bit_eq) (simp add: drop_bit_eq_div)
  ultimately show ?thesis
    by (simp only: id_bytes_def low_byte_of_nat numeral_3_eq_3 be_of_nat.simps append.simps)
qed

lemma nat_of_id_bytes: "ks \<le> KEYSPACE_MAX \<Longrightarrow> nat_of_be (id_bytes ks) = unat ks"
  by (simp add: id_bytes_be nat_of_be_of_nat word_le_nat_alt)

lemma id_bytes_less_iff:
  "a \<le> KEYSPACE_MAX \<Longrightarrow> b \<le> KEYSPACE_MAX \<Longrightarrow> id_bytes a < id_bytes b \<longleftrightarrow> a < b"
  by (simp add: be_bytes_less_iff nat_of_id_bytes word_less_nat_alt)

lemma id_bytes_le_iff:
  "a \<le> KEYSPACE_MAX \<Longrightarrow> b \<le> KEYSPACE_MAX \<Longrightarrow> id_bytes a \<le> id_bytes b \<longleftrightarrow> a \<le> b"
  by (simp add: id_bytes_less_iff not_less [symmetric])

lemma id_bytes_inject:
  "a \<le> KEYSPACE_MAX \<Longrightarrow> b \<le> KEYSPACE_MAX \<Longrightarrow> id_bytes a = id_bytes b \<longleftrightarrow> a = b"
  using nat_of_id_bytes word_unat_eq_iff by metis

lemma id_of_bytes:
  fixes b1 b2 b3 :: byte
  defines "w \<equiv> push_bit 16 (ucast b1) OR push_bit 8 (ucast b2) OR ucast b3 :: u32"
  shows "id_bytes w = [b1, b2, b3]" and "w \<le> KEYSPACE_MAX"
proof -
  have bl: "bit (b :: byte) n \<Longrightarrow> n < 8" for b n
    using bit_imp_le_length [of b n] by simp
  have nb: "\<not> bit (b :: byte) (8 + n)" "\<not> bit (b :: byte) (16 + n)" for b n
    using bl [of b "8 + n"] bl [of b "16 + n"] by auto
  show "id_bytes w = [b1, b2, b3]"
    unfolding id_bytes_def w_def and_0xFF
    by (auto intro!: bit_word_eqI simp: bit_simps nb)
  have "take_bit 24 w = w"
  proof (rule bit_word_eqI)
    fix n assume "n < LENGTH(32)"
    have "n < 24" if "bit w n"
      using that bl [of b1 "n - 16"] bl [of b2 "n - 8"] bl [of b3 n] unfolding w_def
      by (auto simp: bit_simps)
    then show "bit (take_bit 24 w) n = bit w n" by (auto simp: bit_simps)
  qed
  then have "unat w < 2 ^ 24"
    by (metis unsigned_take_bit_eq take_bit_nat_less_exp)
  then show "w \<le> KEYSPACE_MAX" by (simp add: word_le_nat_alt)
qed

section \<open>Round trips and order\<close>

lemma encode_key_eq:
  "encode_key mode ks u =
     (if ks \<le> KEYSPACE_MAX then Inr (as_byte mode # id_bytes ks @ u) else Inl (KeyspaceIdOutOfRange ks))"
  by (auto simp: encode_key_def validate_keyspace_id_def id_bytes_def)

lemma from_byte_as_byte [simp]: "from_byte (as_byte mode) = Inr mode"
  by (cases mode) (simp_all add: from_byte_def)

lemma from_byte_Inr: "from_byte b = Inr mode \<longleftrightarrow> b = as_byte mode"
  by (cases mode) (auto simp: from_byte_def)

lemma as_byte_inject [simp]: "as_byte m = as_byte m' \<longleftrightarrow> m = m'"
  by (cases m; cases m') simp_all

lemma decode_key_iff:
  "decode_key raw = Inr d \<longleftrightarrow>
     dk_keyspace d \<le> KEYSPACE_MAX \<and> raw = as_byte (dk_mode d) # id_bytes (dk_keyspace d) @ dk_user_key d"
proof
  assume "decode_key raw = Inr d"
  then obtain b0 b1 b2 b3 u where raw: "raw = b0 # b1 # b2 # b3 # u"
    and "bind_res (from_byte b0) (\<lambda>mode. Inr \<lparr>dk_mode = mode,
      dk_keyspace = push_bit 16 (ucast b1) OR push_bit 8 (ucast b2) OR ucast b3, dk_user_key = u\<rparr>) = Inr d"
    by (auto simp: decode_key_def split: list.splits)
  then show "dk_keyspace d \<le> KEYSPACE_MAX \<and> raw = as_byte (dk_mode d) # id_bytes (dk_keyspace d) @ dk_user_key d"
    using id_of_bytes [of b1 b2 b3] by (auto simp: bind_res_Inr_iff from_byte_Inr)
next
  assume d: "dk_keyspace d \<le> KEYSPACE_MAX \<and> raw = as_byte (dk_mode d) # id_bytes (dk_keyspace d) @ dk_user_key d"
  obtain b1 b2 b3 where b: "id_bytes (dk_keyspace d) = [b1, b2, b3]" by (simp add: id_bytes_def)
  have "push_bit 16 (ucast b1) OR push_bit 8 (ucast b2) OR ucast b3 = dk_keyspace d"
    using id_of_bytes [of b1 b2 b3] b d id_bytes_inject by metis
  then show "decode_key raw = Inr d"
    using d b by (simp add: decode_key_def)
qed

lemma encode_key_less_iff:
  assumes "encode_key mode k1 u1 = Inr r1" and "encode_key mode k2 u2 = Inr r2"
  shows "r1 < r2 \<longleftrightarrow> k1 < k2 \<or> k1 = k2 \<and> u1 < u2"
  using assms
  by (auto simp: encode_key_eq append_less_iff id_bytes_less_iff id_bytes_inject split: if_splits)

lemma encode_key_inject:
  assumes "encode_key m1 k1 u1 = Inr r" and "encode_key m2 k2 u2 = Inr r"
  shows "m1 = m2 \<and> k1 = k2 \<and> u1 = u2"
  using assms by (auto simp: encode_key_eq id_bytes_inject append_eq_append_conv split: if_splits)

lemma keyspace_range_eq:
  "keyspace_range mode ks =
     (if ks < KEYSPACE_MAX then Inr (as_byte mode # id_bytes ks, as_byte mode # id_bytes (ks + 1))
      else if ks = KEYSPACE_MAX then Inr (as_byte mode # id_bytes ks, [as_byte mode + 1])
      else Inl (KeyspaceIdOutOfRange ks))"
proof -
  have "saturating_add (as_byte mode) 1 = as_byte mode + 1"
    by (cases mode) (simp_all add: saturating_add_def)
  moreover have "ks < KEYSPACE_MAX \<Longrightarrow> ks + 1 \<le> KEYSPACE_MAX"
    by (rule inc_le)
  ultimately show ?thesis by (auto simp: keyspace_range_def encode_key_eq)
qed

lemma id_successor:
  "ks < KEYSPACE_MAX \<Longrightarrow> unat (ks + 1) = unat ks + 1"
  using unat_add_exact [of ks 1] by (simp add: word_less_nat_alt)

lemma as_byte_mode_order: "as_byte m < as_byte m' + 1 \<longleftrightarrow> m = m' \<or> as_byte m < as_byte m'"
  by (cases m; cases m') simp_all

section \<open>Properties\<close>

text \<open>
  C16. The physical key encoding is a bijection between (mode, keyspace id that fits three
  bytes, user key) and decodable keys: decoding yields a triple exactly when encoding that
  triple yields the key.
\<close>

theorem key_codec_bijection:
  "decode_key raw = Inr d \<longleftrightarrow> encode_key (dk_mode d) (dk_keyspace d) (dk_user_key d) = Inr raw"
  by (auto simp: decode_key_iff encode_key_eq)

text \<open>
  C17. Within a mode, byte order of physical keys is the order of (keyspace id, user key),
  which is what range scans and the reverse seek of routing rely on.
\<close>

theorem key_order_preserved:
  assumes "encode_key mode k1 u1 = Inr r1" and "encode_key mode k2 u2 = Inr r2"
  shows "r1 < r2 \<longleftrightarrow> k1 < k2 \<or> k1 = k2 \<and> u1 < u2"
  using assms by (rule encode_key_less_iff)

theorem key_order_preserved_witness:
  "encode_key Raw 1 [0xFF] = Inr [114, 0, 0, 1, 0xFF] \<and>
   encode_key Raw 2 [] = Inr [114, 0, 0, 2] \<and>
   [114, 0, 0, 1, 0xFF] < ([114, 0, 0, 2] :: bytes)"
proof -
  have a: "encode_key Raw 1 [0xFF] = Inr [114, 0, 0, 1, 0xFF]" by code_simp
  have b: "encode_key Raw 2 [] = Inr [114, 0, 0, 2]" by code_simp
  show ?thesis using a b key_order_preserved [OF a b] by simp
qed

text \<open>
  C18. Tenant isolation of ranges: the half-open range of a keyspace contains a decodable
  physical key exactly when the key belongs to that mode and that keyspace.
\<close>

theorem keyspace_range_exact:
  assumes "keyspace_range mode ks = Inr (lo, hi)" and "decode_key raw = Inr d"
  shows "lo \<le> raw \<and> raw < hi \<longleftrightarrow> dk_mode d = mode \<and> dk_keyspace d = ks"
proof -
  have raw: "raw = as_byte (dk_mode d) # id_bytes (dk_keyspace d) @ dk_user_key d"
    and le: "dk_keyspace d \<le> KEYSPACE_MAX"
    using assms(2) by (simp_all add: decode_key_iff)
  have lo: "lo = as_byte mode # id_bytes ks" and ks: "ks \<le> KEYSPACE_MAX"
    using assms(1) by (auto simp: keyspace_range_eq split: if_splits)
  show ?thesis
  proof (cases "ks = KEYSPACE_MAX")
    case True
    then have "hi = [as_byte mode + 1]" using assms(1) by (simp add: keyspace_range_eq)
    then show ?thesis using True le
      by (auto simp: raw lo le_append_iff id_bytes_le_iff id_bytes_less_iff id_bytes_inject
          as_byte_mode_order)
  next
    case False
    with ks have "ks < KEYSPACE_MAX" by simp
    then have "hi = as_byte mode # id_bytes (ks + 1)" and "ks + 1 \<le> KEYSPACE_MAX"
      using assms(1) by (auto simp: keyspace_range_eq inc_le)
    moreover have "dk_keyspace d < ks + 1 \<longleftrightarrow> dk_keyspace d \<le> ks"
      using id_successor [OF \<open>ks < KEYSPACE_MAX\<close>] by (simp add: word_less_nat_alt word_le_nat_alt less_Suc_eq_le)
    ultimately show ?thesis using le ks
      by (auto simp: raw lo le_append_iff append_less_iff_left id_bytes_le_iff id_bytes_less_iff
          id_bytes_inject)
  qed
qed

theorem keyspace_range_exact_witness:
  "keyspace_range Raw 5 = Inr ([114, 0, 0, 5], [114, 0, 0, 6]) \<and>
   decode_key [114, 0, 0, 5, 7] = Inr \<lparr>dk_mode = Raw, dk_keyspace = 5, dk_user_key = [7]\<rparr> \<and>
   [114, 0, 0, 5] \<le> ([114, 0, 0, 5, 7] :: bytes)"
proof -
  have a: "keyspace_range Raw 5 = Inr ([114, 0, 0, 5], [114, 0, 0, 6])" by code_simp
  have b: "decode_key [114, 0, 0, 5, 7] = Inr \<lparr>dk_mode = Raw, dk_keyspace = 5, dk_user_key = [7]\<rparr>"
    by code_simp
  show ?thesis using a b keyspace_range_exact [OF a b] by simp
qed

end
