(* ===== verification/DataRange.thy ===== *)
theory DataRange
  imports KeyCodec
begin

text \<open>
  Data-group ownership, \<open>crates/common/src/data_range.rs\<close>: the range record, its validation,
  its canonical encoding and the only allowed succession (initial publication is decided by
  the state machine, \<open>may_follow\<close> admits one-way sealing). The digest of a range is SHA-256 of
  its encoding; SHA-256 is a parameter.
\<close>

section \<open>The record and its operations\<close>

definition RANGE_KEY :: bytes where
  "RANGE_KEY = [0x73, 0, 0, 0, 0x6b, 0x76, 0x39, 0x2e, 0x64, 0x61, 0x74, 0x61, 0x2d, 0x72, 0x61,
    0x6e, 0x67, 0x65, 0x2e, 0x76, 0x31]"

definition COMPACTION_CONFIRMED_KEY :: bytes where
  "COMPACTION_CONFIRMED_KEY = [0x73, 0, 0, 0, 0x6b, 0x76, 0x39, 0x2e, 0x63, 0x6f, 0x6d, 0x70, 0x61,
    0x63, 0x74, 0x69, 0x6f, 0x6e, 0x2d, 0x63, 0x6f, 0x6e, 0x66, 0x69, 0x72, 0x6d, 0x65, 0x64,
    0x2e, 0x76, 0x31]"

definition MAX_BOUND :: nat where
  "MAX_BOUND = 65536"

definition MAX_ENCODED_BYTES :: nat where
  "MAX_ENCODED_BYTES = 117 + 2 * MAX_BOUND"

record data_range =
  dr_root :: digest
  dr_creation :: digest
  dr_region :: region_id
  dr_keyspace :: keyspace_id
  dr_tenant :: tenant_id
  dr_conf_ver :: u64
  dr_version :: u64
  dr_start :: bytes
  dr_end :: bytes
  dr_sealed :: bool

definition dr_validate :: "data_range \<Rightarrow> unit result" where
  "dr_validate r =
     (if dr_root r = 0 \<or> dr_creation r = 0 \<or> dr_region r < 100 \<or> dr_keyspace r = 0
         \<or> dr_keyspace r > KEYSPACE_MAX \<or> dr_conf_ver r = 0 \<or> dr_version r = 0
         \<or> length (dr_start r) > MAX_BOUND \<or> length (dr_end r) > MAX_BOUND
         \<or> (dr_end r \<noteq> [] \<and> dr_start r \<ge> dr_end r)
      then Inl (ConfigError ''invalid data range identity or bounds'') else Inr ())"

definition RANGE_MAGIC :: bytes where
  "RANGE_MAGIC = [0x4b, 0x56, 0x39, 0x52, 0x4e, 0x47, 0x30, 0x31]"

definition encode_bound :: "bytes \<Rightarrow> bytes" where
  "encode_bound bound = to_be 4 (of_nat (length bound) :: u32) @ bound"

definition dr_encode :: "data_range \<Rightarrow> bytes" where
  "dr_encode r =
     RANGE_MAGIC @ to_be 32 (dr_root r) @ to_be 32 (dr_creation r) @ to_be 8 (dr_region r)
     @ to_be 4 (dr_keyspace r)
     @ to_be 8 (dr_tenant r) @ to_be 8 (dr_conf_ver r) @ to_be 8 (dr_version r)
     @ [if dr_sealed r then 1 else 0]
     @ encode_bound (dr_start r) @ encode_bound (dr_end r)"

definition bad_range :: error where
  "bad_range = ConfigError ''invalid data range encoding''"

definition decode_bound :: "bytes \<Rightarrow> nat \<Rightarrow> (bytes \<times> nat) result" where
  "decode_bound b off =
     (case get_range b off 4 of None \<Rightarrow> Inl bad_range
      | Some l \<Rightarrow>
          (let len = unat (from_be l :: u32); off = off + 4 in
           if len > MAX_BOUND then Inl bad_range
           else case get_range b off len of None \<Rightarrow> Inl bad_range
                | Some v \<Rightarrow> Inr (v, off + len)))"

definition dr_decode :: "bytes \<Rightarrow> data_range result" where
  "dr_decode b =
     (if length b < 117 \<or> length b > MAX_ENCODED_BYTES \<or> bslice b 0 8 \<noteq> RANGE_MAGIC \<or> b ! 108 > 1
      then Inl bad_range
      else
        bind_res (decode_bound b 109) (\<lambda>(start, off).
        bind_res (decode_bound b off) (\<lambda>(end', off).
          if off \<noteq> length b then Inl bad_range
          else
            let range = \<lparr>dr_root = from_be (bslice b 8 40), dr_creation = from_be (bslice b 40 72),
                         dr_region = from_be (bslice b 72 80), dr_keyspace = from_be (bslice b 80 84),
                         dr_tenant = from_be (bslice b 84 92), dr_conf_ver = from_be (bslice b 92 100),
                         dr_version = from_be (bslice b 100 108),
                         dr_start = start, dr_end = end', dr_sealed = (b ! 108 = 1)\<rparr>
            in bind_res (dr_validate range) (\<lambda>_. Inr range))))"

definition dr_digest :: "(bytes \<Rightarrow> digest) \<Rightarrow> data_range \<Rightarrow> digest" where
  "dr_digest sha256 r = sha256 (dr_encode r)"

definition dr_contains :: "data_range \<Rightarrow> bytes \<Rightarrow> bool" where
  "dr_contains r key \<longleftrightarrow> key \<ge> dr_start r \<and> (dr_end r = [] \<or> key < dr_end r)"

definition dr_may_follow :: "data_range \<Rightarrow> data_range \<Rightarrow> bool" where
  "dr_may_follow self current =
     (case checked_add (dr_version current) 1 of
        None \<Rightarrow> False
      | Some next \<Rightarrow>
          \<not> dr_sealed current \<and> self = current\<lparr>dr_version := next, dr_sealed := True\<rparr>)"

section \<open>Round trip and canonicity\<close>

lemma dr_validate_iff:
  "dr_validate r = Inr () \<longleftrightarrow>
     dr_root r \<noteq> 0 \<and> dr_creation r \<noteq> 0 \<and> 100 \<le> dr_region r \<and> dr_keyspace r \<noteq> 0
     \<and> dr_keyspace r \<le> KEYSPACE_MAX \<and> dr_conf_ver r \<noteq> 0 \<and> dr_version r \<noteq> 0
     \<and> length (dr_start r) \<le> MAX_BOUND \<and> length (dr_end r) \<le> MAX_BOUND
     \<and> (dr_end r = [] \<or> dr_start r < dr_end r)"
  by (auto simp: dr_validate_def not_less not_le)

lemma length_RANGE_MAGIC [simp]: "length RANGE_MAGIC = 8"
  by (simp add: RANGE_MAGIC_def)

definition range_fixed :: "data_range \<Rightarrow> bytes" where
  "range_fixed r =
     RANGE_MAGIC @ to_be 32 (dr_root r) @ to_be 32 (dr_creation r) @ to_be 8 (dr_region r)
     @ to_be 4 (dr_keyspace r)
     @ to_be 8 (dr_tenant r) @ to_be 8 (dr_conf_ver r) @ to_be 8 (dr_version r)
     @ [if dr_sealed r then 1 else 0]"

lemma length_range_fixed [simp]: "length (range_fixed r) = 109"
  by (simp add: range_fixed_def)

lemma dr_encode_fixed: "dr_encode r = range_fixed r @ encode_bound (dr_start r) @ encode_bound (dr_end r)"
  by (simp add: dr_encode_def range_fixed_def)

lemma length_encode_bound [simp]: "length (encode_bound v) = 4 + length v"
  by (simp add: encode_bound_def)

lemma slice_append_left:
  "j \<le> length xs \<Longrightarrow> bslice (xs @ ys) i j = bslice xs i j"
  by (simp add: bslice_def)

lemma range_fixed_slices:
  "bslice (range_fixed r) 0 8 = RANGE_MAGIC"
  "from_be (bslice (range_fixed r) 8 40) = dr_root r"
  "from_be (bslice (range_fixed r) 40 72) = dr_creation r"
  "from_be (bslice (range_fixed r) 72 80) = dr_region r"
  "from_be (bslice (range_fixed r) 80 84) = dr_keyspace r"
  "from_be (bslice (range_fixed r) 84 92) = dr_tenant r"
  "from_be (bslice (range_fixed r) 92 100) = dr_conf_ver r"
  "from_be (bslice (range_fixed r) 100 108) = dr_version r"
  "\<not> range_fixed r ! 108 > 1"
  "(range_fixed r ! 108 = 1) = dr_sealed r"
  by (simp_all add: range_fixed_def bslice_def nth_append)

lemma unat_bound_len:
  "length v \<le> MAX_BOUND \<Longrightarrow> unat (of_nat (length v) :: u32) = length v"
  by (simp add: unat_of_nat MAX_BOUND_def)

lemma decode_encode_bound:
  assumes "length v \<le> MAX_BOUND" and "length pre = off"
  shows "decode_bound (pre @ encode_bound v @ post) off = Inr (v, off + 4 + length v)"
  using assms
  by (simp add: decode_bound_def get_range_def encode_bound_def unat_bound_len Let_def)

lemma decode_bound_Inr:
  assumes "decode_bound b off = Inr (v, off')"
  shows "off' \<le> length b \<and> bslice b off off' = encode_bound v \<and> length v \<le> MAX_BOUND \<and> off' = off + 4 + length v"
proof -
  from assms obtain l where l: "get_range b off 4 = Some l"
    and len: "unat (from_be l :: u32) \<le> MAX_BOUND"
    and v: "get_range b (off + 4) (unat (from_be l :: u32)) = Some v"
    and off': "off' = off + 4 + unat (from_be l :: u32)"
    by (auto simp: decode_bound_def Let_def split: option.splits if_splits)
  have lv: "length v = unat (from_be l :: u32)" using v by (rule length_get_range)
  moreover have "length l = 4" using l by (rule length_get_range)
  ultimately have "encode_bound v = l @ v"
    by (simp add: encode_bound_def to_from_be_widths)
  moreover have "bslice b off off' = l @ v"
    using l v off' lv by (simp add: get_range_Some_iff slice_append_slice)
  ultimately show ?thesis using v off' lv len by (auto simp: get_range_Some_iff)
qed

lemma data_range_eta:
  "\<lparr>dr_root = dr_root r, dr_creation = dr_creation r, dr_region = dr_region r,
    dr_keyspace = dr_keyspace r, dr_tenant = dr_tenant r, dr_conf_ver = dr_conf_ver r,
    dr_version = dr_version r, dr_start = dr_start r, dr_end = dr_end r,
    dr_sealed = dr_sealed r\<rparr> = r"
  by (cases r) simp

lemma dr_decode_encode:
  assumes "dr_validate r = Inr ()"
  shows "dr_decode (dr_encode r) = Inr r"
proof -
  have b: "length (dr_start r) \<le> MAX_BOUND" "length (dr_end r) \<le> MAX_BOUND"
    using assms by (simp_all add: dr_validate_iff)
  let ?b = "range_fixed r @ encode_bound (dr_start r) @ encode_bound (dr_end r)"
  have one: "decode_bound ?b 109 = Inr (dr_start r, 113 + length (dr_start r))"
    using decode_encode_bound [OF b(1), of "range_fixed r" 109] by simp
  have two: "decode_bound ?b (113 + length (dr_start r)) = Inr (dr_end r, length ?b)"
    using decode_encode_bound [OF b(2), of "range_fixed r @ encode_bound (dr_start r)"
        "113 + length (dr_start r)" "[]"] by simp
  have len: "\<not> (length ?b < 117 \<or> length ?b > MAX_ENCODED_BYTES)"
    using b by (simp add: MAX_ENCODED_BYTES_def)
  show ?thesis
    using assms one two len
    by (simp add: dr_encode_fixed dr_decode_def slice_append_left range_fixed_slices nth_append Let_def
        data_range_eta)
qed

lemma dr_decode_Inr:
  assumes "dr_decode b = Inr r"
  shows "dr_encode r = b \<and> dr_validate r = Inr ()"
proof -
  from assms obtain start off end' where
    len: "\<not> length b < 117" and magic: "bslice b 0 8 = RANGE_MAGIC" and flag: "\<not> b ! 108 > 1"
    and s: "decode_bound b 109 = Inr (start, off)" and e: "decode_bound b off = Inr (end', length b)"
    and r: "r = \<lparr>dr_root = from_be (bslice b 8 40), dr_creation = from_be (bslice b 40 72),
                 dr_region = from_be (bslice b 72 80), dr_keyspace = from_be (bslice b 80 84),
                 dr_tenant = from_be (bslice b 84 92), dr_conf_ver = from_be (bslice b 92 100),
                 dr_version = from_be (bslice b 100 108),
                 dr_start = start, dr_end = end', dr_sealed = (b ! 108 = 1)\<rparr>"
    and v: "dr_validate r = Inr ()"
    by (auto simp: dr_decode_def bind_res_Inr_iff Let_def split: if_splits)
  have flag': "(if b ! 108 = 1 then 1 else 0) = b ! 108"
  proof -
    have "unat (b ! 108) \<le> 1" using flag by (simp add: word_less_nat_alt)
    then have "b ! 108 = 0 \<or> b ! 108 = 1"
      by (metis One_nat_def le_Suc_eq le_zero_eq unat_eq_0 unat_1 word_unat_eq_iff)
    then show ?thesis by auto
  qed
  have "range_fixed r = bslice b 0 8 @ bslice b 8 40 @ bslice b 40 72 @ bslice b 72 80 @ bslice b 80 84
      @ bslice b 84 92 @ bslice b 92 100 @ bslice b 100 108 @ bslice b 108 109"
    using len slice_single [of 108 b]
    by (simp add: range_fixed_def r to_from_be_widths magic flag')
  also have "\<dots> = bslice b 0 109"
    by (simp add: slice_append_slice slice_append_slice_assoc)
  finally have fixed: "range_fixed r = bslice b 0 109" .
  have ends: "dr_start r = start" "dr_end r = end'" by (simp_all add: r)
  show ?thesis
    using fixed v decode_bound_Inr [OF s] decode_bound_Inr [OF e]
    by (auto simp: dr_encode_fixed ends slice_append_slice slice_append_slice_assoc slice_full
        dest!: sym [of "bslice b _ _"])
qed

section \<open>Properties\<close>

text \<open>
  C19. The range encoding is canonical: a byte string decodes to a range exactly when the range
  is valid and the byte string is its encoding, so no two byte strings name one range and no
  invalid range is ever produced by decoding.
\<close>

theorem range_codec_canonical:
  "dr_decode b = Inr r \<longleftrightarrow> dr_validate r = Inr () \<and> b = dr_encode r"
  using dr_decode_encode dr_decode_Inr by blast

text \<open>A range used by the examples.\<close>

definition range_sample :: data_range where
  "range_sample = \<lparr>dr_root = 1, dr_creation = 2, dr_region = 100, dr_keyspace = 100, dr_tenant = 1,
     dr_conf_ver = 1, dr_version = 1, dr_start = [98], dr_end = [109], dr_sealed = False\<rparr>"

end
