(* ===== verification/RawTtl.thy ===== *)
theory RawTtl
  imports KeyCodec
begin

text \<open>
  Raw TTL time and record primitives, \<open>crates/common/src/raw_ttl.rs\<close> and
  \<open>raw_ttl/clock.rs\<close>: clock samples as intervals, the group-replicated watermark, the
  immutable time plan of one proposal and the expiry record of one value. The watermark
  newtype over \<open>u64\<close> is a type synonym. Times are UNIX milliseconds.
\<close>

section \<open>Samples, watermarks, plans and records\<close>

definition EXPIRY_MAGIC :: bytes where
  "EXPIRY_MAGIC = [0x4b, 0x56, 0x39, 0x54, 0x54, 0x4c, 0x30, 0x31]"

definition CLOCK_MAGIC :: bytes where
  "CLOCK_MAGIC = [0x4b, 0x56, 0x39, 0x43, 0x4c, 0x4b, 0x30, 0x31]"

definition PLAN_MAGIC :: bytes where
  "PLAN_MAGIC = [0x4b, 0x56, 0x39, 0x54, 0x50, 0x4c, 0x30, 0x31]"

definition CLOCK_KEY :: bytes where
  "CLOCK_KEY = [0x73, 0, 0, 0, 0x6b, 0x76, 0x39, 0x2e, 0x72, 0x61, 0x77, 0x2d, 0x74, 0x74, 0x6c,
    0x2d, 0x63, 0x6c, 0x6f, 0x63, 0x6b, 0x2e, 0x76, 0x31]"

definition EXPIRY_RECORD_BYTES :: nat where "EXPIRY_RECORD_BYTES = 64"

definition CLOCK_RECORD_BYTES :: nat where "CLOCK_RECORD_BYTES = 16"

definition EXPIRY_PLAN_BYTES :: nat where "EXPIRY_PLAN_BYTES = 25"

record clock_sample =
  earliest_ms :: u64
  latest_ms :: u64

type_synonym clock_watermark = u64

definition from_interval :: "u64 \<Rightarrow> u64 \<Rightarrow> clock_sample result" where
  "from_interval earliest latest =
     (if earliest > latest then Inl (ConfigError ''inverted TTL clock interval'')
      else Inr \<lparr>earliest_ms = earliest, latest_ms = latest\<rparr>)"

definition with_uncertainty :: "u64 \<Rightarrow> u64 \<Rightarrow> clock_sample result" where
  "with_uncertainty unix_ms uncertainty_ms =
     (case checked_add unix_ms uncertainty_ms of
        None \<Rightarrow> Inl (ConfigError ''TTL clock interval overflows UNIX milliseconds'')
      | Some latest \<Rightarrow> Inr \<lparr>earliest_ms = saturating_sub unix_ms uncertainty_ms, latest_ms = latest\<rparr>)"

definition wm_merge :: "clock_watermark \<Rightarrow> clock_watermark \<Rightarrow> clock_watermark" where
  "wm_merge self proposed = max self proposed"

definition sample_advance :: "clock_sample \<Rightarrow> clock_watermark \<Rightarrow> clock_watermark result" where
  "sample_advance sample committed =
     (if latest_ms sample < committed
      then Inl (ConfigError ''TTL clock is behind the committed watermark outside its uncertainty'')
      else Inr (wm_merge committed (earliest_ms sample)))"

definition wm_encode :: "clock_watermark \<Rightarrow> bytes" where
  "wm_encode w = CLOCK_MAGIC @ to_be 8 w"

definition wm_decode :: "bytes \<Rightarrow> clock_watermark result" where
  "wm_decode b =
     (if length b \<noteq> CLOCK_RECORD_BYTES \<or> bslice b 0 8 \<noteq> CLOCK_MAGIC
      then Inl (EngineError ''invalid Raw TTL clock record'')
      else Inr (from_be (drop 8 b)))"

record expiry_record =
  er_creation :: digest
  er_position :: applied_position
  er_expires_at_ms :: u64

definition er_new :: "digest \<Rightarrow> applied_position \<Rightarrow> u64 \<Rightarrow> expiry_record result" where
  "er_new creation position expires_at_ms =
     (if creation = 0 \<or> ap_term position = 0 \<or> ap_index position = 0
      then Inl (EngineError ''invalid Raw TTL write identity'')
      else Inr \<lparr>er_creation = creation, er_position = position, er_expires_at_ms = expires_at_ms\<rparr>)"

definition expired_at :: "expiry_record \<Rightarrow> clock_watermark \<Rightarrow> bool" where
  "expired_at r watermark \<longleftrightarrow> watermark \<ge> er_expires_at_ms r"

definition permits_cleanup ::
  "expiry_record \<Rightarrow> expiry_record option \<Rightarrow> clock_watermark \<Rightarrow> bool" where
  "permits_cleanup r current watermark \<longleftrightarrow> current = Some r \<and> expired_at r watermark"

definition er_encode :: "expiry_record \<Rightarrow> bytes" where
  "er_encode r = EXPIRY_MAGIC @ to_be 32 (er_creation r) @ to_be 8 (ap_term (er_position r))
     @ to_be 8 (ap_index (er_position r)) @ to_be 8 (er_expires_at_ms r)"

definition er_decode :: "bytes \<Rightarrow> expiry_record result" where
  "er_decode b =
     (if length b \<noteq> EXPIRY_RECORD_BYTES \<or> bslice b 0 8 \<noteq> EXPIRY_MAGIC
      then Inl (EngineError ''invalid Raw TTL expiry record'')
      else er_new (from_be (bslice b 8 40))
             \<lparr>ap_term = from_be (bslice b 40 48), ap_index = from_be (bslice b 48 56)\<rparr>
             (from_be (drop 56 b)))"

record expiry_plan =
  ep_observed :: clock_watermark
  ep_expires_at_ms :: "u64 option"

definition ep_permanent :: "clock_watermark \<Rightarrow> expiry_plan" where
  "ep_permanent committed = \<lparr>ep_observed = committed, ep_expires_at_ms = None\<rparr>"

definition ep_immediate :: "clock_watermark \<Rightarrow> expiry_plan" where
  "ep_immediate committed = \<lparr>ep_observed = committed, ep_expires_at_ms = Some committed\<rparr>"

definition ep_resolve :: "u64 option \<Rightarrow> clock_sample \<Rightarrow> clock_watermark \<Rightarrow> expiry_plan result" where
  "ep_resolve ttl_secs sample committed =
     bind_res (sample_advance sample committed) (\<lambda>observed.
       case ttl_secs of
         None \<Rightarrow> Inr \<lparr>ep_observed = observed, ep_expires_at_ms = None\<rparr>
       | Some seconds \<Rightarrow>
           if seconds = 0 then Inr \<lparr>ep_observed = observed, ep_expires_at_ms = Some observed\<rparr>
           else
             case Option.bind (checked_mul seconds 1000) (\<lambda>millis. checked_add (latest_ms sample) millis) of
               None \<Rightarrow> Inl (ConfigError ''Raw TTL deadline overflows'')
             | Some deadline \<Rightarrow> Inr \<lparr>ep_observed = observed, ep_expires_at_ms = Some deadline\<rparr>)"

definition ep_encode :: "expiry_plan \<Rightarrow> bytes" where
  "ep_encode p = PLAN_MAGIC @ to_be 8 (ep_observed p) @
     (case ep_expires_at_ms p of
        None \<Rightarrow> replicate 9 0
      | Some deadline \<Rightarrow> 1 # to_be 8 deadline)"

definition ep_decode :: "bytes \<Rightarrow> expiry_plan result" where
  "ep_decode b =
     (if length b \<noteq> EXPIRY_PLAN_BYTES \<or> bslice b 0 8 \<noteq> PLAN_MAGIC
      then Inl (EngineError ''invalid Raw TTL proposal time encoding'')
      else
        let observed = from_be (bslice b 8 16); deadline = from_be (drop 17 b) in
        if b ! 16 = 0 \<and> deadline = 0 then Inr \<lparr>ep_observed = observed, ep_expires_at_ms = None\<rparr>
        else if b ! 16 = 1 \<and> deadline \<ge> observed
        then Inr \<lparr>ep_observed = observed, ep_expires_at_ms = Some deadline\<rparr>
        else Inl (EngineError ''invalid Raw TTL proposal deadline''))"

definition at_write :: "expiry_plan \<Rightarrow> digest \<Rightarrow> applied_position \<Rightarrow> expiry_record option result" where
  "at_write p creation position =
     (case ep_expires_at_ms p of
        None \<Rightarrow> Inr None
      | Some expires_at_ms \<Rightarrow> bind_res (er_new creation position expires_at_ms) (\<lambda>r. Inr (Some r)))"

section \<open>The clock policy\<close>

record ttl_clock_policy =
  max_uncertainty_ms :: u64
  additional_uncertainty_ms :: u64
  max_sample_span_ms :: u64
  boottime_drift_ppb :: u32
  boottime_error_ns :: u64
  warmup_ms :: u64

definition policy_validate :: "ttl_clock_policy \<Rightarrow> unit result" where
  "policy_validate p =
     (if \<not> (1 \<le> max_uncertainty_ms p \<and> max_uncertainty_ms p \<le> 60000)
         \<or> additional_uncertainty_ms p = 0
         \<or> additional_uncertainty_ms p \<ge> max_uncertainty_ms p
         \<or> \<not> (1 \<le> max_sample_span_ms p \<and> max_sample_span_ms p \<le> 1000)
         \<or> boottime_drift_ppb p \<ge> 1000000000
         \<or> \<not> (1 \<le> boottime_error_ns p \<and> boottime_error_ns p \<le> 1000000)
         \<or> \<not> (1 \<le> warmup_ms p \<and> warmup_ms p \<le> 60000)
      then Inl (ConfigError ''invalid Raw TTL clock policy'') else Inr ())"

section \<open>Codec lemmas\<close>

lemma length_magics [simp]:
  "length EXPIRY_MAGIC = 8" "length CLOCK_MAGIC = 8" "length PLAN_MAGIC = 8"
  by (simp_all add: EXPIRY_MAGIC_def CLOCK_MAGIC_def PLAN_MAGIC_def)

lemmas ttl_byte_defs = EXPIRY_RECORD_BYTES_def CLOCK_RECORD_BYTES_def EXPIRY_PLAN_BYTES_def

lemma drop_as_slice: "length b = n \<Longrightarrow> drop i b = bslice b i n"
  by (simp add: bslice_def)

lemma wm_codec: "wm_decode b = Inr w \<longleftrightarrow> b = wm_encode w"
proof
  assume "wm_decode b = Inr w"
  then have l: "length b = 16" and m: "bslice b 0 8 = CLOCK_MAGIC" and w: "w = from_be (drop 8 b)"
    by (auto simp: wm_decode_def ttl_byte_defs split: if_splits)
  have "wm_encode w = bslice b 0 8 @ bslice b 8 16"
    using l by (simp add: wm_encode_def w m to_from_be_widths drop_as_slice)
  with l show "b = wm_encode w" by (simp add: slice_append_slice slice_full)
qed (simp add: wm_decode_def wm_encode_def ttl_byte_defs bslice_def)

lemma er_new_Inr:
  "er_new c p e = Inr r \<longleftrightarrow> c \<noteq> 0 \<and> ap_term p \<noteq> 0 \<and> ap_index p \<noteq> 0 \<and>
     r = \<lparr>er_creation = c, er_position = p, er_expires_at_ms = e\<rparr>"
  by (auto simp: er_new_def)

definition er_valid :: "expiry_record \<Rightarrow> bool" where
  "er_valid r \<longleftrightarrow> er_creation r \<noteq> 0 \<and> ap_term (er_position r) \<noteq> 0 \<and> ap_index (er_position r) \<noteq> 0"

lemma er_codec: "er_decode b = Inr r \<longleftrightarrow> er_valid r \<and> b = er_encode r"
proof
  assume "er_decode b = Inr r"
  then have l: "length b = 64" and m: "bslice b 0 8 = EXPIRY_MAGIC" and v: "er_valid r"
    and r: "r = \<lparr>er_creation = from_be (bslice b 8 40),
      er_position = \<lparr>ap_term = from_be (bslice b 40 48), ap_index = from_be (bslice b 48 56)\<rparr>,
      er_expires_at_ms = from_be (drop 56 b)\<rparr>"
    by (auto simp: er_decode_def er_valid_def er_new_Inr ttl_byte_defs split: if_splits)
  have "er_encode r = bslice b 0 8 @ bslice b 8 40 @ bslice b 40 48 @ bslice b 48 56 @ bslice b 56 64"
    using l by (simp add: er_encode_def r m to_from_be_widths drop_as_slice)
  with l v show "er_valid r \<and> b = er_encode r"
    by (simp add: slice_append_slice slice_append_slice_assoc slice_full)
next
  assume r: "er_valid r \<and> b = er_encode r"
  have "\<lparr>er_creation = er_creation r, er_position = \<lparr>ap_term = ap_term (er_position r),
    ap_index = ap_index (er_position r)\<rparr>, er_expires_at_ms = er_expires_at_ms r\<rparr> = r"
    by (cases r) simp
  with r show "er_decode b = Inr r"
    by (simp add: er_decode_def er_encode_def er_valid_def er_new_def ttl_byte_defs bslice_def)
qed

definition ep_valid :: "expiry_plan \<Rightarrow> bool" where
  "ep_valid p \<longleftrightarrow> (case ep_expires_at_ms p of None \<Rightarrow> True | Some d \<Rightarrow> d \<ge> ep_observed p)"

lemma zero_deadline: "length bs = 8 \<Longrightarrow> (from_be bs :: u64) = 0 \<Longrightarrow> bs = replicate 8 0"
proof -
  assume "length bs = 8" and z: "(from_be bs :: u64) = 0"
  then have "bs = to_be 8 (0 :: u64)" using to_from_be_widths(2) [of bs] by simp
  also have "\<dots> = replicate 8 0" by code_simp
  finally show ?thesis .
qed

lemma ep_codec: "ep_decode b = Inr p \<longleftrightarrow> ep_valid p \<and> b = ep_encode p"
proof
  assume d: "ep_decode b = Inr p"
  then have l: "length b = 25" and m: "bslice b 0 8 = PLAN_MAGIC"
    by (auto simp: ep_decode_def ttl_byte_defs split: if_splits)
  have parts: "b = PLAN_MAGIC @ to_be 8 (from_be (bslice b 8 16) :: u64) @ (b ! 16) # drop 17 b"
  proof -
    have "b = bslice b 0 8 @ bslice b 8 16 @ bslice b 16 17 @ bslice b 17 25"
      using l by (simp add: slice_append_slice slice_append_slice_assoc slice_full)
    also have "bslice b 16 17 = [b ! 16]" using l slice_single [of 16 b] by simp
    finally show ?thesis using l m by (simp add: to_from_be_widths drop_as_slice)
  qed
  consider (perm) "b ! 16 = 0" "(from_be (drop 17 b) :: u64) = 0"
      "p = \<lparr>ep_observed = from_be (bslice b 8 16), ep_expires_at_ms = None\<rparr>"
    | (exp) "b ! 16 = 1" "(from_be (drop 17 b) :: u64) \<ge> from_be (bslice b 8 16)"
      "p = \<lparr>ep_observed = from_be (bslice b 8 16), ep_expires_at_ms = Some (from_be (drop 17 b))\<rparr>"
    using d by (auto simp: ep_decode_def Let_def split: if_splits)
  then show "ep_valid p \<and> b = ep_encode p"
  proof cases
    case perm
    then have "drop 17 b = replicate 8 0" using l by (intro zero_deadline) simp_all
    then show ?thesis using perm parts by (simp add: ep_valid_def ep_encode_def numeral_eq_Suc)
  next
    case exp
    then show ?thesis using parts l by (simp add: ep_valid_def ep_encode_def to_from_be_widths)
  qed
next
  assume p: "ep_valid p \<and> b = ep_encode p"
  show "ep_decode b = Inr p"
  proof (cases "ep_expires_at_ms p")
    case None
    have "(from_be (replicate 8 0) :: u64) = 0" by code_simp
    moreover have "\<lparr>ep_observed = ep_observed p, ep_expires_at_ms = None\<rparr> = p"
      using None by (cases p) simp
    ultimately show ?thesis using p None
      by (simp add: ep_decode_def ep_encode_def ttl_byte_defs bslice_def nth_append)
  next
    case (Some d)
    have "\<lparr>ep_observed = ep_observed p, ep_expires_at_ms = Some d\<rparr> = p"
      using Some by (cases p) simp
    then show ?thesis using p Some
      by (simp add: ep_decode_def ep_encode_def ep_valid_def ttl_byte_defs bslice_def nth_append)
  qed
qed

section \<open>Time lemmas\<close>

text \<open>A sample covers a true time when its interval contains it.\<close>

definition covers :: "clock_sample \<Rightarrow> nat \<Rightarrow> bool" where
  "covers s t \<longleftrightarrow> unat (earliest_ms s) \<le> t \<and> t \<le> unat (latest_ms s)"

lemma with_uncertainty_covers:
  assumes "with_uncertainty unix unc = Inr s"
    and "t \<le> unat unix + unat unc" and "unat unix \<le> t + unat unc"
  shows "covers s t"
  using assms
  by (auto simp: with_uncertainty_def covers_def unat_saturating_sub dest: checked_add_SomeD
      split: option.splits)

lemma sample_advance_bounds:
  assumes "sample_advance s committed = Inr w"
  shows "committed \<le> w" and "earliest_ms s \<le> w" and "covers s t \<Longrightarrow> unat committed \<le> t \<Longrightarrow> unat w \<le> t"
    and "earliest_ms s \<le> latest_ms s \<Longrightarrow> w \<le> latest_ms s"
  using assms
  by (auto simp: sample_advance_def wm_merge_def covers_def unat_max max_def split: if_splits)

lemma resolve_valid:
  assumes "ep_resolve ttl s committed = Inr p" and "earliest_ms s \<le> latest_ms s"
  shows "ep_valid p"
proof -
  from assms(1) obtain w where w: "sample_advance s committed = Inr w"
    by (auto simp: ep_resolve_def bind_res_Inr_iff)
  have "w \<le> latest_ms s" using sample_advance_bounds(4) [OF w assms(2)] .
  moreover have "latest_ms s \<le> d" if "checked_add (latest_ms s) m = Some d" for m d
    using checked_add_SomeD [OF that] by (simp add: word_le_nat_alt)
  ultimately have "w \<le> d" if "checked_add (latest_ms s) m = Some d" for m d
    using that by (meson order_trans)
  with assms(1) w show ?thesis
    by (auto simp: ep_resolve_def ep_valid_def bind_eq_Some_conv split: option.splits if_splits)
qed

lemma resolve_deadline:
  assumes "ep_resolve (Some secs) s committed = Inr p" and "secs \<noteq> 0"
  shows "\<exists>d. ep_expires_at_ms p = Some d \<and> unat d = unat (latest_ms s) + 1000 * unat secs"
proof -
  from assms obtain ms d where "checked_mul secs 1000 = Some ms"
    and "checked_add (latest_ms s) ms = Some d" and "ep_expires_at_ms p = Some d"
    by (auto simp: ep_resolve_def bind_res_Inr_iff bind_eq_Some_conv split: option.splits)
  then show ?thesis by (auto dest!: checked_mul_SomeD checked_add_SomeD simp: mult.commute)
qed

section \<open>Properties\<close>

text \<open>
  C21. The three fixed-size TTL records are canonical: the clock watermark decodes exactly from
  its encoding, an expiry record exactly from the encoding of a record with a write identity,
  and a proposal plan exactly from the encoding of a plan whose deadline is not before its
  observed watermark.
\<close>

theorem ttl_codecs_canonical:
  "(wm_decode b = Inr w \<longleftrightarrow> b = wm_encode w) \<and>
   (er_decode b = Inr r \<longleftrightarrow> er_valid r \<and> b = er_encode r) \<and>
   (ep_decode b = Inr p \<longleftrightarrow> ep_valid p \<and> b = ep_encode p)"
  by (simp add: wm_codec er_codec ep_codec)

text \<open>
  C22. A TTL is never cut short: if the proposer's sample covers the true time \<open>t\<close> of the
  proposal, and the value written with a positive TTL of \<open>secs\<close> seconds is expired at a
  watermark that does not exceed the true time \<open>now\<close>, then at least \<open>secs\<close> seconds have passed.
\<close>

theorem ttl_never_expires_early:
  assumes "covers s t" and "secs \<noteq> 0"
    and "ep_resolve (Some secs) s committed = Inr p"
    and "at_write p creation pos = Inr (Some r)"
    and "expired_at r w" and "unat w \<le> now"
  shows "t + 1000 * unat secs \<le> now"
proof -
  from resolve_deadline [OF assms(3,2)] obtain d
    where d: "ep_expires_at_ms p = Some d" "unat d = unat (latest_ms s) + 1000 * unat secs" by blast
  with assms(4) have "er_expires_at_ms r = d"
    by (auto simp: at_write_def bind_res_Inr_iff er_new_Inr)
  with assms(5,6) have "unat d \<le> now" by (simp add: expired_at_def word_le_nat_alt)
  with d assms(1) show ?thesis by (simp add: covers_def)
qed

theorem ttl_never_expires_early_witness:
  "\<exists>p r. ep_resolve (Some 5) \<lparr>earliest_ms = 995, latest_ms = 1005\<rparr> 0 = Inr p \<and>
     at_write p 7 \<lparr>ap_term = 1, ap_index = 3\<rparr> = Inr (Some r) \<and> expired_at r 6005 \<and>
     1000 + 1000 * unat (5 :: u64) \<le> (6005 :: nat)"
proof -
  let ?s = "\<lparr>earliest_ms = 995, latest_ms = 1005\<rparr> :: clock_sample"
  let ?p = "\<lparr>ep_observed = 995, ep_expires_at_ms = Some 6005\<rparr> :: expiry_plan"
  let ?r = "\<lparr>er_creation = 7, er_position = \<lparr>ap_term = 1, ap_index = 3\<rparr>, er_expires_at_ms = 6005\<rparr> :: expiry_record"
  have a: "covers ?s 1000" by (simp add: covers_def)
  have b: "ep_resolve (Some 5) ?s 0 = Inr ?p"
    by (simp add: ep_resolve_def sample_advance_def wm_merge_def checked_mul_def checked_add_def max_def)
  have c: "at_write ?p 7 \<lparr>ap_term = 1, ap_index = 3\<rparr> = Inr (Some ?r)"
    by (simp add: at_write_def er_new_def)
  have d: "expired_at ?r 6005" by (simp add: expired_at_def)
  have "1000 + 1000 * unat (5 :: u64) \<le> (6005 :: nat)"
    by (rule ttl_never_expires_early [OF a _ b c d]) simp_all
  with b c d show ?thesis by blast
qed

end
