(* ===== verification/Batch.thy ===== *)
theory Batch
  imports Common
begin

text \<open>
  Column families and write batches, \<open>crates/engine/src/cf.rs\<close> and \<open>write_batch.rs\<close>, and the
  batch payload codec of \<open>crates/engine/src/wal.rs\<close>. A \<open>WriteBatch\<close> is the list of its
  mutations. The cursor is the pair of the buffer and the offset \<open>at\<close>, threaded through the
  readers; \<open>usize\<close> is 64 bits wide.
\<close>

section \<open>Column families and batches\<close>

datatype column_family = Default | Lock | Write

definition cf_all :: "column_family list" where
  "cf_all = [Default, Lock, Write]"

datatype mutation = Put column_family bytes bytes | Delete column_family bytes

type_synonym write_batch = "mutation list"

definition batch_put :: "write_batch \<Rightarrow> column_family \<Rightarrow> bytes \<Rightarrow> bytes \<Rightarrow> write_batch" where
  "batch_put b cf key value = b @ [Put cf key value]"

definition batch_delete :: "write_batch \<Rightarrow> column_family \<Rightarrow> bytes \<Rightarrow> write_batch" where
  "batch_delete b cf key = b @ [Delete cf key]"

definition batch_append :: "write_batch \<Rightarrow> write_batch \<Rightarrow> write_batch" where
  "batch_append b other = b @ other"

section \<open>Encoding\<close>

fun cf_code :: "column_family \<Rightarrow> byte" where
  "cf_code Default = 0" | "cf_code Lock = 1" | "cf_code Write = 2"

definition cf_from_code :: "byte \<Rightarrow> column_family result" where
  "cf_from_code code =
     (if code = 0 then Inr Default else if code = 1 then Inr Lock else if code = 2 then Inr Write
      else Inl (EngineError ''wal: unknown column family''))"

definition put_u32 :: "bytes \<Rightarrow> u32 \<Rightarrow> bytes" where
  "put_u32 out v = out @ to_le 4 v"

definition put_bytes :: "bytes \<Rightarrow> bytes \<Rightarrow> bytes" where
  "put_bytes out x = put_u32 out (of_nat (length x)) @ x"

fun encode_mutation :: "bytes \<Rightarrow> mutation \<Rightarrow> bytes" where
  "encode_mutation out (Put cf key value) = put_bytes (put_bytes (out @ [0, cf_code cf]) key) value"
| "encode_mutation out (Delete cf key) = put_bytes (out @ [1, cf_code cf]) key"

definition encode_batch :: "write_batch \<Rightarrow> bytes" where
  "encode_batch batch = foldl encode_mutation (put_u32 [] (of_nat (length batch))) batch"

section \<open>Decoding\<close>

definition cur_take :: "bytes \<Rightarrow> nat \<Rightarrow> nat \<Rightarrow> (bytes \<times> nat) result" where
  "cur_take buf at n =
     (if at + n \<ge> 2 ^ 64 then Inl (EngineError ''wal: length overflow'')
      else if at + n > length buf then Inl (EngineError ''wal: record truncated'')
      else Inr (bslice buf at (at + n), at + n))"

definition cur_u8 :: "bytes \<Rightarrow> nat \<Rightarrow> (byte \<times> nat) result" where
  "cur_u8 buf at = bind_res (cur_take buf at 1) (\<lambda>(b, at). Inr (b ! 0, at))"

definition cur_u32 :: "bytes \<Rightarrow> nat \<Rightarrow> (u32 \<times> nat) result" where
  "cur_u32 buf at =
     bind_res (cur_take buf at 4) (\<lambda>(b, at). Inr (from_le [b ! 0, b ! 1, b ! 2, b ! 3], at))"

definition cur_bytes :: "bytes \<Rightarrow> nat \<Rightarrow> (bytes \<times> nat) result" where
  "cur_bytes buf at = bind_res (cur_u32 buf at) (\<lambda>(n, at). cur_take buf at (unat n))"

definition decode_mutation :: "bytes \<Rightarrow> nat \<Rightarrow> (mutation \<times> nat) result" where
  "decode_mutation buf at =
     bind_res (cur_u8 buf at) (\<lambda>(tag, at).
     bind_res (cur_u8 buf at) (\<lambda>(code, at).
     bind_res (cf_from_code code) (\<lambda>cf.
       if tag = 0 then
         bind_res (cur_bytes buf at) (\<lambda>(key, at).
         bind_res (cur_bytes buf at) (\<lambda>(value, at). Inr (Put cf key value, at)))
       else if tag = 1 then
         bind_res (cur_bytes buf at) (\<lambda>(key, at). Inr (Delete cf key, at))
       else Inl (EngineError ''wal: unknown mutation tag''))))"

fun decode_mutations :: "bytes \<Rightarrow> nat \<Rightarrow> nat \<Rightarrow> write_batch \<Rightarrow> (write_batch \<times> nat) result" where
  "decode_mutations buf at 0 batch = Inr (batch, at)"
| "decode_mutations buf at (Suc n) batch =
     bind_res (decode_mutation buf at) (\<lambda>(m, at). decode_mutations buf at n (batch @ [m]))"

definition decode_batch :: "bytes \<Rightarrow> write_batch result" where
  "decode_batch payload =
     bind_res (cur_u32 payload 0) (\<lambda>(count, at).
     bind_res (decode_mutations payload at (unat count) []) (\<lambda>(batch, at).
       if at \<noteq> length payload then Inl (EngineError ''wal: trailing bytes'') else Inr batch))"

section \<open>Round trip\<close>

text \<open>The encoding as a concatenation of independent pieces.\<close>

definition bytes_code :: "bytes \<Rightarrow> bytes" where
  "bytes_code x = to_le 4 (of_nat (length x) :: u32) @ x"

fun mutation_code :: "mutation \<Rightarrow> bytes" where
  "mutation_code (Put cf key value) = [0, cf_code cf] @ bytes_code key @ bytes_code value"
| "mutation_code (Delete cf key) = [1, cf_code cf] @ bytes_code key"

lemma encode_mutation_code: "encode_mutation out m = out @ mutation_code m"
  by (cases m) (simp_all add: put_bytes_def put_u32_def bytes_code_def)

lemma encode_batch_code:
  "encode_batch ms = to_le 4 (of_nat (length ms) :: u32) @ concat (map mutation_code ms)"
proof -
  have "foldl encode_mutation out ms = out @ concat (map mutation_code ms)" for out
    by (induction ms arbitrary: out) (simp_all add: encode_mutation_code)
  then show ?thesis by (simp add: encode_batch_def put_u32_def)
qed

fun mutation_fits :: "mutation \<Rightarrow> bool" where
  "mutation_fits (Put cf key value) = (length key < 2 ^ 32 \<and> length value < 2 ^ 32)"
| "mutation_fits (Delete cf key) = (length key < 2 ^ 32)"

definition batch_fits :: "write_batch \<Rightarrow> bool" where
  "batch_fits ms \<longleftrightarrow> length ms < 2 ^ 32 \<and> list_all mutation_fits ms \<and> length (encode_batch ms) < 2 ^ 64"

text \<open>A batch whose payload is within a record is short enough for every length field.\<close>

lemma mutation_code_bounds: "length (mutation_code m) < 2 ^ 32 \<Longrightarrow> mutation_fits m"
  by (cases m) (simp_all add: bytes_code_def)

lemma batch_fits_small:
  assumes "length (encode_batch ms) < 2 ^ 32"
  shows "batch_fits ms"
proof -
  let ?n = "length (concat (map mutation_code ms))"
  have n: "?n < 2 ^ 32" using assms by (simp add: encode_batch_code)
  have le: "length (mutation_code m) \<le> ?n" if "m \<in> set ms" for m
    using that by (induction ms) auto
  have "mutation_fits m" if "m \<in> set ms" for m
    using le [OF that] n by (intro mutation_code_bounds) linarith
  then have "list_all mutation_fits ms" by (simp add: list_all_iff)
  moreover have "length ms \<le> ?n"
  proof (induction ms)
    case (Cons m ms)
    then show ?case by (cases m) auto
  qed simp
  ultimately show ?thesis using assms n by (simp add: batch_fits_def)
qed

lemma cur_take_at:
  assumes "length (p @ x @ q) < 2 ^ 64"
  shows "cur_take (p @ x @ q) (length p) (length x) = Inr (x, length p + length x)"
  using assms by (simp add: cur_take_def bslice_def)

lemma cur_u8_at:
  "length (p @ b # q) < 2 ^ 64 \<Longrightarrow> cur_u8 (p @ b # q) (length p) = Inr (b, Suc (length p))"
  using cur_take_at [of p "[b]" q] by (simp add: cur_u8_def)

lemma list4: "length b = 4 \<Longrightarrow> [b ! 0, b ! 1, b ! 2, b ! 3] = b"
  by (auto simp: numeral_eq_Suc length_Suc_conv)

lemma cur_u32_at:
  "length (p @ to_le 4 (w :: u32) @ q) < 2 ^ 64 \<Longrightarrow>
   cur_u32 (p @ to_le 4 w @ q) (length p) = Inr (w, length p + 4)"
  using cur_take_at [of p "to_le 4 w" q] list4 [of "to_le 4 w"] by (simp add: cur_u32_def)

lemma cur_bytes_at:
  assumes "length (p @ bytes_code x @ q) < 2 ^ 64" "length x < 2 ^ 32"
  shows "cur_bytes (p @ bytes_code x @ q) (length p) = Inr (x, length p + length (bytes_code x))"
proof -
  have u: "unat (of_nat (length x) :: u32) = length x" using assms(2) by (rule unat_of_nat_u32)
  have "cur_u32 (p @ bytes_code x @ q) (length p) = Inr (of_nat (length x), length p + 4)"
    using cur_u32_at [of p "of_nat (length x)" "x @ q"] assms(1) by (simp add: bytes_code_def)
  moreover have "cur_take (p @ bytes_code x @ q) (length p + 4) (length x)
      = Inr (x, length p + length (bytes_code x))"
    using cur_take_at [of "p @ to_le 4 (of_nat (length x) :: u32)" x q] assms(1) by (simp add: bytes_code_def)
  ultimately show ?thesis using u by (simp add: cur_bytes_def)
qed

lemma cf_from_code_iff: "cf_from_code c = Inr cf \<longleftrightarrow> c = cf_code cf"
  by (cases cf) (auto simp: cf_from_code_def)

lemma decode_mutation_at:
  assumes l: "length (p @ mutation_code m @ q) < 2 ^ 64" and f: "mutation_fits m"
  shows "decode_mutation (p @ mutation_code m @ q) (length p) = Inr (m, length p + length (mutation_code m))"
proof (cases m)
  case (Put cf key v)
  let ?b = "p @ mutation_code m @ q"
  have "cur_u8 ?b (length p) = Inr (0, length p + 1)" "cur_u8 ?b (length p + 1) = Inr (cf_code cf, length p + 2)"
    using cur_u8_at [of p 0 "cf_code cf # bytes_code key @ bytes_code v @ q"]
      cur_u8_at [of "p @ [0]" "cf_code cf" "bytes_code key @ bytes_code v @ q"] l Put by simp_all
  moreover have "cur_bytes ?b (length p + 2) = Inr (key, length p + 2 + length (bytes_code key))"
    using cur_bytes_at [of "p @ [0, cf_code cf]" key "bytes_code v @ q"] l f Put by simp
  moreover have "cur_bytes ?b (length p + 2 + length (bytes_code key))
      = Inr (v, length p + length (mutation_code m))"
    using cur_bytes_at [of "p @ [0, cf_code cf] @ bytes_code key" v q] l f Put by (simp add: add_ac)
  moreover have "cf_from_code (cf_code cf) = Inr cf" by (simp add: cf_from_code_iff)
  ultimately show ?thesis using Put by (simp add: decode_mutation_def)
next
  case (Delete cf key)
  let ?b = "p @ mutation_code m @ q"
  have "cur_u8 ?b (length p) = Inr (1, length p + 1)" "cur_u8 ?b (length p + 1) = Inr (cf_code cf, length p + 2)"
    using cur_u8_at [of p 1 "cf_code cf # bytes_code key @ q"]
      cur_u8_at [of "p @ [1]" "cf_code cf" "bytes_code key @ q"] l Delete by simp_all
  moreover have "cur_bytes ?b (length p + 2) = Inr (key, length p + length (mutation_code m))"
    using cur_bytes_at [of "p @ [1, cf_code cf]" key q] l f Delete by simp
  moreover have "cf_from_code (cf_code cf) = Inr cf" by (simp add: cf_from_code_iff)
  ultimately show ?thesis using Delete by (simp add: decode_mutation_def)
qed

lemma decode_mutations_at:
  assumes "length (p @ concat (map mutation_code ms) @ q) < 2 ^ 64" "list_all mutation_fits ms"
  shows "decode_mutations (p @ concat (map mutation_code ms) @ q) (length p) (length ms) acc
    = Inr (acc @ ms, length p + length (concat (map mutation_code ms)))"
  using assms
proof (induction ms arbitrary: p acc)
  case (Cons m ms)
  have "decode_mutation (p @ mutation_code m @ concat (map mutation_code ms) @ q) (length p)
      = Inr (m, length p + length (mutation_code m))"
    using Cons.prems by (intro decode_mutation_at) simp_all
  moreover have "decode_mutations ((p @ mutation_code m) @ concat (map mutation_code ms) @ q)
      (length (p @ mutation_code m)) (length ms) (acc @ [m])
      = Inr ((acc @ [m]) @ ms, length (p @ mutation_code m) + length (concat (map mutation_code ms)))"
    using Cons.prems by (intro Cons.IH) simp_all
  ultimately show ?case by (simp add: add_ac)
qed simp

lemma decode_encode_batch: "batch_fits ms \<Longrightarrow> decode_batch (encode_batch ms) = Inr ms"
proof -
  assume f: "batch_fits ms"
  let ?h = "to_le 4 (of_nat (length ms) :: u32)" and ?c = "concat (map mutation_code ms)"
  have l: "length (?h @ ?c) < 2 ^ 64" and fit: "list_all mutation_fits ms"
    and u: "unat (of_nat (length ms) :: u32) = length ms"
    using f unat_of_nat_u32 [of "length ms"] by (auto simp: batch_fits_def encode_batch_code)
  have "cur_u32 (?h @ ?c) 0 = Inr (of_nat (length ms), 4)"
    using cur_u32_at [of "[]" "of_nat (length ms)" ?c] l by simp
  moreover have "decode_mutations (?h @ ?c) 4 (length ms) [] = Inr (ms, length (?h @ ?c))"
    using decode_mutations_at [of ?h ms "[]" "[]"] l fit by simp
  ultimately show ?thesis using u by (simp add: decode_batch_def encode_batch_code)
qed

end
