(* ===== verification/EngineContract.thy ===== *)
theory EngineContract
  imports Batch DataRange OrdMap
begin

text \<open>
  What an engine of \<open>crates/engine\<close> promises (\<open>lib.rs\<close>, \<open>replicated.rs\<close>): the traits
  \<open>Engine\<close> and \<open>ReplicatedEngine\<close> as an abstract state with one sorted map per column family, the
  applied position, and the locale \<open>replicated_engine\<close> with the laws an
  implementation satisfies. The client lemma of the locale is the refinement along a history of
  operations.
\<close>

section \<open>Types of the traits\<close>

datatype durability = Volatile | DurableThroughLastWrite

datatype durable_applied_position =
  VolatilePosition | AppliedNothing | AppliedThrough applied_position

type_synonym scan_entry = "bytes \<times> bytes"

text \<open>The default of \<open>ReadView::get_resident_value\<close>: a copy out of \<open>get_resident\<close>.\<close>

definition default_get_resident_value :: "bytes option option \<Rightarrow> bytes option option" where
  "default_get_resident_value resident = map_option (map_option (\<lambda>value. value)) resident"

definition starts_with :: "bytes \<Rightarrow> bytes \<Rightarrow> bool" where
  "starts_with key prefix \<longleftrightarrow> take (length prefix) key = prefix"

definition MANIFEST_PREFIX :: bytes where
  "MANIFEST_PREFIX = [0x00, 0x6b, 0x76, 0x39, 0x00, 0x6d, 0x61, 0x6e, 0x69, 0x66, 0x65, 0x73, 0x74, 0x5f]"

definition RETENTION_PREFIX :: bytes where
  "RETENTION_PREFIX = [0x00, 0x6b, 0x76, 0x39, 0x00, 0x72, 0x65, 0x74, 0x65, 0x6e, 0x74, 0x69, 0x6f, 0x6e,
    0x5f, 0x76, 0x31, 0x00]"

definition changes_data_revision :: "column_family \<Rightarrow> bytes \<Rightarrow> bool" where
  "changes_data_revision cf key \<longleftrightarrow>
     cf \<noteq> Default \<or>
     \<not> (starts_with key MANIFEST_PREFIX \<or> starts_with key RETENTION_PREFIX
        \<or> key = COMPACTION_CONFIRMED_KEY)"

fun mutation_cf :: "mutation \<Rightarrow> column_family" where
  "mutation_cf (Put cf key val) = cf"
| "mutation_cf (Delete cf key) = cf"

fun mutation_key :: "mutation \<Rightarrow> bytes" where
  "mutation_key (Put cf key val) = key"
| "mutation_key (Delete cf key) = key"

text \<open>The rolling hash over the entries of a range: FNV-1a over the key and the value bytes.\<close>

definition fnv_byte :: "byte \<Rightarrow> u64 \<Rightarrow> u64" where
  "fnv_byte b h = (xor h (ucast b)) * 0x100000001b3"

definition fnv_entries :: "scan_entry list \<Rightarrow> u64" where
  "fnv_entries es = fold (\<lambda>(k, v). fold fnv_byte (k @ v)) es 0xcbf29ce484222325"

section \<open>The abstract engine\<close>

record kv_state =
  kv_data :: "column_family \<Rightarrow> (bytes, bytes) omap"
  kv_applied :: "applied_position option"

definition kv_ok :: "kv_state \<Rightarrow> bool" where
  "kv_ok a \<longleftrightarrow> (\<forall>cf. om_ok (kv_data a cf))"

definition kv_empty :: kv_state where
  "kv_empty = \<lparr>kv_data = \<lambda>_. [], kv_applied = None\<rparr>"

fun kv_mutate :: "mutation \<Rightarrow> (column_family \<Rightarrow> (bytes, bytes) omap) \<Rightarrow> column_family \<Rightarrow> (bytes, bytes) omap"
where
  "kv_mutate (Put cf key val) d = d(cf := om_insert key val (d cf))"
| "kv_mutate (Delete cf key) d = d(cf := om_remove key (d cf))"

definition kv_write :: "write_batch \<Rightarrow> kv_state \<Rightarrow> kv_state" where
  "kv_write b a = a\<lparr>kv_data := fold kv_mutate b (kv_data a)\<rparr>"

definition kv_delete_range :: "column_family \<Rightarrow> bytes \<Rightarrow> bytes \<Rightarrow> kv_state \<Rightarrow> kv_state" where
  "kv_delete_range cf start fin a = a\<lparr>kv_data := (kv_data a)
     (cf := filter (\<lambda>e. \<not> (start \<le> fst e \<and> fst e < fin)) (kv_data a cf))\<rparr>"

definition kv_apply :: "write_batch \<Rightarrow> applied_position \<Rightarrow> kv_state \<Rightarrow> kv_state" where
  "kv_apply b at a = (kv_write b a)\<lparr>kv_applied := Some at\<rparr>"

definition kv_advances :: "applied_position \<Rightarrow> kv_state \<Rightarrow> bool" where
  "kv_advances at a \<longleftrightarrow> (case kv_applied a of None \<Rightarrow> True | Some p \<Rightarrow> ap_index p < ap_index at)"

text \<open>A view of the abstract engine: what each read returns.\<close>

definition kv_get :: "kv_state \<Rightarrow> column_family \<Rightarrow> bytes \<Rightarrow> bytes option" where
  "kv_get a cf key = map_of (kv_data a cf) key"

definition kv_scan :: "kv_state \<Rightarrow> column_family \<Rightarrow> bytes \<Rightarrow> bytes \<Rightarrow> nat \<Rightarrow> scan_entry list" where
  "kv_scan a cf start fin limit = take limit (om_range start fin (kv_data a cf))"

definition kv_seek_le :: "kv_state \<Rightarrow> column_family \<Rightarrow> bytes \<Rightarrow> scan_entry option" where
  "kv_seek_le a cf target =
     (case filter (\<lambda>e. fst e \<le> target) (kv_data a cf) of [] \<Rightarrow> None | e # es \<Rightarrow> Some (last (e # es)))"

text \<open>The refusal of a position that does not advance, with its fixed text.\<close>

definition POSITION_REFUSED :: error where
  "POSITION_REFUSED = EngineError ''engine: applied position must advance''"

lemma kv_ok_empty [simp]: "kv_ok kv_empty"
  by (simp add: kv_ok_def kv_empty_def)

lemma kv_mutate_ok: "\<forall>cf. om_ok (d cf) \<Longrightarrow> om_ok (kv_mutate m d cf)"
  by (cases m) auto

lemma kv_mutates_ok: "\<forall>cf. om_ok (d cf) \<Longrightarrow> om_ok (fold kv_mutate b d cf)"
  by (induction b arbitrary: d) (simp_all add: kv_mutate_ok)

lemma kv_ok_write [simp]: "kv_ok a \<Longrightarrow> kv_ok (kv_write b a)"
  by (simp add: kv_ok_def kv_write_def kv_mutates_ok)

lemma kv_ok_apply [simp]: "kv_ok a \<Longrightarrow> kv_ok (kv_apply b at a)"
  by (simp add: kv_apply_def) (simp add: kv_ok_def kv_write_def kv_mutates_ok)

lemma kv_ok_delete_range [simp]: "kv_ok a \<Longrightarrow> kv_ok (kv_delete_range cf start fin a)"
  by (simp add: kv_ok_def kv_delete_range_def)

section \<open>Histories\<close>

datatype engine_op =
    OpWrite write_batch
  | OpWriteApplied write_batch applied_position
  | OpDeleteRange column_family bytes bytes

fun op_range_ok :: "engine_op \<Rightarrow> bool" where
  "op_range_ok (OpDeleteRange cf start fin) \<longleftrightarrow> start \<le> fin"
| "op_range_ok _ \<longleftrightarrow> True"

text \<open>What an operation consumes of 64-bit counters: one version, and at most an entry per mutation.\<close>

fun op_weight :: "engine_op \<Rightarrow> nat" where
  "op_weight (OpWrite b) = Suc (length b)"
| "op_weight (OpWriteApplied b at) = Suc (length b)"
| "op_weight (OpDeleteRange cf start fin) = 1"

definition ops_weight :: "engine_op list \<Rightarrow> nat" where
  "ops_weight ops = sum_list (map op_weight ops)"

fun kv_step :: "kv_state \<Rightarrow> engine_op \<Rightarrow> kv_state \<times> unit result" where
  "kv_step a (OpWrite b) = (kv_write b a, Inr ())"
| "kv_step a (OpWriteApplied b at) =
     (if kv_advances at a then (kv_apply b at a, Inr ()) else (a, Inl POSITION_REFUSED))"
| "kv_step a (OpDeleteRange cf start fin) = (kv_delete_range cf start fin a, Inr ())"

text \<open>
  A sequence of operations with the outcome of each. An outcome that is neither a success nor the
  refusal is a failure of the store itself; the caller stops there. An operation that does not
  return is \<open>None\<close>.
\<close>

definition settled :: "unit result \<Rightarrow> bool" where
  "settled r \<longleftrightarrow> r = Inr () \<or> r = Inl POSITION_REFUSED"

fun run_ops :: "('s \<Rightarrow> engine_op \<Rightarrow> ('s \<times> unit result) option) \<Rightarrow> 's \<Rightarrow> engine_op list
    \<Rightarrow> ('s \<times> unit result list) option" where
  "run_ops step s [] = Some (s, [])"
| "run_ops step s (op # ops) =
     (case step s op of
        None \<Rightarrow> None
      | Some (s1, r) \<Rightarrow>
          if settled r
          then (case run_ops step s1 ops of None \<Rightarrow> None | Some (s2, rs) \<Rightarrow> Some (s2, r # rs))
          else Some (s1, [r]))"

fun engine_step :: "('s \<Rightarrow> write_batch \<Rightarrow> 's \<times> unit result)
    \<Rightarrow> ('s \<Rightarrow> write_batch \<Rightarrow> applied_position \<Rightarrow> 's \<times> unit result)
    \<Rightarrow> ('s \<Rightarrow> column_family \<Rightarrow> bytes \<Rightarrow> bytes \<Rightarrow> ('s \<times> unit result) option)
    \<Rightarrow> 's \<Rightarrow> engine_op \<Rightarrow> ('s \<times> unit result) option" where
  "engine_step wr write_applied delete_range s (OpWrite b) = Some (wr s b)"
| "engine_step wr write_applied delete_range s (OpWriteApplied b at) = Some (write_applied s b at)"
| "engine_step wr write_applied delete_range s (OpDeleteRange cf start fin) =
     delete_range s cf start fin"

text \<open>The abstract history.\<close>

fun kv_run :: "kv_state \<Rightarrow> engine_op list \<Rightarrow> kv_state \<times> unit result list" where
  "kv_run a [] = (a, [])"
| "kv_run a (op # ops) =
     (let (a1, r) = kv_step a op; (a2, rs) = kv_run a1 ops in (a2, r # rs))"

section \<open>The contract\<close>

text \<open>
  \<open>rep n s a\<close>: after operations of total weight \<open>n\<close> the engine state \<open>s\<close> stands for \<open>a\<close>. The
  weight bounds the versions handed out and the entries stored, which the code counts in 64 bits.
\<close>

locale replicated_engine =
  fixes rep :: "nat \<Rightarrow> 's \<Rightarrow> kv_state \<Rightarrow> bool"
    and get :: "'s \<Rightarrow> column_family \<Rightarrow> bytes \<Rightarrow> bytes option result"
    and scan :: "'s \<Rightarrow> column_family \<Rightarrow> bytes \<Rightarrow> bytes \<Rightarrow> nat \<Rightarrow> scan_entry list result option"
    and seek_le :: "'s \<Rightarrow> column_family \<Rightarrow> bytes \<Rightarrow> scan_entry option result option"
    and checksum :: "'s \<Rightarrow> column_family \<Rightarrow> bytes \<Rightarrow> bytes \<Rightarrow> u64 result option"
    and wr :: "'s \<Rightarrow> write_batch \<Rightarrow> 's \<times> unit result"
    and write_applied :: "'s \<Rightarrow> write_batch \<Rightarrow> applied_position \<Rightarrow> 's \<times> unit result"
    and delete_range :: "'s \<Rightarrow> column_family \<Rightarrow> bytes \<Rightarrow> bytes \<Rightarrow> ('s \<times> unit result) option"
  assumes rep_get: "rep n s a \<Longrightarrow> get s cf key = Inr (kv_get a cf key)"
    and rep_scan: "rep n s a \<Longrightarrow> start \<le> fin \<Longrightarrow> scan s cf start fin limit = Some (Inr (kv_scan a cf start fin limit))"
    and rep_seek_le: "rep n s a \<Longrightarrow> seek_le s cf key = Some (Inr (kv_seek_le a cf key))"
    and rep_checksum: "rep n s a \<Longrightarrow> start \<le> fin \<Longrightarrow>
      checksum s cf start fin = Some (Inr (fnv_entries (om_range start fin (kv_data a cf))))"
    and rep_write: "rep n s a \<Longrightarrow> n + Suc (length b) < 2 ^ 64 \<Longrightarrow> wr s b = (s', Inr ()) \<Longrightarrow>
      rep (n + Suc (length b)) s' (kv_write b a)"
    and rep_write_refused: "rep n s a \<Longrightarrow> wr s b \<noteq> (s', Inl POSITION_REFUSED)"
    and rep_write_applied: "rep n s a \<Longrightarrow> n + Suc (length b) < 2 ^ 64 \<Longrightarrow> kv_advances at a \<Longrightarrow>
      write_applied s b at = (s', Inr ()) \<Longrightarrow> rep (n + Suc (length b)) s' (kv_apply b at a)"
    and rep_write_applied_advances: "rep n s a \<Longrightarrow> kv_advances at a \<Longrightarrow>
      write_applied s b at \<noteq> (s', Inl POSITION_REFUSED)"
    and rep_write_applied_refused: "rep n s a \<Longrightarrow> \<not> kv_advances at a \<Longrightarrow>
      write_applied s b at = (s, Inl POSITION_REFUSED)"
    and rep_delete_range: "rep n s a \<Longrightarrow> Suc n < 2 ^ 64 \<Longrightarrow> start \<le> fin \<Longrightarrow>
      delete_range s cf start fin = Some (s', Inr ()) \<Longrightarrow> rep (Suc n) s' (kv_delete_range cf start fin a)"
    and rep_delete_range_refused: "rep n s a \<Longrightarrow> delete_range s cf start fin \<noteq> Some (s', Inl POSITION_REFUSED)"
    and rep_delete_range_returns: "rep n s a \<Longrightarrow> start \<le> fin \<Longrightarrow> delete_range s cf start fin \<noteq> None"
    and rep_mono: "rep n s a \<Longrightarrow> n \<le> n' \<Longrightarrow> rep n' s a"
begin

lemma step_refines:
  assumes "rep n s a" "n + op_weight op < 2 ^ 64" "op_range_ok op"
    and "engine_step wr write_applied delete_range s op = Some (s', r)" "settled r"
  shows "rep (n + op_weight op) s' (fst (kv_step a op)) \<and> r = snd (kv_step a op)"
proof (cases op)
  case (OpWrite b)
  with assms rep_write [of n s a b s'] rep_write_refused [of n s a b s'] show ?thesis
    by (auto simp: settled_def)
next
  case (OpWriteApplied b at)
  with assms rep_write_applied [of n s a b at s'] rep_write_applied_advances [of n s a at b s']
    rep_write_applied_refused [of n s a at b] rep_mono [of n s a "n + op_weight op"] show ?thesis
    by (cases "kv_advances at a") (auto simp: settled_def)
next
  case (OpDeleteRange cf start fin)
  with assms rep_delete_range [of n s a start fin cf s']
    rep_delete_range_refused [of n s a cf start fin s'] show ?thesis
    by (auto simp: settled_def)
qed

lemma step_returns:
  assumes "rep n s a" "op_range_ok op"
  obtains s' r where "engine_step wr write_applied delete_range s op = Some (s', r)"
proof (cases op)
  case (OpDeleteRange cf start fin)
  with assms rep_delete_range_returns [of n s a start fin cf] that show ?thesis by auto
qed (use that in \<open>metis engine_step.simps surj_pair\<close>)+

text \<open>
  Every history returns; and along a history with no failure of the store, the outcomes and the
  state are the abstract ones.
\<close>

lemma run_refines:
  assumes "rep n s a" "n + ops_weight ops < 2 ^ 64" "\<forall>op\<in>set ops. op_range_ok op"
  shows "\<exists>s' rs. run_ops (engine_step wr write_applied delete_range) s ops = Some (s', rs) \<and>
    ((\<forall>r\<in>set rs. settled r) \<longrightarrow>
      rep (n + ops_weight ops) s' (fst (kv_run a ops)) \<and> rs = snd (kv_run a ops))"
  using assms
proof (induction ops arbitrary: n s a)
  case (Cons op ops)
  obtain s1 r where s1: "engine_step wr write_applied delete_range s op = Some (s1, r)"
    using Cons.prems by (auto intro: step_returns [of n s a op])
  show ?case
  proof (cases "settled r")
    case True
    have step: "rep (n + op_weight op) s1 (fst (kv_step a op)) \<and> r = snd (kv_step a op)"
      using Cons.prems s1 True by (intro step_refines) (auto simp: ops_weight_def)
    moreover obtain s' rs where
      "run_ops (engine_step wr write_applied delete_range) s1 ops = Some (s', rs) \<and>
       ((\<forall>r\<in>set rs. settled r) \<longrightarrow> rep (n + op_weight op + ops_weight ops) s' (fst (kv_run (fst (kv_step a op)) ops))
         \<and> rs = snd (kv_run (fst (kv_step a op)) ops))"
      using Cons.IH [of "n + op_weight op" s1 "fst (kv_step a op)"] Cons.prems step by (auto simp: ops_weight_def)
    ultimately show ?thesis using s1 True by (auto simp: case_prod_beta Let_def ops_weight_def add.assoc)
  qed (use s1 in auto)
qed (simp add: ops_weight_def)

end

end
