(* ===== verification/Reader.thy ===== *)
theory Reader
  imports Common
begin

text \<open>
  The bounds-checked reader over entry bytes of \<open>crates/raft/src/command.rs\<close> and the length-prefixed
  byte string it reads back. A reader takes the remaining buffer and returns the value with the
  buffer after it. Every reader is characterised exactly: it returns a value if and only if the
  buffer starts with the encoding of that value. \<open>exact_reader\<close> is that interface, and reading a
  counted sequence is exact whenever reading one element is.
\<close>

section \<open>Readers\<close>

definition TRUNCATED :: error where
  "TRUNCATED = RaftError ''truncated command entry''"

definition rd_u8 :: "bytes \<Rightarrow> (byte \<times> bytes) result" where
  "rd_u8 buf = (case buf of [] \<Rightarrow> Inl TRUNCATED | b # rest \<Rightarrow> Inr (b, rest))"

definition rd_take :: "nat \<Rightarrow> bytes \<Rightarrow> (bytes \<times> bytes) result" where
  "rd_take n buf = (if length buf < n then Inl TRUNCATED else Inr (take n buf, drop n buf))"

definition rd_u32 :: "bytes \<Rightarrow> (u32 \<times> bytes) result" where
  "rd_u32 buf = bind_res (rd_take 4 buf) (\<lambda>(b, buf). Inr (from_be [b ! 0, b ! 1, b ! 2, b ! 3], buf))"

definition rd_u64 :: "bytes \<Rightarrow> (u64 \<times> bytes) result" where
  "rd_u64 buf = bind_res (rd_take 8 buf) (\<lambda>(b, buf). Inr (from_be b, buf))"

definition rd_bytes :: "bytes \<Rightarrow> (bytes \<times> bytes) result" where
  "rd_bytes buf = bind_res (rd_u32 buf) (\<lambda>(n, buf). rd_take (unat n) buf)"

text \<open>The bytes \<open>put_bytes\<close> appends; the length is cast to 32 bits.\<close>

definition len_bytes :: "bytes \<Rightarrow> bytes" where
  "len_bytes b = to_be 4 (of_nat (length b) :: u32) @ b"

text \<open>The body of a \<open>for _ in 0..count\<close> loop that reads one element and pushes it.\<close>

fun rd_many :: "(bytes \<Rightarrow> ('a \<times> bytes) result) \<Rightarrow> nat \<Rightarrow> bytes \<Rightarrow> ('a list \<times> bytes) result" where
  "rd_many rd 0 buf = Inr ([], buf)"
| "rd_many rd (Suc n) buf =
     bind_res (rd buf) (\<lambda>(v, buf). bind_res (rd_many rd n buf) (\<lambda>(vs, buf). Inr (v # vs, buf)))"

section \<open>Exactness\<close>

named_theorems reads "exact characterisations of readers"

lemma rd_u8_iff [reads]: "rd_u8 buf = Inr (v, rest) \<longleftrightarrow> buf = v # rest"
  by (auto simp: rd_u8_def split: list.splits)

lemma rd_take_iff [reads]: "rd_take n buf = Inr (h, rest) \<longleftrightarrow> length h = n \<and> buf = h @ rest"
  by (auto simp: rd_take_def)

lemma nths4: "length b = 4 \<Longrightarrow> [b ! 0, b ! 1, b ! 2, b ! 3] = b"
  by (auto simp: numeral_eq_Suc length_Suc_conv)

lemma rd_u32_iff [reads]: "rd_u32 buf = Inr (w, rest) \<longleftrightarrow> buf = to_be 4 w @ rest"
  by (auto simp: rd_u32_def bind_res_Inr_iff rd_take_iff nths4 to_from_be_widths simp del: One_nat_def)

lemma rd_u64_iff [reads]: "rd_u64 buf = Inr (w, rest) \<longleftrightarrow> buf = to_be 8 w @ rest"
  by (auto simp: rd_u64_def bind_res_Inr_iff rd_take_iff to_from_be_widths)

lemma rd_bytes_iff [reads]: "rd_bytes buf = Inr (x, rest) \<longleftrightarrow> length x < 2 ^ 32 \<and> buf = len_bytes x @ rest"
proof
  assume "rd_bytes buf = Inr (x, rest)"
  then obtain n :: u32 where n: "buf = to_be 4 n @ x @ rest" "length x = unat n"
    by (auto simp: rd_bytes_def bind_res_Inr_iff reads)
  have "length x < 2 ^ 32" using n(2) unat_lt2p [of n] by simp
  then show "length x < 2 ^ 32 \<and> buf = len_bytes x @ rest" using n by (simp add: len_bytes_def)
next
  assume "length x < 2 ^ 32 \<and> buf = len_bytes x @ rest"
  then show "rd_bytes buf = Inr (x, rest)"
    by (auto simp: rd_bytes_def bind_res_Inr_iff reads len_bytes_def unat_of_nat_u32)
qed

lemma rd_code [simp]:
  "rd_u8 (v # rest) = Inr (v, rest)"
  "length h = n \<Longrightarrow> rd_take n (h @ rest) = Inr (h, rest)"
  "rd_u32 (to_be 4 w @ rest) = Inr (w, rest)"
  "rd_u64 (to_be 8 x @ rest) = Inr (x, rest)"
  "length b < 2 ^ 32 \<Longrightarrow> rd_bytes (len_bytes b @ rest) = Inr (b, rest)"
  by (simp_all add: reads)

lemma length_len_bytes [simp]: "length (len_bytes b) = 4 + length b"
  by (simp add: len_bytes_def)

locale exact_reader =
  fixes rd :: "bytes \<Rightarrow> ('a \<times> bytes) result"
    and code :: "'a \<Rightarrow> bytes"
    and ok :: "'a \<Rightarrow> bool"
  assumes exact: "rd buf = Inr (v, rest) \<longleftrightarrow> ok v \<and> buf = code v @ rest"
begin

lemma many_exact:
  "rd_many rd n buf = Inr (vs, rest) \<longleftrightarrow> length vs = n \<and> list_all ok vs \<and> buf = concat (map code vs) @ rest"
proof (induction n arbitrary: buf vs)
  case (Suc n)
  show ?case
    by (cases vs) (auto simp: bind_res_Inr_iff exact Suc.IH)
qed auto

lemma reads_code: "ok v \<Longrightarrow> rd (code v @ rest) = Inr (v, rest)"
  by (simp add: exact)

lemma reads_many: "list_all ok vs \<Longrightarrow> rd_many rd (length vs) (concat (map code vs) @ rest) = Inr (vs, rest)"
  by (simp add: many_exact)

text \<open>A 32-bit count followed by that many elements.\<close>

lemma counted_exact:
  "bind_res (rd_u32 buf) (\<lambda>(n, buf). rd_many rd (unat n) buf) = Inr (vs, rest) \<longleftrightarrow>
   length vs < 2 ^ 32 \<and> list_all ok vs \<and> buf = to_be 4 (of_nat (length vs) :: u32) @ concat (map code vs) @ rest"
  (is "?l = _ \<longleftrightarrow> ?r")
proof
  assume "?l = Inr (vs, rest)"
  then obtain n :: u32 where n: "buf = to_be 4 n @ concat (map code vs) @ rest" "length vs = unat n" "list_all ok vs"
    by (auto simp: bind_res_Inr_iff reads many_exact)
  have "length vs < 2 ^ 32" using n(2) unat_lt2p [of n] by simp
  then show ?r using n by simp
next
  assume ?r
  then show "?l = Inr (vs, rest)" by (auto simp: bind_res_Inr_iff reads many_exact unat_of_nat_u32)
qed

end

lemma exact_readerI:
  assumes "\<And>buf v rest. rd buf = Inr (v, rest) \<Longrightarrow> ok v \<and> buf = code v @ rest"
    and "\<And>v rest. ok v \<Longrightarrow> rd (code v @ rest) = Inr (v, rest)"
  shows "exact_reader rd code ok"
  by unfold_locales (use assms in blast)

interpretation u64_reader: exact_reader rd_u64 "to_be 8" "\<lambda>_. True"
  by unfold_locales (simp add: rd_u64_iff)

interpretation bytes_reader: exact_reader rd_bytes len_bytes "\<lambda>x. length x < 2 ^ 32"
  by unfold_locales (rule rd_bytes_iff)

end
