(* ===== verification/Checkpoint.thy ===== *)
theory Checkpoint
  imports EngineContract Reader
begin

text \<open>
  The checkpoint manifest of \<open>crates/engine/src/checkpoint.rs\<close> and
  \<open>checkpoint/manifest_codec.rs\<close>: the replicated description of the sorted files that hold a
  region's data up to a log position. A \<open>String\<close> is the list of its UTF-8 bytes. The JSON library
  is the parameter \<open>json_ops\<close>: \<open>js_pieces\<close> is the sequence of buffers its serialiser writes, \<open>js_fails\<close>
  says that it then stops with an error of its own, and \<open>js_from_slice\<close> is its parser (\<open>None\<close> for a parse
  error); \<open>js_reserve\<close> says whether the allocator grants the output a capacity. SHA-256 is the parameter
  \<open>sha256\<close>.
\<close>

section \<open>Data\<close>

definition CHECKPOINT_PREFIX :: bytes where
  "CHECKPOINT_PREFIX = [0x4b, 0x56, 0x39, 0x43, 0x48, 0x45, 0x43, 0x4b, 0x50, 0x4f, 0x49, 0x4e, 0x54]"

definition CP_MAGIC :: bytes where
  "CP_MAGIC = [0x4b, 0x56, 0x39, 0x43, 0x48, 0x45, 0x43, 0x4b, 0x50, 0x4f, 0x49, 0x4e, 0x54, 1]"

definition LARGE_MAGIC :: bytes where
  "LARGE_MAGIC = [0x4b, 0x56, 0x39, 0x43, 0x48, 0x45, 0x43, 0x4b, 0x50, 0x4f, 0x49, 0x4e, 0x54, 2]"

definition MAX_CHECKPOINT_BYTES :: nat where
  "MAX_CHECKPOINT_BYTES = 48 * 1024 * 1024"

definition MAX_STREAMED_SSTS :: nat where
  "MAX_STREAMED_SSTS = 64"

definition MAX_MANIFEST_BYTES :: nat where
  "MAX_MANIFEST_BYTES = 1024 * 1024"

record flush_scope =
  fs_cluster :: bytes
  fs_region :: u64
  fs_conf_ver :: u64
  fs_version :: u64

record sst_reference =
  sr_key :: bytes
  sr_sha256 :: bytes
  sr_cf :: byte
  sr_smallest :: bytes
  sr_largest :: bytes
  sr_size :: u64
  sr_count :: u64

record checkpoint_manifest =
  cm_scope :: flush_scope
  cm_term :: u64
  cm_index :: u64
  cm_files :: "sst_reference list"

record json_ops =
  js_pieces :: "checkpoint_manifest \<Rightarrow> bytes list"
  js_fails :: "checkpoint_manifest \<Rightarrow> bool"
  js_reserve :: "nat \<Rightarrow> bool"
  js_from_slice :: "bytes \<Rightarrow> checkpoint_manifest option"

section \<open>Encoding\<close>

definition cm_position :: "checkpoint_manifest \<Rightarrow> applied_position" where
  "cm_position m = \<lparr>ap_term = cm_term m, ap_index = cm_index m\<rparr>"

definition is_checkpoint :: "bytes \<Rightarrow> bool" where
  "is_checkpoint b = starts_with b CHECKPOINT_PREFIX"

fun total_size :: "u64 \<Rightarrow> sst_reference list \<Rightarrow> u64 result" where
  "total_size acc [] = Inr acc"
| "total_size acc (file # files) =
     (case checked_add acc (sr_size file) of
        None \<Rightarrow> Inl (EngineError ''checkpoint size overflow'')
      | Some acc \<Rightarrow> total_size acc files)"

definition requires_large_format :: "checkpoint_manifest \<Rightarrow> bool result" where
  "requires_large_format m =
     bind_res (total_size 0 (cm_files m)) (\<lambda>tot. Inr (tot > of_nat MAX_CHECKPOINT_BYTES))"

record bounded_output =
  bo_bytes :: bytes
  bo_capacity :: nat
  bo_exceeded :: bool

definition bounded_new :: bounded_output where
  "bounded_new = \<lparr>bo_bytes = [], bo_capacity = 0, bo_exceeded = False\<rparr>"

definition CODEC_ERROR :: error where
  "CODEC_ERROR = EngineError ''checkpoint codec''"

text \<open>One write: refused over the limit, failed when the buffer cannot grow.\<close>

definition bounded_write :: "json_ops \<Rightarrow> nat \<Rightarrow> bounded_output \<Rightarrow> bytes \<Rightarrow> bounded_output \<times> unit result" where
  "bounded_write J limit out p =
     (let fin = length (bo_bytes out) + length p in
      if \<not> (fin < 2 ^ 64 \<and> fin \<le> limit) then (out\<lparr>bo_exceeded := True\<rparr>, Inl CODEC_ERROR)
      else if fin > bo_capacity out then
        let capacity = min (max (min (bo_capacity out * 2) (2 ^ 64 - 1)) fin) limit in
        if js_reserve J capacity then (out\<lparr>bo_bytes := bo_bytes out @ p, bo_capacity := capacity\<rparr>, Inr ())
        else (out, Inl CODEC_ERROR)
      else (out\<lparr>bo_bytes := bo_bytes out @ p\<rparr>, Inr ()))"

fun bounded_write_all :: "json_ops \<Rightarrow> nat \<Rightarrow> bounded_output \<Rightarrow> bytes list \<Rightarrow> bounded_output \<times> unit result" where
  "bounded_write_all J limit out [] = (out, Inr ())"
| "bounded_write_all J limit out (p # ps) =
     (case bounded_write J limit out p of
        (out, Inl e) \<Rightarrow> (out, Inl e)
      | (out, Inr _) \<Rightarrow> bounded_write_all J limit out ps)"

definition encode_frame :: "json_ops \<Rightarrow> checkpoint_manifest \<Rightarrow> nat \<Rightarrow> bytes \<Rightarrow> bytes result" where
  "encode_frame J m limit magic =
     (case bounded_write_all J limit bounded_new (magic # js_pieces J m) of
        (out, encoded) \<Rightarrow>
          if bo_exceeded out then Inl (EngineError ''checkpoint manifest too large'')
          else bind_res encoded (\<lambda>_. if js_fails J m then Inl CODEC_ERROR else Inr (bo_bytes out)))"

definition cm_encode :: "json_ops \<Rightarrow> checkpoint_manifest \<Rightarrow> bytes result" where
  "cm_encode J m =
     bind_res (requires_large_format m) (\<lambda>large.
       encode_frame J m MAX_MANIFEST_BYTES (if large then LARGE_MAGIC else CP_MAGIC))"

section \<open>Decoding\<close>

text \<open>\<open>format!("\{\}", n)\<close> for an unsigned integer.\<close>

fun dec_digits :: "nat \<Rightarrow> bytes" where
  "dec_digits n = (if n < 10 then [of_nat (48 + n)] else dec_digits (n div 10) @ [of_nat (48 + n mod 10)])"

declare dec_digits.simps [simp del]

definition object_name :: "flush_scope \<Rightarrow> bytes \<Rightarrow> bytes" where
  "object_name scope hash =
     [0x63, 0x6c, 0x75, 0x73, 0x74, 0x65, 0x72, 0x73, 0x2f] @ fs_cluster scope
     @ [0x2f, 0x72, 0x65, 0x67, 0x69, 0x6f, 0x6e, 0x73, 0x2f] @ dec_digits (unat (fs_region scope))
     @ [0x2f, 0x73, 0x73, 0x74, 0x2f] @ hash"

definition lower_hex :: "byte \<Rightarrow> bool" where
  "lower_hex b \<longleftrightarrow> 0x30 \<le> b \<and> b \<le> 0x39 \<or> 0x61 \<le> b \<and> b \<le> 0x66"

definition file_bad :: "bool \<Rightarrow> flush_scope \<Rightarrow> u64 \<Rightarrow> sst_reference option \<Rightarrow> sst_reference \<Rightarrow> bool" where
  "file_bad large scope tot previous file \<longleftrightarrow>
     sr_cf file > 2 \<or> sr_count file = 0 \<or> sr_smallest file > sr_largest file
     \<or> length (sr_sha256 file) \<noteq> 64 \<or> \<not> list_all lower_hex (sr_sha256 file)
     \<or> sr_key file \<noteq> object_name scope (sr_sha256 file)
     \<or> sr_size file > of_nat MAX_CHECKPOINT_BYTES
     \<or> \<not> large \<and> tot > of_nat MAX_CHECKPOINT_BYTES
     \<or> (case previous of None \<Rightarrow> False
        | Some p \<Rightarrow> sr_cf p > sr_cf file \<or> sr_cf p = sr_cf file \<and> sr_largest p \<ge> sr_smallest file)"

fun check_files :: "bool \<Rightarrow> flush_scope \<Rightarrow> u64 \<Rightarrow> sst_reference option \<Rightarrow> sst_reference list \<Rightarrow> u64 result" where
  "check_files large scope tot previous [] = Inr tot"
| "check_files large scope tot previous (file # files) =
     (case checked_add tot (sr_size file) of
        None \<Rightarrow> Inl (EngineError ''checkpoint size overflow'')
      | Some tot \<Rightarrow>
          if file_bad large scope tot previous file
          then Inl (EngineError ''invalid checkpoint SST references'')
          else check_files large scope tot (Some file) files)"

definition cm_decode :: "json_ops \<Rightarrow> bytes \<Rightarrow> checkpoint_manifest result" where
  "cm_decode J b =
     (let large = starts_with b LARGE_MAGIC in
      if \<not> large \<and> \<not> starts_with b CP_MAGIC \<or> length b > MAX_MANIFEST_BYTES
      then Inl (EngineError ''invalid checkpoint manifest version or size'')
      else case js_from_slice J (drop (length CP_MAGIC) b) of
        None \<Rightarrow> Inl (EngineError ''checkpoint codec'')
      | Some m \<Rightarrow>
          if cm_index m = 0 \<or> cm_term m = 0 \<or> fs_cluster (cm_scope m) = [] \<or> cm_files m = []
          then Inl (EngineError ''invalid empty checkpoint'')
          else bind_res (check_files large (cm_scope m) 0 None (cm_files m)) (\<lambda>tot.
            if large \<and> (tot \<le> of_nat MAX_CHECKPOINT_BYTES \<or> length (cm_files m) > MAX_STREAMED_SSTS)
            then Inl (EngineError ''invalid large checkpoint shape'')
            else Inr m))"

definition cm_decode_legacy :: "json_ops \<Rightarrow> bytes \<Rightarrow> checkpoint_manifest result" where
  "cm_decode_legacy J b =
     (if \<not> starts_with b CP_MAGIC
      then Inl (EngineError ''legacy checkpoint command requires V1 manifest'')
      else cm_decode J b)"

definition cm_change_id :: "(bytes \<Rightarrow> digest) \<Rightarrow> json_ops \<Rightarrow> checkpoint_manifest \<Rightarrow> u64 \<Rightarrow> bytes result" where
  "cm_change_id sha256 J m generation =
     bind_res (cm_encode J m) (\<lambda>enc.
       Inr (to_be 32 (sha256
         ([0x6b, 0x76, 0x39, 0x2d, 0x6d, 0x61, 0x6e, 0x69, 0x66, 0x65, 0x73, 0x74, 0x2d, 0x76, 0x31]
          @ to_be 8 generation @ enc))))"

definition covers_effect :: "checkpoint_manifest \<Rightarrow> checkpoint_manifest \<Rightarrow> bool" where
  "covers_effect m intended \<longleftrightarrow>
     cm_scope m = cm_scope intended \<and> cm_index intended \<le> cm_index m
     \<and> list_all (\<lambda>f. list_ex (\<lambda>a. a = f) (cm_files m)) (cm_files intended)"

section \<open>Accepted manifests\<close>

text \<open>
  What an accepted manifest promises: a position, a cluster, and a non-empty list of files, each well
  formed and named by its own digest, in column-family order with pairwise disjoint key ranges
  inside a family; and the number of files is bounded once the data outgrows the first format.
\<close>

definition file_ok :: "flush_scope \<Rightarrow> sst_reference \<Rightarrow> bool" where
  "file_ok scope f \<longleftrightarrow>
     sr_cf f \<le> 2 \<and> sr_count f \<noteq> 0 \<and> sr_smallest f \<le> sr_largest f \<and> length (sr_sha256 f) = 64
     \<and> list_all lower_hex (sr_sha256 f) \<and> sr_key f = object_name scope (sr_sha256 f)
     \<and> sr_size f \<le> of_nat MAX_CHECKPOINT_BYTES"

definition file_before :: "sst_reference \<Rightarrow> sst_reference \<Rightarrow> bool" where
  "file_before p f \<longleftrightarrow> sr_cf p < sr_cf f \<or> sr_cf p = sr_cf f \<and> sr_largest p < sr_smallest f"

definition files_size :: "sst_reference list \<Rightarrow> nat" where
  "files_size fs = sum_list (map (\<lambda>f. unat (sr_size f)) fs)"

definition cm_valid :: "checkpoint_manifest \<Rightarrow> bool" where
  "cm_valid m \<longleftrightarrow>
     cm_index m \<noteq> 0 \<and> cm_term m \<noteq> 0 \<and> fs_cluster (cm_scope m) \<noteq> [] \<and> cm_files m \<noteq> []
     \<and> list_all (file_ok (cm_scope m)) (cm_files m) \<and> sorted_wrt file_before (cm_files m)
     \<and> files_size (cm_files m) < 2 ^ 64
     \<and> (files_size (cm_files m) \<le> MAX_CHECKPOINT_BYTES \<or> length (cm_files m) \<le> MAX_STREAMED_SSTS)"

lemma file_before_trans:
  "file_before p f \<Longrightarrow> file_ok scope f \<Longrightarrow> file_before f g \<Longrightarrow> file_before p g"
  by (auto simp: file_before_def file_ok_def)

lemma unat_max_checkpoint [simp]: "unat (of_nat MAX_CHECKPOINT_BYTES :: u64) = MAX_CHECKPOINT_BYTES"
  by (simp add: MAX_CHECKPOINT_BYTES_def)

lemma file_bad_iff:
  "\<not> file_bad large scope tot previous f \<longleftrightarrow>
     file_ok scope f \<and> (large \<or> unat tot \<le> MAX_CHECKPOINT_BYTES)
     \<and> (\<forall>p. previous = Some p \<longrightarrow> file_before p f)"
  by (cases previous)
    (auto simp: file_bad_def file_ok_def file_before_def not_less not_le word_le_nat_alt [of tot])

lemma total_size_iff:
  "total_size s fs = Inr t \<longleftrightarrow> unat t = unat s + files_size fs"
proof (induction fs arbitrary: s)
  case Nil
  then show ?case by (auto simp: files_size_def word_unat_eq_iff)
next
  case (Cons f fs)
  show ?case
  proof (cases "checked_add s (sr_size f)")
    case None
    then have "2 ^ 64 \<le> unat s + unat (sr_size f)" by (auto simp: checked_add_def split: if_splits)
    with None unat_lt2p [of t] show ?thesis by (auto simp: files_size_def)
  next
    case (Some u)
    with checked_add_SomeD [OF Some] Cons.IH [of u] show ?thesis
      by (simp add: files_size_def add.assoc)
  qed
qed

lemma check_files_iff:
  "check_files large scope s previous fs = Inr t \<longleftrightarrow>
     unat t = unat s + files_size fs \<and> list_all (file_ok scope) fs
     \<and> (fs = [] \<or> large \<or> unat t \<le> MAX_CHECKPOINT_BYTES)
     \<and> successively file_before ((case previous of None \<Rightarrow> [] | Some p \<Rightarrow> [p]) @ fs)"
proof (induction fs arbitrary: s previous)
  case Nil
  then show ?case by (auto simp: files_size_def word_unat_eq_iff split: option.splits)
next
  case (Cons f fs)
  show ?case
  proof (cases "checked_add s (sr_size f)")
    case None
    then have "2 ^ 64 \<le> unat s + unat (sr_size f)" by (auto simp: checked_add_def split: if_splits)
    with None unat_lt2p [of t] show ?thesis by (auto simp: files_size_def)
  next
    case (Some u)
    have u: "unat u = unat s + unat (sr_size f)" by (rule checked_add_SomeD [OF Some])
    show ?thesis
    proof (cases "file_bad large scope u previous f")
      case True
      with Some u show ?thesis
        using file_bad_iff [of large scope u previous f]
        by (auto simp: files_size_def split: option.splits)
    next
      case False
      with Some u Cons.IH [of u "Some f"] show ?thesis
        using file_bad_iff [of large scope u previous f]
        by (auto simp: files_size_def split: option.splits)
    qed
  qed
qed

lemma successively_disjoint:
  "list_all (file_ok scope) fs \<Longrightarrow> successively file_before fs \<longleftrightarrow> sorted_wrt file_before fs"
proof (induction fs rule: induct_list012)
  case (3 f g fs)
  have "file_before f h" if "file_before f g" "sorted_wrt file_before (g # fs)" "h \<in> set fs" for h
    using that 3(3) file_before_trans [of f g scope h] by simp
  with 3 show ?case by auto
qed auto

lemma bounded_write_all_Inr:
  "bounded_write_all J limit out ps = (out', Inr ()) \<Longrightarrow> length (bo_bytes out) \<le> limit \<Longrightarrow>
     bo_bytes out' = bo_bytes out @ concat ps \<and> length (bo_bytes out @ concat ps) \<le> limit \<and> bo_exceeded out' = bo_exceeded out"
proof (induction ps arbitrary: out)
  case (Cons p ps)
  then obtain out1 where w: "bounded_write J limit out p = (out1, Inr ())"
    and rest: "bounded_write_all J limit out1 ps = (out', Inr ())" by (auto split: prod.splits sum.splits)
  from w have "bo_bytes out1 = bo_bytes out @ p" "length (bo_bytes out1) \<le> limit" "bo_exceeded out1 = bo_exceeded out"
    by (auto simp: bounded_write_def Let_def split: if_splits)
  with Cons.IH [OF rest] show ?case by simp
qed simp

lemma bounded_write_all_fits:
  assumes "\<And>n. js_reserve J n" "length (bo_bytes out @ concat ps) \<le> limit" "limit < 2 ^ 64"
  shows "\<exists>out'. bounded_write_all J limit out ps = (out', Inr ())"
  using assms(2)
proof (induction ps arbitrary: out)
  case (Cons p ps)
  then have "\<exists>out1. bounded_write J limit out p = (out1, Inr ()) \<and> bo_bytes out1 = bo_bytes out @ p"
    using assms(1,3) by (auto simp: bounded_write_def Let_def)
  with Cons show ?case by auto
qed simp

lemma encode_frame_Inr:
  assumes "encode_frame J m limit magic = Inr b"
  shows "b = magic @ concat (js_pieces J m)" "length b \<le> limit"
proof -
  from assms obtain out where "bounded_write_all J limit bounded_new (magic # js_pieces J m) = (out, Inr ())" "b = bo_bytes out"
    by (auto simp: encode_frame_def bind_res_Inr_iff split: prod.splits if_splits simp del: bounded_write_all.simps)
  with bounded_write_all_Inr [of J limit bounded_new "magic # js_pieces J m" out]
  show "b = magic @ concat (js_pieces J m)" "length b \<le> limit"
    by (simp_all add: bounded_new_def del: bounded_write_all.simps)
qed

lemma encode_frame_fits:
  assumes "\<And>n. js_reserve J n" "\<not> js_fails J m" "length (magic @ concat (js_pieces J m)) \<le> limit" "limit < 2 ^ 64"
  shows "encode_frame J m limit magic = Inr (magic @ concat (js_pieces J m))"
proof -
  from bounded_write_all_fits [OF assms(1), of bounded_new "magic # js_pieces J m" limit] assms(3,4)
  obtain out where w: "bounded_write_all J limit bounded_new (magic # js_pieces J m) = (out, Inr ())"
    by (auto simp: bounded_new_def simp del: bounded_write_all.simps)
  from bounded_write_all_Inr [OF this] w assms(2) show ?thesis
    by (simp add: encode_frame_def bounded_new_def del: bounded_write_all.simps)
qed

lemma large_format_iff:
  "requires_large_format m = Inr large \<longleftrightarrow>
     files_size (cm_files m) < 2 ^ 64 \<and> large = (MAX_CHECKPOINT_BYTES < files_size (cm_files m))"
proof (cases "files_size (cm_files m) < 2 ^ 64")
  case True
  have "total_size 0 (cm_files m) = Inr t \<longleftrightarrow> t = of_nat (files_size (cm_files m))" for t
    using True by (auto simp: total_size_iff unat_of_nat_u64 word_unat_eq_iff)
  with True show ?thesis
    by (auto simp: requires_large_format_def bind_res_Inr_iff word_less_nat_alt unat_of_nat_u64)
next
  case False
  then have "total_size 0 (cm_files m) \<noteq> Inr t" for t
    using unat_lt2p [of t] by (simp add: total_size_iff)
  with False show ?thesis by (auto simp: requires_large_format_def bind_res_Inr_iff)
qed

lemma magic_starts [simp]:
  "starts_with (CP_MAGIC @ x) CP_MAGIC" "starts_with (LARGE_MAGIC @ x) LARGE_MAGIC"
  "\<not> starts_with (CP_MAGIC @ x) LARGE_MAGIC" "\<not> starts_with (LARGE_MAGIC @ x) CP_MAGIC"
  by (simp_all add: starts_with_def CP_MAGIC_def LARGE_MAGIC_def)

lemma length_cp_magics [simp]: "length CP_MAGIC = 14" "length LARGE_MAGIC = 14"
  by (simp_all add: CP_MAGIC_def LARGE_MAGIC_def)

lemma cm_decode_iff:
  "cm_decode J b = Inr m \<longleftrightarrow>
     (starts_with b LARGE_MAGIC \<or> starts_with b CP_MAGIC) \<and> length b \<le> MAX_MANIFEST_BYTES
     \<and> js_from_slice J (drop 14 b) = Some m \<and> cm_valid m
     \<and> requires_large_format m = Inr (starts_with b LARGE_MAGIC)"
  (is "?l \<longleftrightarrow> ?r")
proof -
  let ?large = "starts_with b LARGE_MAGIC"
  have c: "check_files ?large (cm_scope m) 0 None (cm_files m) = Inr t \<longleftrightarrow>
      unat t = files_size (cm_files m) \<and> list_all (file_ok (cm_scope m)) (cm_files m)
      \<and> (cm_files m = [] \<or> ?large \<or> unat t \<le> MAX_CHECKPOINT_BYTES) \<and> sorted_wrt file_before (cm_files m)" for t
    using successively_disjoint [of "cm_scope m" "cm_files m"]
    by (simp add: check_files_iff) blast
  have t: "(\<exists>t :: u64. unat t = n \<and> P (unat t)) \<longleftrightarrow> n < 2 ^ 64 \<and> P n" for n P
    using unat_lt2p [where 'a = 64] unat_of_nat_u64 [of n] by auto
  have "?l \<longleftrightarrow> (?large \<or> starts_with b CP_MAGIC) \<and> length b \<le> MAX_MANIFEST_BYTES
      \<and> js_from_slice J (drop 14 b) = Some m
      \<and> cm_index m \<noteq> 0 \<and> cm_term m \<noteq> 0 \<and> fs_cluster (cm_scope m) \<noteq> [] \<and> cm_files m \<noteq> []
      \<and> (\<exists>t. check_files ?large (cm_scope m) 0 None (cm_files m) = Inr t
           \<and> \<not> (?large \<and> (unat t \<le> MAX_CHECKPOINT_BYTES \<or> length (cm_files m) > MAX_STREAMED_SSTS)))"
    by (auto simp: cm_decode_def Let_def bind_res_Inr_iff word_le_nat_alt split: option.splits if_splits)
  then show ?thesis
    unfolding c using t [of "files_size (cm_files m)" "\<lambda>n. (cm_files m = [] \<or> ?large \<or> n \<le> MAX_CHECKPOINT_BYTES) \<and>
      \<not> (?large \<and> (n \<le> MAX_CHECKPOINT_BYTES \<or> length (cm_files m) > MAX_STREAMED_SSTS))"]
    by (auto simp: cm_valid_def large_format_iff)
qed

section \<open>The JSON library\<close>

text \<open>
  The parser reads back what the serialiser wrote, for the outputs that fit the manifest limit.
\<close>

locale json_laws =
  fixes J :: json_ops
  assumes read_back: "length (concat (js_pieces J m)) \<le> MAX_MANIFEST_BYTES \<Longrightarrow>
    js_from_slice J (concat (js_pieces J m)) = Some m"
begin

lemma encoded_image:
  assumes "cm_encode J m = Inr b"
  shows "js_from_slice J (drop 14 b) = Some m \<and> length b \<le> MAX_MANIFEST_BYTES
    \<and> (starts_with b LARGE_MAGIC \<or> starts_with b CP_MAGIC)
    \<and> requires_large_format m = Inr (starts_with b LARGE_MAGIC)"
proof -
  from assms obtain large where l: "requires_large_format m = Inr large"
    and e: "encode_frame J m MAX_MANIFEST_BYTES (if large then LARGE_MAGIC else CP_MAGIC) = Inr b"
    by (auto simp: cm_encode_def bind_res_Inr_iff)
  note b = encode_frame_Inr(1) [OF e] and len = encode_frame_Inr(2) [OF e]
  have "length (concat (js_pieces J m)) \<le> MAX_MANIFEST_BYTES" using b len by simp
  from read_back [OF this] show ?thesis using l len by (simp add: b)
qed

lemma decode_encoded: "cm_encode J m = Inr b \<Longrightarrow> cm_decode J b = Inr m \<longleftrightarrow> cm_valid m"
  using encoded_image [of m b] by (auto simp: cm_decode_iff)

end

text \<open>An instance: a flat binary rendering of the manifest, one buffer per field.\<close>

definition file_code :: "sst_reference \<Rightarrow> bytes" where
  "file_code f = len_bytes (sr_key f) @ len_bytes (sr_sha256 f) @ sr_cf f # len_bytes (sr_smallest f)
     @ len_bytes (sr_largest f) @ to_be 8 (sr_size f) @ to_be 8 (sr_count f)"

definition rd_file :: "bytes \<Rightarrow> (sst_reference \<times> bytes) result" where
  "rd_file buf =
     bind_res (rd_bytes buf) (\<lambda>(key, buf).
     bind_res (rd_bytes buf) (\<lambda>(sha, buf).
     bind_res (rd_u8 buf) (\<lambda>(cf, buf).
     bind_res (rd_bytes buf) (\<lambda>(smallest, buf).
     bind_res (rd_bytes buf) (\<lambda>(largest, buf).
     bind_res (rd_u64 buf) (\<lambda>(size, buf).
     bind_res (rd_u64 buf) (\<lambda>(count, buf).
       Inr (\<lparr>sr_key = key, sr_sha256 = sha, sr_cf = cf, sr_smallest = smallest, sr_largest = largest,
             sr_size = size, sr_count = count\<rparr>, buf))))))))"

definition file_short :: "sst_reference \<Rightarrow> bool" where
  "file_short f \<longleftrightarrow> length (sr_key f) < 2 ^ 32 \<and> length (sr_sha256 f) < 2 ^ 32
     \<and> length (sr_smallest f) < 2 ^ 32 \<and> length (sr_largest f) < 2 ^ 32"

interpretation file_reader: exact_reader rd_file file_code file_short
proof (rule exact_readerI)
  show "rd_file buf = Inr (f, rest) \<Longrightarrow> file_short f \<and> buf = file_code f @ rest" for buf f rest
    by (auto simp: rd_file_def bind_res_Inr_iff reads file_code_def file_short_def)
  show "file_short f \<Longrightarrow> rd_file (file_code f @ rest) = Inr (f, rest)" for f rest
    by (simp add: rd_file_def file_code_def file_short_def)
qed

definition flat_pieces :: "checkpoint_manifest \<Rightarrow> bytes list" where
  "flat_pieces m =
     [len_bytes (fs_cluster (cm_scope m)), to_be 8 (fs_region (cm_scope m)), to_be 8 (fs_conf_ver (cm_scope m)),
      to_be 8 (fs_version (cm_scope m)), to_be 8 (cm_term m), to_be 8 (cm_index m),
      to_be 4 (of_nat (length (cm_files m)) :: u32)] @ map file_code (cm_files m)"

definition rd_manifest :: "bytes \<Rightarrow> (checkpoint_manifest \<times> bytes) result" where
  "rd_manifest buf =
     bind_res (rd_bytes buf) (\<lambda>(cluster, buf).
     bind_res (rd_u64 buf) (\<lambda>(region, buf).
     bind_res (rd_u64 buf) (\<lambda>(conf_ver, buf).
     bind_res (rd_u64 buf) (\<lambda>(version, buf).
     bind_res (rd_u64 buf) (\<lambda>(term, buf).
     bind_res (rd_u64 buf) (\<lambda>(index, buf).
     bind_res (bind_res (rd_u32 buf) (\<lambda>(n, buf). rd_many rd_file (unat n) buf)) (\<lambda>(files, buf).
       Inr (\<lparr>cm_scope = \<lparr>fs_cluster = cluster, fs_region = region, fs_conf_ver = conf_ver, fs_version = version\<rparr>,
             cm_term = term, cm_index = index, cm_files = files\<rparr>, buf))))))))"

definition flat_json :: json_ops where
  "flat_json = \<lparr>js_pieces = flat_pieces, js_fails = \<lambda>_. False, js_reserve = \<lambda>_. True,
     js_from_slice = \<lambda>b. case rd_manifest b of Inr (m, []) \<Rightarrow> Some m | _ \<Rightarrow> None\<rparr>"

lemma file_short_bound: "length (file_code f) \<le> MAX_MANIFEST_BYTES \<Longrightarrow> file_short f"
  by (simp add: file_code_def file_short_def MAX_MANIFEST_BYTES_def)

lemma files_short_bound:
  "length (concat (map file_code fs)) \<le> MAX_MANIFEST_BYTES \<Longrightarrow> list_all file_short fs \<and> length fs \<le> length (concat (map file_code fs))"
proof (induction fs)
  case (Cons f fs)
  moreover have "0 < length (file_code f)" by (simp add: file_code_def)
  ultimately show ?case using file_short_bound [of f] by (simp del: length_greater_0_conv)
qed simp

interpretation flat: json_laws flat_json
proof
  fix m
  assume "length (concat (js_pieces flat_json m)) \<le> MAX_MANIFEST_BYTES"
  then have len: "length (fs_cluster (cm_scope m)) \<le> MAX_MANIFEST_BYTES"
      "length (concat (map file_code (cm_files m))) \<le> MAX_MANIFEST_BYTES"
    by (simp_all add: flat_json_def flat_pieces_def)
  have fs: "list_all file_short (cm_files m)" "length (cm_files m) < 2 ^ 32"
    using files_short_bound [OF len(2)] len(2) by (simp_all add: MAX_MANIFEST_BYTES_def)
  have "length (fs_cluster (cm_scope m)) < 2 ^ 32" using len(1) by (simp add: MAX_MANIFEST_BYTES_def)
  then have "rd_manifest (concat (flat_pieces m)) = Inr (m, [])"
    using file_reader.reads_many [OF fs(1), of "[]"] fs(2)
    by (simp add: rd_manifest_def flat_pieces_def unat_of_nat_u32)
  then show "js_from_slice flat_json (concat (js_pieces flat_json m)) = Some m"
    by (simp add: flat_json_def)
qed

text \<open>
  C36. The manifest codec is exact. An image the encoder produced decodes to its manifest precisely when
  the manifest satisfies the format's conditions; an accepted image carries the version byte that
  its total size calls for, so a first-version command never holds a large image nor the reverse,
  and the key ranges of two files of one column family never overlap.
\<close>

theorem checkpoint_manifest_exact:
  assumes "json_laws J" and "cm_encode J m = Inr b"
  shows "(cm_decode J b = Inr m \<longleftrightarrow> cm_valid m)
    \<and> (cm_decode J b' = Inr m' \<longrightarrow>
         requires_large_format m' = Inr (starts_with b' LARGE_MAGIC)
       \<and> (\<forall>i j. i < j \<and> j < length (cm_files m') \<and> sr_cf (cm_files m' ! i) = sr_cf (cm_files m' ! j) \<longrightarrow>
            sr_largest (cm_files m' ! i) < sr_smallest (cm_files m' ! j)))"
proof -
  have "file_before (cm_files m' ! i) (cm_files m' ! j)" if "cm_valid m'" "i < j" "j < length (cm_files m')" for i j
    using that sorted_wrt_nth_less [of file_before "cm_files m'" i j] by (simp add: cm_valid_def)
  then show ?thesis
    using json_laws.decode_encoded [OF assms] by (fastforce simp: cm_decode_iff file_before_def)
qed

definition cm_sample :: checkpoint_manifest where
  "cm_sample = \<lparr>cm_scope = \<lparr>fs_cluster = [0x63], fs_region = 9, fs_conf_ver = 1, fs_version = 1\<rparr>,
     cm_term = 1, cm_index = 10,
     cm_files = [\<lparr>sr_key = [0x63, 0x6c, 0x75, 0x73, 0x74, 0x65, 0x72, 0x73, 0x2f, 0x63,
         0x2f, 0x72, 0x65, 0x67, 0x69, 0x6f, 0x6e, 0x73, 0x2f, 0x39, 0x2f, 0x73, 0x73, 0x74, 0x2f]
         @ replicate 64 0x30,
       sr_sha256 = replicate 64 0x30, sr_cf = 0, sr_smallest = [0x61], sr_largest = [0x7a],
       sr_size = 100, sr_count = 2\<rparr>]\<rparr>"

lemma cm_sample_valid: "cm_valid cm_sample"
  by (simp add: cm_valid_def cm_sample_def file_ok_def files_size_def object_name_def dec_digits.simps
      MAX_CHECKPOINT_BYTES_def list_all_iff lower_hex_def)

lemma cm_sample_encodes:
  "cm_encode flat_json cm_sample = Inr (CP_MAGIC @ concat (flat_pieces cm_sample))"
proof -
  have "total_size 0 (cm_files cm_sample) = Inr 100"
    by (simp add: cm_sample_def checked_add_def)
  then have "requires_large_format cm_sample = Inr False"
    by (simp add: requires_large_format_def MAX_CHECKPOINT_BYTES_def)
  moreover have "length (CP_MAGIC @ concat (flat_pieces cm_sample)) \<le> MAX_MANIFEST_BYTES"
    by (simp add: flat_pieces_def cm_sample_def file_code_def MAX_MANIFEST_BYTES_def)
  moreover have "js_pieces flat_json = flat_pieces" "js_reserve flat_json n" "\<not> js_fails flat_json cm_sample" for n
    by (simp_all add: flat_json_def)
  moreover have "MAX_MANIFEST_BYTES < 2 ^ 64" by (simp add: MAX_MANIFEST_BYTES_def)
  ultimately show ?thesis
    using encode_frame_fits [of flat_json cm_sample CP_MAGIC MAX_MANIFEST_BYTES] by (simp add: cm_encode_def)
qed

theorem checkpoint_manifest_exact_witness:
  "cm_decode flat_json (CP_MAGIC @ concat (flat_pieces cm_sample)) = Inr cm_sample"
  using checkpoint_manifest_exact [OF flat.json_laws_axioms cm_sample_encodes] cm_sample_valid by blast

end
