(* ===== verification/Command.thy ===== *)
theory Command
  imports DataRange RawTtl Checkpoint
begin

text \<open>
  Replicated commands, \<open>crates/raft/src/command.rs\<close> and \<open>command/ttl.rs\<close>: the payload of a log
  entry, its lowering to a write batch and its wire codec. An encoder that appends to a buffer is
  the list of bytes it appends; a decoder threads the remaining buffer. Constructors that would
  clash carry the suffix \<open>Cmd\<close>. Encoded lengths are cast to 32 bits as in the source, so the round
  trip needs every length to fit, which \<open>command_ok\<close> records.
\<close>

section \<open>Data\<close>

datatype kv_op = KvPut byte bytes bytes | KvDelete byte bytes

record region_fence =
  rf_region_id :: u64
  rf_conf_ver :: u64
  rf_version :: u64

datatype fenced_inner = FencedWrite "kv_op list"

record manifest_change_payload =
  mc_region :: u64
  mc_change_id :: bytes
  mc_expected_generation :: u64
  mc_changeset :: bytes
  mc_watermark_term :: u64
  mc_watermark_index :: u64

datatype raw_ttl_mutation = TtlPut bytes bytes | TtlDelete bytes

datatype raw_ttl_action =
    Enable clock_watermark
  | Observe clock_watermark
  | TtlWrite expiry_plan "raw_ttl_mutation list"
  | Cleanup "(bytes \<times> expiry_record) list"

record raw_ttl_command =
  rt_root :: digest
  rt_creation :: digest
  rt_fence :: region_fence
  rt_keyspace :: keyspace_id
  rt_action :: raw_ttl_action

datatype command =
    RawTtlCmd raw_ttl_command
  | DataRangeCmd "digest option" data_range
  | PutCmd byte bytes bytes
  | CatalogTxn "kv_op list"
  | WriteCmd "kv_op list"
  | ConfChange bool u64
  | Noop
  | ManifestChange manifest_change_payload
  | LargeManifestChange manifest_change_payload
  | Fenced region_fence fenced_inner
  | CompactionConfirmed u64 applied_position

section \<open>Column family codes and lowering\<close>

fun raft_cf_code :: "column_family \<Rightarrow> byte" where
  "raft_cf_code Default = 0" | "raft_cf_code Lock = 1" | "raft_cf_code Write = 2"

definition raft_cf_from_code :: "byte \<Rightarrow> column_family" where
  "raft_cf_from_code code = (if code = 1 then Lock else if code = 2 then Write else Default)"

fun lower_op :: "kv_op \<Rightarrow> write_batch \<Rightarrow> write_batch" where
  "lower_op (KvPut cf key val) wb = batch_put wb (raft_cf_from_code cf) key val"
| "lower_op (KvDelete cf key) wb = batch_delete wb (raft_cf_from_code cf) key"

definition lower_ops :: "write_batch \<Rightarrow> kv_op list \<Rightarrow> write_batch" where
  "lower_ops wb ops = fold lower_op ops wb"

fun fenced_to_write_batch :: "fenced_inner \<Rightarrow> write_batch" where
  "fenced_to_write_batch (FencedWrite ops) = lower_ops [] ops"

fun to_write_batch :: "command \<Rightarrow> write_batch result" where
  "to_write_batch (RawTtlCmd c) = Inl (RaftError ''Raw TTL requires ordered apply'')"
| "to_write_batch (DataRangeCmd expected next) = Inl (RaftError ''data range requires ordered ownership CAS'')"
| "to_write_batch (PutCmd cf key val) = Inr (batch_put [] (raft_cf_from_code cf) key val)"
| "to_write_batch (CatalogTxn ops) = Inr (lower_ops [] ops)"
| "to_write_batch (WriteCmd ops) = Inr (lower_ops [] ops)"
| "to_write_batch (ConfChange add node) = Inr []"
| "to_write_batch Noop = Inr []"
| "to_write_batch (Fenced fence inner) =
     Inl (RaftError ''a fenced command cannot be lowered without its fence check'')"
| "to_write_batch (ManifestChange p) =
     Inl (RaftError ''a manifest change cannot be lowered without its generation CAS'')"
| "to_write_batch (LargeManifestChange p) =
     Inl (RaftError ''a manifest change cannot be lowered without its generation CAS'')"
| "to_write_batch (CompactionConfirmed region floor) =
     Inl (RaftError ''a compaction confirmation requires ordered identity + monotonic CAS'')"

fun op_of_mutation :: "mutation \<Rightarrow> kv_op" where
  "op_of_mutation (Put cf key val) = KvPut (raft_cf_code cf) key val"
| "op_of_mutation (Delete cf key) = KvDelete (raft_cf_code cf) key"

definition from_batch :: "write_batch \<Rightarrow> command" where
  "from_batch batch = CatalogTxn (map op_of_mutation batch)"

definition write_from_batch :: "write_batch \<Rightarrow> command" where
  "write_from_batch batch = (case from_batch batch of CatalogTxn ops \<Rightarrow> WriteCmd ops | c \<Rightarrow> c)"

definition fenced_write_from_batch :: "region_fence \<Rightarrow> write_batch \<Rightarrow> command" where
  "fenced_write_from_batch fence batch =
     (case from_batch batch of CatalogTxn ops \<Rightarrow> Fenced fence (FencedWrite ops) | c \<Rightarrow> c)"

section \<open>Proposal classes\<close>

fun is_enable :: "raw_ttl_action \<Rightarrow> bool" where
  "is_enable (Enable observed) \<longleftrightarrow> True"
| "is_enable _ \<longleftrightarrow> False"

fun requires_write_capacity :: "command \<Rightarrow> bool" where
  "requires_write_capacity (PutCmd cf key val) \<longleftrightarrow> True"
| "requires_write_capacity (WriteCmd ops) \<longleftrightarrow> True"
| "requires_write_capacity (Fenced fence inner) \<longleftrightarrow> True"
| "requires_write_capacity (RawTtlCmd c) \<longleftrightarrow> \<not> is_enable (rt_action c)"
| "requires_write_capacity (CatalogTxn ops) \<longleftrightarrow> False"
| "requires_write_capacity (DataRangeCmd expected next) \<longleftrightarrow> False"
| "requires_write_capacity (ConfChange add node) \<longleftrightarrow> False"
| "requires_write_capacity Noop \<longleftrightarrow> False"
| "requires_write_capacity (ManifestChange p) \<longleftrightarrow> False"
| "requires_write_capacity (LargeManifestChange p) \<longleftrightarrow> False"
| "requires_write_capacity (CompactionConfirmed region floor) \<longleftrightarrow> False"

definition require_ordinary_proposal :: "command \<Rightarrow> unit result" where
  "require_ordinary_proposal c =
     (case c of
        RawTtlCmd ttl \<Rightarrow>
          if is_enable (rt_action ttl)
          then Inl (MetaNotReady ''Raw TTL activation requires fresh all-replica format confirmations'')
          else Inr ()
      | _ \<Rightarrow> Inr ())"

fun is_large :: "command \<Rightarrow> bool" where
  "is_large (LargeManifestChange p) \<longleftrightarrow> True"
| "is_large _ \<longleftrightarrow> False"

definition decode_checkpoint_manifest :: "json_ops \<Rightarrow> command \<Rightarrow> bytes \<Rightarrow> checkpoint_manifest result" where
  "decode_checkpoint_manifest J c b =
     (if is_large c then
        bind_res (cm_decode J b) (\<lambda>manifest.
        bind_res (requires_large_format manifest) (\<lambda>large.
          if \<not> large then Inl (RaftError ''large manifest command requires V2 image'')
          else Inr manifest))
      else cm_decode_legacy J b)"

definition manifest_from_prepared :: "(bytes \<Rightarrow> digest) \<Rightarrow> json_ops \<Rightarrow> checkpoint_manifest \<Rightarrow> u64
    \<Rightarrow> manifest_change_payload result" where
  "manifest_from_prepared sha256 J manifest expected_generation =
     bind_res (cm_change_id sha256 J manifest expected_generation) (\<lambda>change_id.
     bind_res (cm_encode J manifest) (\<lambda>changeset.
       Inr \<lparr>mc_region = fs_region (cm_scope manifest), mc_change_id = change_id,
            mc_expected_generation = expected_generation, mc_changeset = changeset,
            mc_watermark_term = cm_term manifest, mc_watermark_index = cm_index manifest\<rparr>))"

end
