(* ===== verification/CommandCodec.thy ===== *)
theory CommandCodec
  imports Command
begin

text \<open>
  The wire codec of commands, \<open>crates/raft/src/command.rs\<close> and \<open>command/ttl.rs\<close>: encoders,
  decoders with their budgets, and the exact relation between the two.
\<close>

section \<open>TTL commands\<close>

definition MAX_COMMAND_BYTES :: nat where "MAX_COMMAND_BYTES = 16 * 1024 * 1024"

definition MAX_MUTATIONS :: nat where "MAX_MUTATIONS = 4096"

definition MAX_KEY_BYTES :: nat where "MAX_KEY_BYTES = 65536"

fun ttl_mutation_key :: "raw_ttl_mutation \<Rightarrow> bytes" where
  "ttl_mutation_key (TtlPut key val) = key"
| "ttl_mutation_key (TtlDelete key) = key"

definition rt_keys :: "raw_ttl_command \<Rightarrow> bytes list" where
  "rt_keys c =
     (case rt_action c of
        TtlWrite plan mutations \<Rightarrow> map ttl_mutation_key mutations
      | Cleanup candidates \<Rightarrow> map fst candidates
      | _ \<Rightarrow> [])"

definition ttl_bad :: error where
  "ttl_bad = RaftError ''invalid or oversized Raw TTL command''"

definition charge :: "nat \<Rightarrow> nat \<Rightarrow> nat result" where
  "charge used count =
     (if used + count < 2 ^ 64 \<and> used + count \<le> MAX_COMMAND_BYTES then Inr (used + count) else Inl ttl_bad)"

fun charge_mutations :: "raw_ttl_mutation list \<Rightarrow> nat \<Rightarrow> nat result" where
  "charge_mutations [] used = Inr used"
| "charge_mutations (TtlPut key val # ms) used =
     bind_res (charge used 9) (\<lambda>used.
     bind_res (charge used (length key)) (\<lambda>used.
     bind_res (charge used (length val)) (charge_mutations ms)))"
| "charge_mutations (TtlDelete key # ms) used =
     bind_res (charge used 5) (\<lambda>used.
     bind_res (charge used (length key)) (charge_mutations ms))"

fun charge_candidates :: "(bytes \<times> expiry_record) list \<Rightarrow> nat \<Rightarrow> nat result" where
  "charge_candidates [] used = Inr used"
| "charge_candidates ((key, record) # cs) used =
     bind_res (charge used (4 + EXPIRY_RECORD_BYTES)) (\<lambda>used.
     bind_res (charge used (length key)) (charge_candidates cs))"

definition rt_validate :: "raw_ttl_command \<Rightarrow> unit result" where
  "rt_validate c =
     (if rt_root c = 0 \<or> rt_creation c = 0 \<or> rf_region_id (rt_fence c) < 100
         \<or> rf_conf_ver (rt_fence c) = 0 \<or> rf_version (rt_fence c) = 0
         \<or> rt_keyspace c = KEYSPACE_SYSTEM \<or> rt_keyspace c > KEYSPACE_MAX
         \<or> list_ex (\<lambda>key. length key > MAX_KEY_BYTES) (rt_keys c)
      then Inl ttl_bad
      else let used = 2 + 32 + 32 + 24 + 4 + 1 in
        case rt_action c of
          Enable observed \<Rightarrow> bind_res (charge used CLOCK_RECORD_BYTES) (\<lambda>_. Inr ())
        | Observe observed \<Rightarrow> bind_res (charge used CLOCK_RECORD_BYTES) (\<lambda>_. Inr ())
        | TtlWrite plan mutations \<Rightarrow>
            if mutations = [] \<or> length mutations > MAX_MUTATIONS then Inl ttl_bad
            else bind_res (ep_decode (ep_encode plan)) (\<lambda>_.
                 bind_res (charge used (EXPIRY_PLAN_BYTES + 4)) (\<lambda>used.
                 bind_res (charge_mutations mutations used) (\<lambda>_. Inr ())))
        | Cleanup candidates \<Rightarrow>
            if candidates = [] \<or> length candidates > MAX_MUTATIONS then Inl ttl_bad
            else bind_res (charge used 4) (\<lambda>used.
                 bind_res (charge_candidates candidates used) (\<lambda>_. Inr ())))"

definition rt_new :: "data_range \<Rightarrow> raw_ttl_action \<Rightarrow> raw_ttl_command result" where
  "rt_new own action =
     bind_res (dr_validate own) (\<lambda>_.
       let c = \<lparr>rt_root = dr_root own, rt_creation = dr_creation own,
                rt_fence = \<lparr>rf_region_id = dr_region own, rf_conf_ver = dr_conf_ver own,
                             rf_version = dr_version own\<rparr>,
                rt_keyspace = dr_keyspace own, rt_action = action\<rparr> in
       bind_res (rt_validate c) (\<lambda>_.
         if dr_sealed own \<or> \<not> list_all (dr_contains own) (rt_keys c)
         then Inl (StaleEpoch (dr_region own)) else Inr c))"

fun ttl_mutation_code :: "raw_ttl_mutation \<Rightarrow> bytes" where
  "ttl_mutation_code (TtlPut key val) = 1 # len_bytes key @ len_bytes val"
| "ttl_mutation_code (TtlDelete key) = 2 # len_bytes key"

definition candidate_code :: "bytes \<times> expiry_record \<Rightarrow> bytes" where
  "candidate_code c = len_bytes (fst c) @ er_encode (snd c)"

fun ttl_action_code :: "raw_ttl_action \<Rightarrow> bytes" where
  "ttl_action_code (Enable observed) = 1 # wm_encode observed"
| "ttl_action_code (Observe observed) = 2 # wm_encode observed"
| "ttl_action_code (TtlWrite plan mutations) =
     3 # ep_encode plan @ to_be 4 (of_nat (length mutations) :: u32) @ concat (map ttl_mutation_code mutations)"
| "ttl_action_code (Cleanup candidates) =
     4 # to_be 4 (of_nat (length candidates) :: u32) @ concat (map candidate_code candidates)"

definition rt_encode :: "raw_ttl_command \<Rightarrow> bytes" where
  "rt_encode c = to_be 32 (rt_root c) @ to_be 32 (rt_creation c) @ to_be 8 (rf_region_id (rt_fence c))
     @ to_be 8 (rf_conf_ver (rt_fence c)) @ to_be 8 (rf_version (rt_fence c)) @ to_be 4 (rt_keyspace c)
     @ ttl_action_code (rt_action c)"

definition bounded_count :: "bytes \<Rightarrow> (nat \<times> bytes) result" where
  "bounded_count buf =
     bind_res (rd_u32 buf) (\<lambda>(count, buf).
       if unat count = 0 \<or> unat count > MAX_MUTATIONS
       then Inl (RaftError ''Raw TTL mutation count exceeds budget'') else Inr (unat count, buf))"

text \<open>\<open>D::decode(reader.take(n)?)?\<close>.\<close>

definition rd_via :: "nat \<Rightarrow> (bytes \<Rightarrow> 'a result) \<Rightarrow> bytes \<Rightarrow> ('a \<times> bytes) result" where
  "rd_via n dec buf = bind_res (rd_take n buf) (\<lambda>(b, buf). bind_res (dec b) (\<lambda>v. Inr (v, buf)))"

definition rd_ttl_mutation :: "bytes \<Rightarrow> (raw_ttl_mutation \<times> bytes) result" where
  "rd_ttl_mutation buf =
     bind_res (rd_u8 buf) (\<lambda>(tag, buf).
       if tag = 1 then
         bind_res (rd_bytes buf) (\<lambda>(key, buf). bind_res (rd_bytes buf) (\<lambda>(val, buf). Inr (TtlPut key val, buf)))
       else if tag = 2 then bind_res (rd_bytes buf) (\<lambda>(key, buf). Inr (TtlDelete key, buf))
       else Inl (RaftError ''unknown Raw TTL mutation''))"

definition rd_candidate :: "bytes \<Rightarrow> ((bytes \<times> expiry_record) \<times> bytes) result" where
  "rd_candidate buf =
     bind_res (rd_bytes buf) (\<lambda>(key, buf).
     bind_res (rd_via EXPIRY_RECORD_BYTES er_decode buf) (\<lambda>(record, buf). Inr ((key, record), buf)))"

definition rd_ttl_action :: "bytes \<Rightarrow> (raw_ttl_action \<times> bytes) result" where
  "rd_ttl_action buf =
     bind_res (rd_u8 buf) (\<lambda>(tag, buf).
       if tag = 1 \<or> tag = 2 then
         bind_res (rd_via CLOCK_RECORD_BYTES wm_decode buf) (\<lambda>(observed, buf).
           Inr (if tag = 1 then Enable observed else Observe observed, buf))
       else if tag = 3 then
         bind_res (rd_via EXPIRY_PLAN_BYTES ep_decode buf) (\<lambda>(plan, buf).
         bind_res (bounded_count buf) (\<lambda>(count, buf).
         bind_res (rd_many rd_ttl_mutation count buf) (\<lambda>(mutations, buf). Inr (TtlWrite plan mutations, buf))))
       else if tag = 4 then
         bind_res (bounded_count buf) (\<lambda>(count, buf).
         bind_res (rd_many rd_candidate count buf) (\<lambda>(candidates, buf). Inr (Cleanup candidates, buf)))
       else Inl (RaftError ''unknown Raw TTL action''))"

definition rt_decode_from :: "bytes \<Rightarrow> (raw_ttl_command \<times> bytes) result" where
  "rt_decode_from buf =
     bind_res (rd_take 32 buf) (\<lambda>(root, buf).
     bind_res (rd_take 32 buf) (\<lambda>(creation, buf).
     bind_res (rd_u64 buf) (\<lambda>(region_id, buf).
     bind_res (rd_u64 buf) (\<lambda>(conf_ver, buf).
     bind_res (rd_u64 buf) (\<lambda>(version, buf).
     bind_res (rd_u32 buf) (\<lambda>(keyspace, buf).
     bind_res (rd_ttl_action buf) (\<lambda>(action, buf).
       let c = \<lparr>rt_root = from_be root, rt_creation = from_be creation,
                rt_fence = \<lparr>rf_region_id = region_id, rf_conf_ver = conf_ver, rf_version = version\<rparr>,
                rt_keyspace = keyspace, rt_action = action\<rparr> in
       bind_res (rt_validate c) (\<lambda>_. Inr (c, buf)))))))))"

section \<open>Commands\<close>

definition ENTRY_VERSION :: byte where "ENTRY_VERSION = 1"

fun op_code :: "kv_op \<Rightarrow> bytes" where
  "op_code (KvPut cf key val) = 1 # cf # len_bytes key @ len_bytes val"
| "op_code (KvDelete cf key) = 2 # cf # len_bytes key"

definition put_ops :: "kv_op list \<Rightarrow> bytes" where
  "put_ops ops = to_be 4 (of_nat (length ops) :: u32) @ concat (map op_code ops)"

definition payload_code :: "manifest_change_payload \<Rightarrow> bytes" where
  "payload_code p = to_be 8 (mc_region p) @ len_bytes (mc_change_id p) @ to_be 8 (mc_expected_generation p)
     @ len_bytes (mc_changeset p) @ to_be 8 (mc_watermark_term p) @ to_be 8 (mc_watermark_index p)"

fun cmd_body :: "command \<Rightarrow> bytes" where
  "cmd_body (RawTtlCmd c) = 10 # rt_encode c"
| "cmd_body (PutCmd cf key val) = 1 # cf # len_bytes key @ len_bytes val"
| "cmd_body (CatalogTxn ops) = 2 # put_ops ops"
| "cmd_body (WriteCmd ops) = 5 # put_ops ops"
| "cmd_body (ConfChange add node) = 3 # (if add then 1 else 0) # to_be 8 node"
| "cmd_body Noop = [4]"
| "cmd_body (DataRangeCmd expected next) =
     8 # len_bytes (case expected of None \<Rightarrow> [] | Some d \<Rightarrow> to_be 32 d) @ len_bytes (dr_encode next)"
| "cmd_body (ManifestChange p) = 7 # payload_code p"
| "cmd_body (LargeManifestChange p) = 14 # payload_code p"
| "cmd_body (Fenced fence (FencedWrite ops)) =
     6 # to_be 8 (rf_region_id fence) @ to_be 8 (rf_conf_ver fence) @ to_be 8 (rf_version fence) @ 5 # put_ops ops"
| "cmd_body (CompactionConfirmed region floor) =
     9 # to_be 8 region @ to_be 8 (ap_term floor) @ to_be 8 (ap_index floor)"

definition cmd_encode :: "command \<Rightarrow> bytes" where
  "cmd_encode c = ENTRY_VERSION # cmd_body c"

definition rd_op :: "string \<Rightarrow> bytes \<Rightarrow> (kv_op \<times> bytes) result" where
  "rd_op ctx buf =
     bind_res (rd_u8 buf) (\<lambda>(tag, buf).
       if tag = 1 then
         bind_res (rd_u8 buf) (\<lambda>(cf, buf).
         bind_res (rd_bytes buf) (\<lambda>(key, buf).
         bind_res (rd_bytes buf) (\<lambda>(val, buf). Inr (KvPut cf key val, buf))))
       else if tag = 2 then
         bind_res (rd_u8 buf) (\<lambda>(cf, buf).
         bind_res (rd_bytes buf) (\<lambda>(key, buf). Inr (KvDelete cf key, buf)))
       else Inl (RaftError (''unknown '' @ ctx @ '' op tag'')))"

definition read_ops :: "string \<Rightarrow> bytes \<Rightarrow> (kv_op list \<times> bytes) result" where
  "read_ops ctx buf = bind_res (rd_u32 buf) (\<lambda>(count, buf). rd_many (rd_op ctx) (unat count) buf)"

definition rd_payload :: "bytes \<Rightarrow> (manifest_change_payload \<times> bytes) result" where
  "rd_payload buf =
     bind_res (rd_u64 buf) (\<lambda>(region, buf).
     bind_res (rd_bytes buf) (\<lambda>(change_id, buf).
     bind_res (rd_u64 buf) (\<lambda>(expected_generation, buf).
     bind_res (rd_bytes buf) (\<lambda>(changeset, buf).
     bind_res (rd_u64 buf) (\<lambda>(watermark_term, buf).
     bind_res (rd_u64 buf) (\<lambda>(watermark_index, buf).
       Inr (\<lparr>mc_region = region, mc_change_id = change_id, mc_expected_generation = expected_generation,
             mc_changeset = changeset, mc_watermark_term = watermark_term,
             mc_watermark_index = watermark_index\<rparr>, buf)))))))"

definition rd_range_cmd :: "bytes \<Rightarrow> (command \<times> bytes) result" where
  "rd_range_cmd buf =
     bind_res (rd_bytes buf) (\<lambda>(expected, buf).
     bind_res (if expected = [] then Inr None
               else if length expected = 32 then Inr (Some (from_be expected))
               else Inl (RaftError ''invalid range predecessor digest'')) (\<lambda>expected.
     bind_res (rd_bytes buf) (\<lambda>(next, buf).
     bind_res (dr_decode next) (\<lambda>next. Inr (DataRangeCmd expected next, buf)))))"

definition rd_fenced :: "bytes \<Rightarrow> (command \<times> bytes) result" where
  "rd_fenced buf =
     bind_res (rd_u64 buf) (\<lambda>(region_id, buf).
     bind_res (rd_u64 buf) (\<lambda>(conf_ver, buf).
     bind_res (rd_u64 buf) (\<lambda>(version, buf).
     bind_res (rd_u8 buf) (\<lambda>(inner, buf).
       if inner = 5 then
         bind_res (read_ops ''Fenced(Write)'' buf) (\<lambda>(ops, buf).
           Inr (Fenced \<lparr>rf_region_id = region_id, rf_conf_ver = conf_ver, rf_version = version\<rparr>
                  (FencedWrite ops), buf))
       else if inner = 6 then Inl (RaftError ''fenced command cannot nest a fence'')
       else Inl (RaftError ''command tag is not fenceable'')))))"

definition rd_body :: "nat \<Rightarrow> byte \<Rightarrow> bytes \<Rightarrow> (command \<times> bytes) result" where
  "rd_body total_len tag buf =
     (if tag = 10 then
        if total_len > MAX_COMMAND_BYTES then Inl (RaftError ''Raw TTL command exceeds byte budget'')
        else bind_res (rt_decode_from buf) (\<lambda>(c, buf). Inr (RawTtlCmd c, buf))
      else if tag = 8 then rd_range_cmd buf
      else if tag = 1 then
        bind_res (rd_u8 buf) (\<lambda>(cf, buf).
        bind_res (rd_bytes buf) (\<lambda>(key, buf).
        bind_res (rd_bytes buf) (\<lambda>(val, buf). Inr (PutCmd cf key val, buf))))
      else if tag = 2 then bind_res (read_ops ''CatalogTxn'' buf) (\<lambda>(ops, buf). Inr (CatalogTxn ops, buf))
      else if tag = 5 then bind_res (read_ops ''Write'' buf) (\<lambda>(ops, buf). Inr (WriteCmd ops, buf))
      else if tag = 3 then
        bind_res (rd_u8 buf) (\<lambda>(add, buf).
        bind_res (rd_u64 buf) (\<lambda>(node, buf). Inr (ConfChange (add \<noteq> 0) node, buf)))
      else if tag = 4 then Inr (Noop, buf)
      else if tag = 7 \<or> tag = 14 then
        bind_res (rd_payload buf) (\<lambda>(payload, buf).
          Inr (if tag = 14 then LargeManifestChange payload else ManifestChange payload, buf))
      else if tag = 6 then rd_fenced buf
      else if tag = 9 then
        bind_res (rd_u64 buf) (\<lambda>(region, buf).
        bind_res (rd_u64 buf) (\<lambda>(term, buf).
        bind_res (rd_u64 buf) (\<lambda>(index, buf).
          Inr (CompactionConfirmed region \<lparr>ap_term = term, ap_index = index\<rparr>, buf))))
      else Inl (RaftError ''unknown command tag''))"

definition cmd_decode :: "bytes \<Rightarrow> command result" where
  "cmd_decode b =
     bind_res (rd_u8 b) (\<lambda>(version, buf).
       if version \<noteq> ENTRY_VERSION then Inl (RaftError ''unknown command entry version'')
       else bind_res (rd_u8 buf) (\<lambda>(tag, buf).
            bind_res (rd_body (length b) tag buf) (\<lambda>(c, buf).
              if buf \<noteq> [] then Inl (RaftError ''trailing bytes after command'') else Inr c)))"

section \<open>Exactness of the element readers\<close>

lemma rd_via_exact:
  assumes "\<And>b v. dec b = Inr v \<longleftrightarrow> ok v \<and> b = code v" and "\<And>v. length (code v) = n"
  shows "exact_reader (rd_via n dec) code ok"
  by unfold_locales (auto simp: rd_via_def bind_res_Inr_iff rd_take_iff assms)

lemma ttl_code_lengths [simp]:
  "length (wm_encode w) = 16" "length (er_encode r) = 64" "length (ep_encode p) = 25"
  by (simp_all add: wm_encode_def er_encode_def ep_encode_def split: option.splits)

interpretation clock_reader: exact_reader "rd_via CLOCK_RECORD_BYTES wm_decode" wm_encode "\<lambda>_. True"
  by (rule rd_via_exact) (simp_all add: wm_codec CLOCK_RECORD_BYTES_def)

interpretation record_reader: exact_reader "rd_via EXPIRY_RECORD_BYTES er_decode" er_encode er_valid
  by (rule rd_via_exact) (simp_all add: er_codec EXPIRY_RECORD_BYTES_def)

interpretation plan_reader: exact_reader "rd_via EXPIRY_PLAN_BYTES ep_decode" ep_encode ep_valid
  by (rule rd_via_exact) (simp_all add: ep_codec EXPIRY_PLAN_BYTES_def)

fun ttl_mutation_fits :: "raw_ttl_mutation \<Rightarrow> bool" where
  "ttl_mutation_fits (TtlPut key val) \<longleftrightarrow> length key < 2 ^ 32 \<and> length val < 2 ^ 32"
| "ttl_mutation_fits (TtlDelete key) \<longleftrightarrow> length key < 2 ^ 32"

interpretation ttl_mutation_reader: exact_reader rd_ttl_mutation ttl_mutation_code ttl_mutation_fits
proof (rule exact_readerI)
  show "rd_ttl_mutation buf = Inr (v, rest) \<Longrightarrow> ttl_mutation_fits v \<and> buf = ttl_mutation_code v @ rest" for buf v rest
    by (auto simp: rd_ttl_mutation_def bind_res_Inr_iff reads split: if_splits)
  show "ttl_mutation_fits v \<Longrightarrow> rd_ttl_mutation (ttl_mutation_code v @ rest) = Inr (v, rest)" for v rest
    by (cases v) (simp_all add: rd_ttl_mutation_def)
qed

definition candidate_ok :: "bytes \<times> expiry_record \<Rightarrow> bool" where
  "candidate_ok c \<longleftrightarrow> length (fst c) < 2 ^ 32 \<and> er_valid (snd c)"

interpretation candidate_reader: exact_reader rd_candidate candidate_code candidate_ok
proof (rule exact_readerI)
  show "rd_candidate buf = Inr (v, rest) \<Longrightarrow> candidate_ok v \<and> buf = candidate_code v @ rest" for buf v rest
    by (auto simp: rd_candidate_def bind_res_Inr_iff reads record_reader.exact candidate_ok_def candidate_code_def)
  show "candidate_ok v \<Longrightarrow> rd_candidate (candidate_code v @ rest) = Inr (v, rest)" for v rest
    by (cases v) (simp add: rd_candidate_def candidate_code_def candidate_ok_def record_reader.reads_code)
qed

context exact_reader
begin

lemma bounded_exact:
  "bind_res (bounded_count buf) (\<lambda>(n, buf). rd_many rd n buf) = Inr (vs, rest) \<longleftrightarrow>
   vs \<noteq> [] \<and> length vs \<le> MAX_MUTATIONS \<and> list_all ok vs
   \<and> buf = to_be 4 (of_nat (length vs) :: u32) @ concat (map code vs) @ rest"
proof -
  have "bind_res (bounded_count buf) (\<lambda>(n, buf). rd_many rd n buf) = Inr (vs, rest) \<longleftrightarrow>
      (bind_res (rd_u32 buf) (\<lambda>(n, buf). rd_many rd (unat n) buf) = Inr (vs, rest)
       \<and> vs \<noteq> [] \<and> length vs \<le> MAX_MUTATIONS)"
  proof (cases "rd_u32 buf")
    case (Inr r)
    then show ?thesis
      by (cases r; cases "unat (fst r) = 0 \<or> MAX_MUTATIONS < unat (fst r)")
        (auto simp: bounded_count_def many_exact)
  qed (simp add: bounded_count_def)
  then show ?thesis by (auto simp: counted_exact MAX_MUTATIONS_def)
qed

end

fun ttl_action_ok :: "raw_ttl_action \<Rightarrow> bool" where
  "ttl_action_ok (Enable observed) \<longleftrightarrow> True"
| "ttl_action_ok (Observe observed) \<longleftrightarrow> True"
| "ttl_action_ok (TtlWrite plan ms) \<longleftrightarrow>
     ep_valid plan \<and> ms \<noteq> [] \<and> length ms \<le> MAX_MUTATIONS \<and> list_all ttl_mutation_fits ms"
| "ttl_action_ok (Cleanup cs) \<longleftrightarrow> cs \<noteq> [] \<and> length cs \<le> MAX_MUTATIONS \<and> list_all candidate_ok cs"

lemma rd_write_action:
  "bind_res (rd_via EXPIRY_PLAN_BYTES ep_decode buf) (\<lambda>(plan, buf).
   bind_res (bounded_count buf) (\<lambda>(count, buf).
   bind_res (rd_many rd_ttl_mutation count buf) (\<lambda>(mutations, buf). Inr (TtlWrite plan mutations, buf))))
   = Inr (a, rest) \<longleftrightarrow> (\<exists>plan ms. a = TtlWrite plan ms \<and> ttl_action_ok a \<and> 3 # buf = ttl_action_code a @ rest)"
proof -
  have "bind_res (bounded_count buf) (\<lambda>(count, buf).
      bind_res (rd_many rd_ttl_mutation count buf) (\<lambda>(mutations, buf). Inr (f mutations, buf))) = Inr (x, rest) \<longleftrightarrow>
      (\<exists>ms. x = f ms \<and> bind_res (bounded_count buf) (\<lambda>(n, buf). rd_many rd_ttl_mutation n buf) = Inr (ms, rest))"
    for buf and f :: "_ \<Rightarrow> raw_ttl_action" and x
    by (auto simp: bind_res_Inr_iff)
  then show ?thesis
    by (auto simp: bind_res_Inr_iff [of "rd_via _ _ _"] plan_reader.exact ttl_mutation_reader.bounded_exact)
qed

lemma rd_cleanup_action:
  "bind_res (bounded_count buf) (\<lambda>(count, buf).
   bind_res (rd_many rd_candidate count buf) (\<lambda>(candidates, buf). Inr (Cleanup candidates, buf)))
   = Inr (a, rest) \<longleftrightarrow> (\<exists>cs. a = Cleanup cs \<and> ttl_action_ok a \<and> 4 # buf = ttl_action_code a @ rest)"
proof -
  have "bind_res (bounded_count buf) (\<lambda>(count, buf).
      bind_res (rd_many rd_candidate count buf) (\<lambda>(candidates, buf). Inr (Cleanup candidates, buf))) = Inr (a, rest) \<longleftrightarrow>
      (\<exists>cs. a = Cleanup cs \<and> bind_res (bounded_count buf) (\<lambda>(n, buf). rd_many rd_candidate n buf) = Inr (cs, rest))"
    by (auto simp: bind_res_Inr_iff)
  then show ?thesis by (auto simp: candidate_reader.bounded_exact)
qed

interpretation ttl_action_reader: exact_reader rd_ttl_action ttl_action_code ttl_action_ok
proof
  fix buf a rest
  show "rd_ttl_action buf = Inr (a, rest) \<longleftrightarrow> ttl_action_ok a \<and> buf = ttl_action_code a @ rest"
  proof (cases buf)
    case (Cons tag b)
    then show ?thesis
      using rd_write_action [of b a rest] rd_cleanup_action [of b a rest]
      by (cases a) (auto simp: rd_ttl_action_def clock_reader.exact bind_res_Inr_iff [of "rd_via _ _ _"])
  qed (cases a; simp add: rd_ttl_action_def rd_u8_def)
qed

section \<open>The budget of a TTL command\<close>

lemma to_be_u64_inj [simp]: "to_be 8 (a :: u64) = to_be 8 b \<longleftrightarrow> a = b"
  by (metis from_to_be_widths(2))

lemma ep_decodes_iff: "ep_decode (ep_encode p) = Inr q \<longleftrightarrow> ep_valid p \<and> q = p"
proof -
  have "p = q" if "ep_encode p = ep_encode q"
    using that by (cases p; cases q) (auto simp: ep_encode_def replicate_Suc [of 8, simplified] split: option.splits)
  then show ?thesis by (auto simp: ep_codec)
qed

lemma charge_iff [simp]:
  "charge used n = Inr m \<longleftrightarrow> m = used + n \<and> m \<le> MAX_COMMAND_BYTES"
  by (auto simp: charge_def MAX_COMMAND_BYTES_def)

lemma charge_mutations_iff:
  "used \<le> MAX_COMMAND_BYTES \<Longrightarrow> charge_mutations ms used = Inr n \<longleftrightarrow>
     n = used + length (concat (map ttl_mutation_code ms)) \<and> n \<le> MAX_COMMAND_BYTES"
proof (induction ms arbitrary: used)
  case (Cons m ms)
  then show ?case by (cases m) (auto simp: bind_res_Inr_iff)
qed auto

lemma charge_candidates_iff:
  "used \<le> MAX_COMMAND_BYTES \<Longrightarrow> charge_candidates cs used = Inr n \<longleftrightarrow>
     n = used + length (concat (map candidate_code cs)) \<and> n \<le> MAX_COMMAND_BYTES"
proof (induction cs arbitrary: used)
  case (Cons c cs)
  then show ?case
    by (cases c) (auto simp: bind_res_Inr_iff candidate_code_def EXPIRY_RECORD_BYTES_def)
qed auto

definition scope_ok :: "raw_ttl_command \<Rightarrow> bool" where
  "scope_ok c \<longleftrightarrow>
     rt_root c \<noteq> 0 \<and> rt_creation c \<noteq> 0 \<and> 100 \<le> rf_region_id (rt_fence c)
     \<and> rf_conf_ver (rt_fence c) \<noteq> 0 \<and> rf_version (rt_fence c) \<noteq> 0
     \<and> rt_keyspace c \<noteq> KEYSPACE_SYSTEM \<and> rt_keyspace c \<le> KEYSPACE_MAX
     \<and> list_all (\<lambda>key. length key \<le> MAX_KEY_BYTES) (rt_keys c)"

fun records_valid :: "raw_ttl_action \<Rightarrow> bool" where
  "records_valid (Cleanup cs) \<longleftrightarrow> list_all (\<lambda>c. er_valid (snd c)) cs"
| "records_valid _ \<longleftrightarrow> True"

lemma mutations_fit:
  "length (concat (map ttl_mutation_code ms)) \<le> MAX_COMMAND_BYTES \<Longrightarrow> list_all ttl_mutation_fits ms"
proof (induction ms)
  case (Cons m ms)
  then show ?case by (cases m) (simp_all add: MAX_COMMAND_BYTES_def)
qed simp

lemma candidates_ok: "list_all candidate_ok cs \<longleftrightarrow>
    list_all (\<lambda>c. length (fst c) < 2 ^ 32) cs \<and> list_all (\<lambda>c. er_valid (snd c)) cs"
  by (induction cs) (auto simp: candidate_ok_def)

lemma candidates_fit:
  "length (concat (map candidate_code cs)) \<le> MAX_COMMAND_BYTES \<Longrightarrow> list_all (\<lambda>c. length (fst c) < 2 ^ 32) cs"
  by (induction cs) (simp_all add: candidate_code_def MAX_COMMAND_BYTES_def)

text \<open>
  The validator charges exactly the encoded size, so a valid command never exceeds the decoder's
  budget and never loses bits in a length field.
\<close>

lemma length_rt_encode: "length (rt_encode c) = 92 + length (ttl_action_code (rt_action c))"
  by (simp add: rt_encode_def)

lemma rt_validate_iff:
  "rt_validate c = Inr () \<and> records_valid (rt_action c) \<longleftrightarrow>
     scope_ok c \<and> ttl_action_ok (rt_action c) \<and> 2 + length (rt_encode c) \<le> MAX_COMMAND_BYTES"
proof (cases "scope_ok c")
  case True
  then have v: "rt_validate c = (case rt_action c of
      Enable observed \<Rightarrow> bind_res (charge 95 CLOCK_RECORD_BYTES) (\<lambda>_. Inr ())
    | Observe observed \<Rightarrow> bind_res (charge 95 CLOCK_RECORD_BYTES) (\<lambda>_. Inr ())
    | TtlWrite plan ms \<Rightarrow>
        if ms = [] \<or> length ms > MAX_MUTATIONS then Inl ttl_bad
        else bind_res (ep_decode (ep_encode plan)) (\<lambda>_.
             bind_res (charge 95 (EXPIRY_PLAN_BYTES + 4)) (\<lambda>used.
             bind_res (charge_mutations ms used) (\<lambda>_. Inr ())))
    | Cleanup cs \<Rightarrow>
        if cs = [] \<or> length cs > MAX_MUTATIONS then Inl ttl_bad
        else bind_res (charge 95 4) (\<lambda>used. bind_res (charge_candidates cs used) (\<lambda>_. Inr ())))"
    by (auto simp: rt_validate_def scope_ok_def list_ex_iff list_all_iff not_less not_le Let_def)
  show ?thesis
  proof (cases "rt_action c")
    case (TtlWrite plan ms)
    then show ?thesis
      using True mutations_fit [of ms]
      by (auto simp: v length_rt_encode bind_res_Inr_iff charge_mutations_iff EXPIRY_PLAN_BYTES_def ep_decodes_iff)
  next
    case (Cleanup cs)
    then show ?thesis
      using True candidates_fit [of cs]
      by (auto simp: v length_rt_encode bind_res_Inr_iff charge_candidates_iff candidates_ok)
  qed (use True in \<open>auto simp: v length_rt_encode bind_res_Inr_iff CLOCK_RECORD_BYTES_def\<close>)
next
  case False
  then show ?thesis
    by (auto simp: rt_validate_def scope_ok_def list_ex_iff list_all_iff not_less not_le)
qed

lemma action_ok_records: "ttl_action_ok a \<Longrightarrow> records_valid a"
  by (cases a) (auto simp: candidate_ok_def list_all_iff)

definition ttl_ok :: "raw_ttl_command \<Rightarrow> bool" where
  "ttl_ok c \<longleftrightarrow> rt_validate c = Inr () \<and> records_valid (rt_action c)"

interpretation ttl_reader: exact_reader rt_decode_from rt_encode ttl_ok
proof (rule exact_readerI)
  fix buf c rest
  assume "rt_decode_from buf = Inr (c, rest)"
  then show "ttl_ok c \<and> buf = rt_encode c @ rest"
    by (auto simp: rt_decode_from_def bind_res_Inr_iff reads ttl_action_reader.exact Let_def ttl_ok_def
        rt_encode_def to_from_be_widths action_ok_records)
next
  fix c rest
  assume "ttl_ok c"
  then have "rt_validate c = Inr ()" "ttl_action_ok (rt_action c)"
    using rt_validate_iff [of c] by (simp_all add: ttl_ok_def)
  moreover have eta: "\<lparr>rt_root = rt_root c, rt_creation = rt_creation c,
      rt_fence = \<lparr>rf_region_id = rf_region_id (rt_fence c), rf_conf_ver = rf_conf_ver (rt_fence c),
        rf_version = rf_version (rt_fence c)\<rparr>,
      rt_keyspace = rt_keyspace c, rt_action = rt_action c\<rparr> = c"
    by simp
  ultimately show "rt_decode_from (rt_encode c @ rest) = Inr (c, rest)"
    unfolding rt_decode_from_def rt_encode_def Let_def
    by (simp add: ttl_action_reader.reads_code eta del: raw_ttl_command.surjective region_fence.surjective)
qed

section \<open>Commands\<close>

fun op_fits :: "kv_op \<Rightarrow> bool" where
  "op_fits (KvPut cf key val) \<longleftrightarrow> length key < 2 ^ 32 \<and> length val < 2 ^ 32"
| "op_fits (KvDelete cf key) \<longleftrightarrow> length key < 2 ^ 32"

definition ops_fit :: "kv_op list \<Rightarrow> bool" where
  "ops_fit ops \<longleftrightarrow> length ops < 2 ^ 32 \<and> list_all op_fits ops"

definition payload_fits :: "manifest_change_payload \<Rightarrow> bool" where
  "payload_fits p \<longleftrightarrow> length (mc_change_id p) < 2 ^ 32 \<and> length (mc_changeset p) < 2 ^ 32"

fun command_ok :: "command \<Rightarrow> bool" where
  "command_ok (RawTtlCmd c) \<longleftrightarrow> ttl_ok c"
| "command_ok (DataRangeCmd expected next) \<longleftrightarrow> dr_validate next = Inr ()"
| "command_ok (PutCmd cf key val) \<longleftrightarrow> length key < 2 ^ 32 \<and> length val < 2 ^ 32"
| "command_ok (CatalogTxn ops) \<longleftrightarrow> ops_fit ops"
| "command_ok (WriteCmd ops) \<longleftrightarrow> ops_fit ops"
| "command_ok (ManifestChange p) \<longleftrightarrow> payload_fits p"
| "command_ok (LargeManifestChange p) \<longleftrightarrow> payload_fits p"
| "command_ok (Fenced fence (FencedWrite ops)) \<longleftrightarrow> ops_fit ops"
| "command_ok _ \<longleftrightarrow> True"

lemma op_reader: "exact_reader (rd_op ctx) op_code op_fits"
proof (rule exact_readerI)
  show "rd_op ctx buf = Inr (v, rest) \<Longrightarrow> op_fits v \<and> buf = op_code v @ rest" for buf v rest
    by (auto simp: rd_op_def bind_res_Inr_iff reads split: if_splits)
  show "op_fits v \<Longrightarrow> rd_op ctx (op_code v @ rest) = Inr (v, rest)" for v rest
    by (cases v) (simp_all add: rd_op_def)
qed

interpretation ops_reader: exact_reader "read_ops ctx" put_ops ops_fit
  by unfold_locales
    (auto simp: read_ops_def exact_reader.counted_exact [OF op_reader] ops_fit_def put_ops_def)

interpretation payload_reader: exact_reader rd_payload payload_code payload_fits
proof (rule exact_readerI)
  show "rd_payload buf = Inr (v, rest) \<Longrightarrow> payload_fits v \<and> buf = payload_code v @ rest" for buf v rest
    by (auto simp: rd_payload_def bind_res_Inr_iff reads payload_fits_def payload_code_def)
  show "payload_fits v \<Longrightarrow> rd_payload (payload_code v @ rest) = Inr (v, rest)" for v rest
    by (simp add: rd_payload_def payload_fits_def payload_code_def)
qed

lemma to_be_digest_nonempty [simp]: "to_be 32 (d :: digest) \<noteq> []"
  using length_to_be [of 32 d] by (metis list.size(3) zero_neq_numeral)

lemma dr_encode_short: "dr_validate r = Inr () \<Longrightarrow> length (dr_encode r) < 2 ^ 32"
  by (simp add: dr_encode_fixed dr_validate_iff MAX_BOUND_def)

lemma ttl_within_budget: "ttl_ok c \<Longrightarrow> Suc (Suc (length (rt_encode c))) \<le> MAX_COMMAND_BYTES"
  using rt_validate_iff [of c] by (simp add: ttl_ok_def)

text \<open>Decoding what was encoded.\<close>

lemma rd_body_encode:
  assumes "command_ok c" and "cmd_body c = tag # body"
  shows "rd_body (length (cmd_encode c)) tag body = Inr (c, [])"
proof (cases c)
  case (RawTtlCmd t)
  then show ?thesis
    using assms ttl_within_budget [of t] ttl_reader.reads_code [of t "[]"]
    by (auto simp: rd_body_def cmd_encode_def not_less)
next
  case (DataRangeCmd expected nxt)
  then show ?thesis
    using assms dr_encode_short [of nxt] rd_code(5) [of "dr_encode nxt" "[]"]
    by (auto simp: rd_body_def rd_range_cmd_def dr_decode_encode split: option.splits)
next
  case (PutCmd cf key val)
  then show ?thesis using assms rd_code(5) [of val "[]"] by (auto simp: rd_body_def)
next
  case (ConfChange add node)
  then show ?thesis using assms rd_code(4) [of node "[]"] by (auto simp: rd_body_def)
next
  case (Fenced fence inner)
  then show ?thesis
    using assms ops_reader.reads_code [of _ _ "[]"] by (cases inner) (auto simp: rd_body_def rd_fenced_def)
next
  case (CompactionConfirmed region floor)
  then show ?thesis
    using assms rd_code(4) [of "ap_index floor" "[]"] by (auto simp: rd_body_def)
qed (use assms ops_reader.reads_code [of _ _ "[]"] payload_reader.reads_code [of _ "[]"] in \<open>auto simp: rd_body_def\<close>)

text \<open>What is accepted was encoded, up to the byte that stands for a boolean.\<close>

lemma rd_range_Inr:
  "rd_range_cmd buf = Inr (c, rest) \<Longrightarrow> command_ok c \<and> 8 # buf = cmd_body c @ rest"
  by (auto simp: rd_range_cmd_def bind_res_Inr_iff reads to_from_be_widths dest: dr_decode_Inr split: if_splits)

lemma rd_fenced_Inr:
  "rd_fenced buf = Inr (c, rest) \<Longrightarrow> command_ok c \<and> 6 # buf = cmd_body c @ rest"
  by (auto simp: rd_fenced_def bind_res_Inr_iff reads ops_reader.exact split: if_splits)

definition loose_conf :: "bytes \<Rightarrow> command \<Rightarrow> bool" where
  "loose_conf b c \<longleftrightarrow> (\<exists>x node. 1 < x \<and> c = ConfChange True node \<and> b = [1, 3, x] @ to_be 8 node)"

lemma rd_body_Inr:
  assumes "rd_body n tag buf = Inr (c, [])"
  shows "command_ok c \<and> (tag # buf = cmd_body c \<or> loose_conf (1 # tag # buf) c)"
proof (cases "tag = 3")
  case True
  with assms obtain x node where x: "buf = x # to_be 8 node" "c = ConfChange (x \<noteq> 0) node"
    by (auto simp: rd_body_def bind_res_Inr_iff reads)
  consider "x = 0" | "x = 1" | "1 < x"
    by (metis word_gt_0 word_less_1 linorder_neqE)
  then show ?thesis using True x by cases (auto simp: loose_conf_def)
next
  case False
  with assms rd_range_Inr [of buf c "[]"] rd_fenced_Inr [of buf c "[]"] show ?thesis
    by (auto simp: rd_body_def bind_res_Inr_iff reads ttl_reader.exact ops_reader.exact payload_reader.exact
        split: if_splits)
qed

lemma cmd_decode_encode: "command_ok c \<Longrightarrow> cmd_decode (cmd_encode c) = Inr c"
proof -
  assume ok: "command_ok c"
  obtain tag body where "cmd_body c = tag # body" by (cases c rule: cmd_body.cases) auto
  with rd_body_encode [OF ok] show ?thesis by (simp add: cmd_decode_def cmd_encode_def)
qed

text \<open>
  C37. The command codec is exact: a byte string decodes to a command precisely when the command
  respects the format's limits and the string is its encoding, the only other accepted strings being
  membership records whose boolean byte exceeds one. Hence encoding is injective on well-formed
  commands, truncated, extended, nested or retired-tag entries are refused, and every TTL command
  that passes validation fits the decoder's byte budget.
\<close>

theorem command_codec_exact:
  "cmd_decode b = Inr c \<longleftrightarrow>
     command_ok c \<and> (b = cmd_encode c \<or>
       (\<exists>x node. 1 < x \<and> c = ConfChange True node \<and> b = [1, 3, x] @ to_be 8 node))"
proof
  assume "cmd_decode b = Inr c"
  then obtain tag buf where b: "b = 1 # tag # buf" and r: "rd_body (length b) tag buf = Inr (c, [])"
    by (auto simp: cmd_decode_def bind_res_Inr_iff reads ENTRY_VERSION_def split: if_splits)
  from rd_body_Inr [OF r] show "command_ok c \<and> (b = cmd_encode c \<or>
      (\<exists>x node. 1 < x \<and> c = ConfChange True node \<and> b = [1, 3, x] @ to_be 8 node))"
    by (auto simp: b cmd_encode_def ENTRY_VERSION_def loose_conf_def)
next
  assume "command_ok c \<and> (b = cmd_encode c \<or>
      (\<exists>x node. 1 < x \<and> c = ConfChange True node \<and> b = [1, 3, x] @ to_be 8 node))"
  then consider "command_ok c" "b = cmd_encode c"
    | x node where "1 < x" "c = ConfChange True node" "b = [1, 3, x] @ to_be 8 node" by blast
  then show "cmd_decode b = Inr c"
  proof cases
    case 1
    then show ?thesis by (simp add: cmd_decode_encode)
  next
    case 2
    then show ?thesis using rd_code(4) [of node "[]"]
      by (auto simp: cmd_decode_def rd_body_def ENTRY_VERSION_def)
  qed
qed

end
