(* ===== verification/StateMachine.thy ===== *)
theory StateMachine
  imports CommandCodec
begin

text \<open>
  Ordered apply, \<open>crates/raft/src/state_machine.rs\<close> with its modules \<open>data_range.rs\<close>,
  \<open>raw_ttl.rs\<close>, \<open>manifest_effect.rs\<close> and \<open>raw_group.rs\<close>. The \<open>ApplyStore\<close> trait is the record
  \<open>apply_store\<close> of its operations over an engine state; the engine behind the \<open>Arc\<close> is the field
  \<open>sm_engine\<close>. Every branch of \<open>apply_unobserved\<close> reads the engine, decides a batch and an outcome,
  makes one positioned write and then publishes the index. The decision is a \<open>plan_\<close> function that
  returns the batch, the outcome and whether the TTL flag is raised; \<open>sm_commit\<close> is the write and
  the publication. A \<open>?\<close> on a read is an error of the plan, which leaves the machine as it was.

  The adjudicator is a trait object: a record of its operations over the engine state, which
  \<open>range_fence\<close> instantiates for data groups.
\<close>

section \<open>Types\<close>

record 's apply_store =
  as_get :: "'s \<Rightarrow> column_family \<Rightarrow> bytes \<Rightarrow> bytes option result"
  as_write_applied :: "'s \<Rightarrow> write_batch \<Rightarrow> applied_position \<Rightarrow> 's \<times> unit result"
  as_applied_position :: "'s \<Rightarrow> durable_applied_position result"

record 's adjudicator =
  adj_is_fresh :: "'s \<Rightarrow> region_fence \<Rightarrow> bool result"
  adj_is_fresh_write :: "'s \<Rightarrow> region_fence \<Rightarrow> fenced_inner \<Rightarrow> bool result"
  adj_independent_of_raw_writes :: bool

type_synonym group_identity = "digest \<times> region_id \<times> digest"

record 's state_machine =
  sm_data_identity :: "group_identity option"
  sm_engine :: 's
  sm_applied :: u64
  sm_ttl_enabled :: bool
  sm_adjudicator :: "'s adjudicator option"

record manifest_pair =
  mp_generation :: u64
  mp_last_change_id :: bytes

datatype reconcile_observation =
    MyChangeApplied u64
  | KnownNotApplied bytes
  | ReconcileUnknown

datatype manifest_invalid_reason =
    EmptyChangeId | WatermarkBeyondEntry | GenerationExhausted | StaleEpochReason | InvalidCheckpoint

datatype manifest_verdict =
    VerdictApplied region_id u64
  | AlreadyApplied region_id u64
  | VerdictStale region_id u64
  | VerdictInvalid region_id manifest_invalid_reason

datatype apply_outcome =
    Plain
  | FenceRejected region_id
  | RawTtlRejectedOutcome region_id ttl_rejection
  | ManifestOutcome manifest_verdict

record apply_result =
  ar_applied_index :: u64
  ar_response :: "bytes option"
  ar_outcome :: apply_outcome

definition write_ok :: "u64 \<Rightarrow> apply_result" where
  "write_ok index = \<lparr>ar_applied_index = index, ar_response = None, ar_outcome = Plain\<rparr>"

record plan =
  pl_batch :: write_batch
  pl_outcome :: apply_outcome
  pl_ttl :: bool

definition plan_of :: "write_batch \<Rightarrow> apply_outcome \<Rightarrow> plan" where
  "plan_of batch outcome = \<lparr>pl_batch = batch, pl_outcome = outcome, pl_ttl = False\<rparr>"

text \<open>\<open>write_applied(batch, at)?\<close>, then the new index and the result.\<close>

definition sm_commit ::
  "'s apply_store \<Rightarrow> applied_position \<Rightarrow> plan result \<Rightarrow> 's state_machine \<Rightarrow> 's state_machine \<times> apply_result result" where
  "sm_commit S at p sm =
     (case p of Inl e \<Rightarrow> (sm, Inl e)
      | Inr p \<Rightarrow>
          (case as_write_applied S (sm_engine sm) (pl_batch p) at of
             (eng, Inl e) \<Rightarrow> (sm\<lparr>sm_engine := eng\<rparr>, Inl e)
           | (eng, Inr _) \<Rightarrow>
               (sm\<lparr>sm_engine := eng, sm_applied := ap_index at, sm_ttl_enabled := (pl_ttl p \<or> sm_ttl_enabled sm)\<rparr>,
                Inr \<lparr>ar_applied_index = ap_index at, ar_response = None, ar_outcome = pl_outcome p\<rparr>)))"

text \<open>\<open>get(..)?.map(decode).transpose()?\<close>.\<close>

definition read_as ::
  "'s apply_store \<Rightarrow> 's \<Rightarrow> column_family \<Rightarrow> bytes \<Rightarrow> (bytes \<Rightarrow> 'a result) \<Rightarrow> 'a option result" where
  "read_as S eng cf key dec =
     bind_res (as_get S eng cf key) (\<lambda>v.
       case v of None \<Rightarrow> Inr None | Some b \<Rightarrow> bind_res (dec b) (\<lambda>x. Inr (Some x)))"

section \<open>The manifest pair\<close>

definition manifest_pair_key :: "u64 \<Rightarrow> bytes" where
  "manifest_pair_key region =
     [0x00, 0x6b, 0x76, 0x39, 0x00, 0x6d, 0x61, 0x6e, 0x69, 0x66, 0x65, 0x73, 0x74, 0x5f, 0x70, 0x61, 0x69, 0x72, 0x00]
     @ to_be 8 region"

definition manifest_gen_key :: "u64 \<Rightarrow> u64 \<Rightarrow> bytes" where
  "manifest_gen_key region generation =
     [0x00, 0x6b, 0x76, 0x39, 0x00, 0x6d, 0x61, 0x6e, 0x69, 0x66, 0x65, 0x73, 0x74, 0x5f, 0x67, 0x65, 0x6e, 0x00]
     @ to_be 8 region @ 0 # to_be 8 generation"

definition mp_encode :: "manifest_pair \<Rightarrow> bytes" where
  "mp_encode p = to_be 8 (mp_generation p) @ mp_last_change_id p"

definition mp_decode :: "bytes \<Rightarrow> manifest_pair result" where
  "mp_decode b =
     (if length b < 8 then Inl (RaftError ''manifest pair value shorter than its generation field'')
      else let p = \<lparr>mp_generation = from_be (take 8 b), mp_last_change_id = drop 8 b\<rparr> in
        if mp_generation p > 0 \<and> mp_last_change_id p = []
        then Inl (RaftError ''manifest pair with advanced generation but empty change id'')
        else if mp_generation p = 0 \<and> mp_last_change_id p \<noteq> []
        then Inl (RaftError ''manifest pair at generation 0 with a change id'')
        else Inr p)"

definition virgin_pair :: manifest_pair where
  "virgin_pair = \<lparr>mp_generation = 0, mp_last_change_id = []\<rparr>"

definition classify_reconciliation :: "manifest_pair \<Rightarrow> u64 \<Rightarrow> bytes \<Rightarrow> reconcile_observation" where
  "classify_reconciliation pair expected_generation change_id =
     (if change_id = [] then ReconcileUnknown
      else case checked_add expected_generation 1 of
        None \<Rightarrow> ReconcileUnknown
      | Some exact_window \<Rightarrow>
          if mp_generation pair = exact_window
          then if mp_last_change_id pair = change_id then MyChangeApplied (mp_generation pair)
               else KnownNotApplied (mp_last_change_id pair)
          else ReconcileUnknown)"

definition sm_manifest_pair :: "'s apply_store \<Rightarrow> 's state_machine \<Rightarrow> u64 \<Rightarrow> manifest_pair result" where
  "sm_manifest_pair S sm region =
     bind_res (as_get S (sm_engine sm) Default (manifest_pair_key region)) (\<lambda>v.
       case v of Some b \<Rightarrow> mp_decode b | None \<Rightarrow> Inr virgin_pair)"

definition sm_manifest_at :: "'s apply_store \<Rightarrow> 's state_machine \<Rightarrow> u64 \<Rightarrow> u64 \<Rightarrow> (u64 \<times> u64 \<times> bytes) option result" where
  "sm_manifest_at S sm region generation =
     bind_res (as_get S (sm_engine sm) Default (manifest_gen_key region generation)) (\<lambda>v.
       case v of None \<Rightarrow> Inr None
       | Some b \<Rightarrow>
           if length b < 16 then Inl (RaftError ''installed manifest shorter than its watermark fields'')
           else Inr (Some (from_be (bslice b 0 8), from_be (bslice b 8 16), drop 16 b)))"

definition sm_manifest_transition ::
  "(bytes \<Rightarrow> digest) \<Rightarrow> json_ops \<Rightarrow> 's apply_store \<Rightarrow> 's state_machine \<Rightarrow> u64 \<Rightarrow> u64 \<Rightarrow> manifest_pair option result" where
  "sm_manifest_transition sha256 J S sm region generation =
     (case checked_sub generation 1 of None \<Rightarrow> Inr None
      | Some predecessor \<Rightarrow>
          bind_res (sm_manifest_at S sm region generation) (\<lambda>row.
            case row of None \<Rightarrow> Inr None
            | Some (term, index, b) \<Rightarrow>
                if \<not> is_checkpoint b then Inr None
                else bind_res (cm_decode J b) (\<lambda>checkpoint.
                  if fs_region (cm_scope checkpoint) \<noteq> region \<or> cm_term checkpoint \<noteq> term \<or> cm_index checkpoint \<noteq> index
                  then Inl (RaftError ''historical checkpoint binding mismatch'')
                  else bind_res (cm_change_id sha256 J checkpoint predecessor) (\<lambda>change_id.
                    Inr (Some \<lparr>mp_generation = generation, mp_last_change_id = change_id\<rparr>)))))"

section \<open>History pages\<close>

definition MAX_MANIFEST_EFFECT_ROWS :: u64 where "MAX_MANIFEST_EFFECT_ROWS = 4"

record manifest_effect_page =
  me_found :: bool
  me_next :: "u64 option"
  me_examined :: u64

fun effect_rows ::
  "json_ops \<Rightarrow> 's apply_store \<Rightarrow> 's state_machine \<Rightarrow> u64 \<Rightarrow> checkpoint_manifest \<Rightarrow> u64 list \<Rightarrow> u64 \<Rightarrow> (bool \<times> u64) result"
where
  "effect_rows J S sm region intended [] examined = Inr (False, examined)"
| "effect_rows J S sm region intended (g # gs) examined =
     bind_res (sm_manifest_at S sm region g) (\<lambda>row.
       case row of
         None \<Rightarrow> effect_rows J S sm region intended gs (examined + 1)
       | Some (term, index, b) \<Rightarrow>
           if is_checkpoint b then
             bind_res (cm_decode J b) (\<lambda>actual.
               if fs_region (cm_scope actual) \<noteq> region \<or> cm_position actual \<noteq> \<lparr>ap_term = term, ap_index = index\<rparr>
               then Inl (RaftError ''manifest effect history binding differs'')
               else if covers_effect actual intended then Inr (True, examined + 1)
               else effect_rows J S sm region intended gs (examined + 1))
           else effect_rows J S sm region intended gs (examined + 1))"

definition sm_manifest_effect_page ::
  "json_ops \<Rightarrow> 's apply_store \<Rightarrow> 's state_machine \<Rightarrow> u64 \<Rightarrow> bytes \<Rightarrow> u64 option \<Rightarrow> manifest_effect_page result" where
  "sm_manifest_effect_page J S sm region intended next =
     (if \<not> is_checkpoint intended then Inr \<lparr>me_found = False, me_next = None, me_examined = 0\<rparr>
      else bind_res (cm_decode J intended) (\<lambda>intended.
        if fs_region (cm_scope intended) \<noteq> region
        then Inl (RaftError ''manifest effect query names a different group'')
        else bind_res (sm_manifest_pair S sm region) (\<lambda>pair.
          let latest = mp_generation pair;
              first = min (case next of None \<Rightarrow> latest | Some g \<Rightarrow> g) latest;
              stop = saturating_sub first MAX_MANIFEST_EFFECT_ROWS;
              rows = map of_nat (rev [Suc (unat stop)..<Suc (unat first)])
          in bind_res (effect_rows J S sm region intended rows 0) (\<lambda>(found, examined).
               Inr \<lparr>me_found = found, me_next = (if \<not> found \<and> stop > 0 then Some stop else None),
                    me_examined = examined\<rparr>))))"

section \<open>Construction and the range fence\<close>

definition with_engine :: "'s apply_store \<Rightarrow> 's \<Rightarrow> 's state_machine result" where
  "with_engine S eng =
     bind_res (as_applied_position S eng) (\<lambda>p.
     bind_res (read_as S eng Default CLOCK_KEY wm_decode) (\<lambda>clock.
       Inr \<lparr>sm_data_identity = None, sm_engine = eng,
            sm_applied = (case p of AppliedThrough at \<Rightarrow> ap_index at | _ \<Rightarrow> 0),
            sm_ttl_enabled = (clock \<noteq> None), sm_adjudicator = None\<rparr>))"

definition set_fence_adjudicator :: "'s adjudicator \<Rightarrow> 's state_machine \<Rightarrow> 's state_machine" where
  "set_fence_adjudicator a sm = sm\<lparr>sm_adjudicator := Some a\<rparr>"

definition range_identity :: "data_range \<Rightarrow> group_identity" where
  "range_identity r = (dr_root r, dr_region r, dr_creation r)"

definition rf_current :: "'s apply_store \<Rightarrow> group_identity \<Rightarrow> 's \<Rightarrow> data_range option result" where
  "rf_current S ident eng =
     bind_res (read_as S eng Default RANGE_KEY dr_decode) (\<lambda>r.
       case r of
         Some r' \<Rightarrow> if range_identity r' \<noteq> ident
                    then Inl (RaftError ''local data range belongs to another group'') else Inr r
       | None \<Rightarrow> Inr r)"

definition rf_matches :: "data_range \<Rightarrow> region_fence \<Rightarrow> bool" where
  "rf_matches r fence \<longleftrightarrow> \<not> dr_sealed r \<and> dr_region r = rf_region_id fence
     \<and> dr_conf_ver r = rf_conf_ver fence \<and> dr_version r = rf_version fence"

fun kv_op_target :: "kv_op \<Rightarrow> byte \<times> bytes" where
  "kv_op_target (KvPut cf key val) = (cf, key)"
| "kv_op_target (KvDelete cf key) = (cf, key)"

definition op_in_range :: "data_range \<Rightarrow> kv_op \<Rightarrow> bool" where
  "op_in_range r op =
     (let (cf, key) = kv_op_target op in
      cf = raft_cf_code Default \<and>
      (case decode_key key of
         Inl _ \<Rightarrow> False
       | Inr k \<Rightarrow> dk_mode k = Raw \<and> dk_keyspace k = dr_keyspace r \<and> dr_contains r (dk_user_key k)))"

definition rf_is_fresh :: "'s apply_store \<Rightarrow> group_identity \<Rightarrow> 's \<Rightarrow> region_fence \<Rightarrow> bool result" where
  "rf_is_fresh S ident eng fence =
     bind_res (rf_current S ident eng) (\<lambda>r. Inr (case r of None \<Rightarrow> False | Some r \<Rightarrow> rf_matches r fence))"

definition rf_is_fresh_write ::
  "'s apply_store \<Rightarrow> group_identity \<Rightarrow> 's \<Rightarrow> region_fence \<Rightarrow> fenced_inner \<Rightarrow> bool result" where
  "rf_is_fresh_write S ident eng fence inner =
     bind_res (rf_current S ident eng) (\<lambda>r.
       case r of None \<Rightarrow> Inr False
       | Some r \<Rightarrow>
           if \<not> rf_matches r fence then Inr False
           else (case inner of FencedWrite ops \<Rightarrow> Inr (list_all (op_in_range r) ops)))"

definition range_fence :: "'s apply_store \<Rightarrow> group_identity \<Rightarrow> 's adjudicator" where
  "range_fence S ident = \<lparr>adj_is_fresh = rf_is_fresh S ident, adj_is_fresh_write = rf_is_fresh_write S ident,
     adj_independent_of_raw_writes = True\<rparr>"

definition set_data_group ::
  "'s apply_store \<Rightarrow> digest \<Rightarrow> region_id \<Rightarrow> digest \<Rightarrow> 's state_machine \<Rightarrow> 's state_machine \<times> unit result" where
  "set_data_group S root region creation sm =
     (if sm_data_identity sm \<noteq> None \<or> root = 0 \<or> region < 100 \<or> creation = 0
      then (sm, Inl (RaftError ''invalid or duplicate data group configuration''))
      else let ident = (root, region, creation) in
        case rf_current S ident (sm_engine sm) of
          Inl e \<Rightarrow> (sm, Inl e)
        | Inr _ \<Rightarrow> (sm\<lparr>sm_data_identity := Some ident, sm_adjudicator := Some (range_fence S ident)\<rparr>, Inr ()))"

section \<open>Ownership and compaction records\<close>

definition ttl_refuse :: "region_id \<Rightarrow> ttl_rejection \<Rightarrow> plan" where
  "ttl_refuse region reason = plan_of [] (RawTtlRejectedOutcome region reason)"

definition plan_data_range ::
  "(bytes \<Rightarrow> digest) \<Rightarrow> 's apply_store \<Rightarrow> digest option \<Rightarrow> data_range \<Rightarrow> 's state_machine \<Rightarrow> plan result" where
  "plan_data_range sha256 S expected next sm =
     bind_res (dr_validate next) (\<lambda>_.
       if sm_data_identity sm \<noteq> Some (range_identity next)
       then Inl (RaftError ''data range command lacks exact local group identity'')
       else bind_res (read_as S (sm_engine sm) Default RANGE_KEY dr_decode) (\<lambda>current.
         if (case current of None \<Rightarrow> False | Some r \<Rightarrow> sm_data_identity sm \<noteq> Some (range_identity r))
         then Inl (RaftError ''stored range has a foreign group identity'')
         else if sm_ttl_enabled sm \<and> dr_sealed next then Inr (ttl_refuse (dr_region next) LegacyCommand)
         else
           let accepted =
                 (if current = Some next then True
                  else case (current, expected) of
                    (None, None) \<Rightarrow> \<not> dr_sealed next \<and> dr_conf_ver next = 1 \<and> dr_version next = 1
                  | (Some prior, Some d) \<Rightarrow> dr_digest sha256 prior = d \<and> dr_may_follow next prior
                  | _ \<Rightarrow> False);
               batch = (if accepted \<and> current \<noteq> Some next then batch_put [] Default RANGE_KEY (dr_encode next) else [])
           in Inr (plan_of batch (if accepted then Plain else FenceRejected (dr_region next)))))"

definition floor_encode :: "applied_position \<Rightarrow> bytes" where
  "floor_encode p = to_be 8 (ap_term p) @ to_be 8 (ap_index p)"

definition floor_read :: "bytes option \<Rightarrow> applied_position option" where
  "floor_read v =
     (case v of None \<Rightarrow> None
      | Some b \<Rightarrow>
          if length b = 16
          then Some \<lparr>ap_term = from_be (bslice b 0 8), ap_index = from_be (bslice b 8 16)\<rparr> else None)"

definition plan_compaction_confirmed ::
  "'s apply_store \<Rightarrow> u64 \<Rightarrow> applied_position \<Rightarrow> 's state_machine \<Rightarrow> plan result" where
  "plan_compaction_confirmed S region floor sm =
     (case sm_data_identity sm of
        None \<Rightarrow> Inl (RaftError ''compaction confirmation on a non-data-group state machine'')
      | Some (root, identity_region, creation) \<Rightarrow>
          if identity_region \<noteq> region then Inl (RaftError ''compaction confirmation names a foreign group'')
          else bind_res (as_get S (sm_engine sm) Default COMPACTION_CONFIRMED_KEY) (\<lambda>v.
            let advances = (case floor_read v of None \<Rightarrow> True | Some c \<Rightarrow> ap_index floor > ap_index c) in
            Inr (plan_of (if advances then batch_put [] Default COMPACTION_CONFIRMED_KEY (floor_encode floor) else []) Plain)))"

section \<open>TTL commands\<close>

definition raw_ttl_activation_range :: "'s apply_store \<Rightarrow> 's state_machine \<Rightarrow> data_range result" where
  "raw_ttl_activation_range S sm =
     (case sm_data_identity sm of
        None \<Rightarrow> Inl (MetaNotReady ''Raw TTL activation requires a data group'')
      | Some ident \<Rightarrow>
          bind_res (as_get S (sm_engine sm) Default RANGE_KEY) (\<lambda>v.
            case v of None \<Rightarrow> Inl (MetaNotReady ''Raw TTL range is not applied'')
            | Some b \<Rightarrow>
                bind_res (dr_decode b) (\<lambda>r.
                  if range_identity r \<noteq> ident then Inl (RaftError ''Raw TTL found a foreign stored range'')
                  else if dr_sealed r then Inl (StaleEpoch (dr_region r)) else Inr r)))"

definition raw_ttl_state :: "'s apply_store \<Rightarrow> 's state_machine \<Rightarrow> (data_range \<times> clock_watermark) result" where
  "raw_ttl_state S sm =
     bind_res (raw_ttl_activation_range S sm) (\<lambda>r.
     bind_res (as_get S (sm_engine sm) Default CLOCK_KEY) (\<lambda>v.
       case v of None \<Rightarrow> Inl (RawTtlRejected (dr_region r) NotEnabled)
       | Some b \<Rightarrow> bind_res (wm_decode b) (\<lambda>w. Inr (r, w))))"

fun ttl_mutations ::
  "keyspace_id \<Rightarrow> expiry_record option \<Rightarrow> raw_ttl_mutation list \<Rightarrow> write_batch \<Rightarrow> write_batch result" where
  "ttl_mutations ks expiry [] batch = Inr batch"
| "ttl_mutations ks expiry (TtlPut key val # ms) batch =
     bind_res (encode_key Raw ks key) (\<lambda>key.
       let batch = batch_put batch Default key val in
       ttl_mutations ks expiry ms
         (case expiry of Some e \<Rightarrow> batch_put batch Write key (er_encode e) | None \<Rightarrow> batch_delete batch Write key))"
| "ttl_mutations ks expiry (TtlDelete key # ms) batch =
     bind_res (encode_key Raw ks key) (\<lambda>key.
       ttl_mutations ks expiry ms (batch_delete (batch_delete batch Default key) Write key))"

fun ttl_cleanup ::
  "'s apply_store \<Rightarrow> 's \<Rightarrow> keyspace_id \<Rightarrow> clock_watermark \<Rightarrow> (bytes \<times> expiry_record) list \<Rightarrow> write_batch \<Rightarrow> write_batch result"
where
  "ttl_cleanup S eng ks clock [] batch = Inr batch"
| "ttl_cleanup S eng ks clock ((key, observed) # cs) batch =
     bind_res (encode_key Raw ks key) (\<lambda>key.
     bind_res (read_as S eng Write key er_decode) (\<lambda>current.
       ttl_cleanup S eng ks clock cs
         (if permits_cleanup observed current clock
          then batch_delete (batch_delete batch Default key) Write key else batch)))"

definition ttl_action_effect ::
  "'s apply_store \<Rightarrow> 's \<Rightarrow> applied_position \<Rightarrow> raw_ttl_command \<Rightarrow> clock_watermark \<Rightarrow> (clock_watermark \<times> write_batch) result" where
  "ttl_action_effect S eng at c clock =
     (case rt_action c of
        Enable observed \<Rightarrow> Inr (wm_merge clock observed, [])
      | Observe observed \<Rightarrow> Inr (wm_merge clock observed, [])
      | TtlWrite plan mutations \<Rightarrow>
          bind_res (at_write plan (rt_creation c) at) (\<lambda>expiry.
          bind_res (ttl_mutations (rt_keyspace c) expiry mutations []) (\<lambda>batch.
            Inr (wm_merge clock (ep_observed plan), batch)))
      | Cleanup candidates \<Rightarrow>
          bind_res (ttl_cleanup S eng (rt_keyspace c) clock candidates []) (\<lambda>batch. Inr (clock, batch)))"

definition plan_raw_ttl :: "'s apply_store \<Rightarrow> applied_position \<Rightarrow> raw_ttl_command \<Rightarrow> 's state_machine \<Rightarrow> plan result" where
  "plan_raw_ttl S at c sm =
     (case sm_data_identity sm of
        None \<Rightarrow> Inl (RaftError ''Raw TTL apply requires local data group identity'')
      | Some ident \<Rightarrow>
          bind_res (read_as S (sm_engine sm) Default RANGE_KEY dr_decode) (\<lambda>current.
            if (case current of None \<Rightarrow> False | Some r \<Rightarrow> range_identity r \<noteq> ident)
            then Inl (RaftError ''Raw TTL found a foreign stored range'')
            else
              let region = rf_region_id (rt_fence c) in
              if (rt_root c, region, rt_creation c) \<noteq> ident
                 \<or> (case current of None \<Rightarrow> False | Some r \<Rightarrow> dr_keyspace r \<noteq> rt_keyspace c)
              then Inr (ttl_refuse region InvalidScope)
              else if \<not> (case current of None \<Rightarrow> False
                         | Some r \<Rightarrow> \<not> dr_sealed r \<and> dr_conf_ver r = rf_conf_ver (rt_fence c)
                             \<and> dr_version r = rf_version (rt_fence c) \<and> list_all (dr_contains r) (rt_keys c))
              then Inr (plan_of [] (FenceRejected region))
              else bind_res (read_as S (sm_engine sm) Default CLOCK_KEY wm_decode) (\<lambda>prior.
                if (prior \<noteq> None) \<noteq> sm_ttl_enabled sm
                then Inl (RaftError ''Raw TTL activation differs from durable state'')
                else if prior = None \<and> \<not> is_enable (rt_action c) then Inr (ttl_refuse region NotEnabled)
                else bind_res (ttl_action_effect S (sm_engine sm) at c (case prior of None \<Rightarrow> 0 | Some w \<Rightarrow> w))
                  (\<lambda>(clock, batch).
                    Inr \<lparr>pl_batch = (if prior \<noteq> Some clock then batch_put batch Default CLOCK_KEY (wm_encode clock) else batch),
                         pl_outcome = Plain, pl_ttl = True\<rparr>))))"

definition reserved :: "byte \<Rightarrow> bytes \<Rightarrow> bool" where
  "reserved cf key \<longleftrightarrow>
     cf = raft_cf_code Default \<and> key = CLOCK_KEY
     \<or> cf = raft_cf_code Write \<and> (case decode_key key of Inl _ \<Rightarrow> False | Inr k \<Rightarrow> dk_mode k = Raw)"

definition legacy_ops :: "command \<Rightarrow> kv_op list option" where
  "legacy_ops c =
     (case c of
        PutCmd cf key val \<Rightarrow> Some [KvPut cf key val]
      | WriteCmd ops \<Rightarrow> Some ops
      | CatalogTxn ops \<Rightarrow> Some ops
      | Fenced fence (FencedWrite ops) \<Rightarrow> Some ops
      | _ \<Rightarrow> None)"

definition guard_legacy_ttl :: "command \<Rightarrow> 's state_machine \<Rightarrow> plan option result" where
  "guard_legacy_ttl c sm =
     (case legacy_ops c of
        None \<Rightarrow> Inr None
      | Some ops \<Rightarrow>
          if \<not> (sm_ttl_enabled sm \<or> list_ex (\<lambda>op. let (cf, key) = kv_op_target op in reserved cf key) ops) then Inr None
          else if sm_ttl_enabled sm then
            (case sm_data_identity sm of
               None \<Rightarrow> Inl (RaftError ''TTL-enabled engine lacks local data group identity'')
             | Some (root, region, creation) \<Rightarrow> Inr (Some (ttl_refuse region LegacyCommand)))
          else Inl (RaftError ''legacy command targets reserved Raw TTL metadata''))"

section \<open>Manifest changes and fenced writes\<close>

definition checkpoint_error ::
  "(bytes \<Rightarrow> digest) \<Rightarrow> json_ops \<Rightarrow> 's state_machine \<Rightarrow> command \<Rightarrow> manifest_change_payload
    \<Rightarrow> manifest_invalid_reason option result" where
  "checkpoint_error sha256 J sm cmd p =
     (if is_checkpoint (mc_changeset p) then
        bind_res (decode_checkpoint_manifest J cmd (mc_changeset p)) (\<lambda>cp.
          let mismatch = (fs_region (cm_scope cp) \<noteq> mc_region p \<or> cm_term cp \<noteq> mc_watermark_term p
                          \<or> cm_index cp \<noteq> mc_watermark_index p) in
          bind_res (if mismatch then Inr True
                    else bind_res (cm_change_id sha256 J cp (mc_expected_generation p)) (\<lambda>id. Inr (id \<noteq> mc_change_id p)))
            (\<lambda>bad. if bad then Inr (Some InvalidCheckpoint)
              else case sm_adjudicator sm of
                None \<Rightarrow> Inl (RaftError ''checkpoint apply requires epoch adjudicator'')
              | Some a \<Rightarrow>
                  bind_res (adj_is_fresh a (sm_engine sm)
                      \<lparr>rf_region_id = mc_region p, rf_conf_ver = fs_conf_ver (cm_scope cp),
                       rf_version = fs_version (cm_scope cp)\<rparr>) (\<lambda>fresh.
                    Inr (if \<not> fresh then Some StaleEpochReason else None))))
      else if is_large cmd then Inr (Some InvalidCheckpoint)
      else Inr None)"

definition installed_manifest :: "manifest_change_payload \<Rightarrow> bytes" where
  "installed_manifest p = to_be 8 (mc_watermark_term p) @ to_be 8 (mc_watermark_index p) @ mc_changeset p"

definition manifest_cas ::
  "applied_position \<Rightarrow> manifest_change_payload \<Rightarrow> manifest_pair \<Rightarrow> manifest_invalid_reason option \<Rightarrow> manifest_verdict \<times> write_batch" where
  "manifest_cas at p current bad =
     (case bad of
        Some reason \<Rightarrow> (VerdictInvalid (mc_region p) reason, [])
      | None \<Rightarrow>
          if mc_change_id p = [] then (VerdictInvalid (mc_region p) EmptyChangeId, [])
          else if mc_watermark_index p \<ge> ap_index at then (VerdictInvalid (mc_region p) WatermarkBeyondEntry, [])
          else if mc_expected_generation p = mp_generation current then
            (case checked_add (mp_generation current) 1 of
               None \<Rightarrow> (VerdictInvalid (mc_region p) GenerationExhausted, [])
             | Some g \<Rightarrow>
                 (VerdictApplied (mc_region p) g,
                  batch_put (batch_put [] Default (manifest_pair_key (mc_region p))
                      (mp_encode \<lparr>mp_generation = g, mp_last_change_id = mc_change_id p\<rparr>))
                    Default (manifest_gen_key (mc_region p) g) (installed_manifest p)))
          else if checked_add (mc_expected_generation p) 1 = Some (mp_generation current)
                  \<and> mc_change_id p = mp_last_change_id current
          then (AlreadyApplied (mc_region p) (mp_generation current), [])
          else (VerdictStale (mc_region p) (mp_generation current), []))"

definition plan_manifest ::
  "(bytes \<Rightarrow> digest) \<Rightarrow> json_ops \<Rightarrow> 's apply_store \<Rightarrow> applied_position \<Rightarrow> command \<Rightarrow> manifest_change_payload
    \<Rightarrow> 's state_machine \<Rightarrow> plan result" where
  "plan_manifest sha256 J S at cmd p sm =
     bind_res (sm_manifest_pair S sm (mc_region p)) (\<lambda>current.
     bind_res (checkpoint_error sha256 J sm cmd p) (\<lambda>bad.
       let (verdict, batch) = manifest_cas at p current bad in Inr (plan_of batch (ManifestOutcome verdict))))"

definition plan_fenced :: "region_fence \<Rightarrow> fenced_inner \<Rightarrow> 's state_machine \<Rightarrow> plan result" where
  "plan_fenced fence inner sm =
     (case sm_adjudicator sm of
        None \<Rightarrow> Inl (RaftError ''committed fenced entry on a node with no fence adjudicator'')
      | Some a \<Rightarrow>
          bind_res (adj_is_fresh_write a (sm_engine sm) fence inner) (\<lambda>fresh.
            Inr (if fresh then plan_of (fenced_to_write_batch inner) Plain
                 else plan_of [] (FenceRejected (rf_region_id fence)))))"

section \<open>Apply\<close>

definition plan_command ::
  "(bytes \<Rightarrow> digest) \<Rightarrow> json_ops \<Rightarrow> 's apply_store \<Rightarrow> applied_position \<Rightarrow> command \<Rightarrow> 's state_machine \<Rightarrow> plan result" where
  "plan_command sha256 J S at cmd sm =
     (case cmd of
        RawTtlCmd c \<Rightarrow> plan_raw_ttl S at c sm
      | _ \<Rightarrow>
          bind_res (guard_legacy_ttl cmd sm) (\<lambda>refused.
            case refused of Some p \<Rightarrow> Inr p
            | None \<Rightarrow>
                (case cmd of
                   DataRangeCmd expected next \<Rightarrow> plan_data_range sha256 S expected next sm
                 | CompactionConfirmed region floor \<Rightarrow> plan_compaction_confirmed S region floor sm
                 | ManifestChange p \<Rightarrow> plan_manifest sha256 J S at cmd p sm
                 | LargeManifestChange p \<Rightarrow> plan_manifest sha256 J S at cmd p sm
                 | Fenced fence inner \<Rightarrow> plan_fenced fence inner sm
                 | _ \<Rightarrow> bind_res (to_write_batch cmd) (\<lambda>batch. Inr (plan_of batch Plain)))))"

definition apply_unobserved ::
  "(bytes \<Rightarrow> digest) \<Rightarrow> json_ops \<Rightarrow> 's apply_store \<Rightarrow> applied_position \<Rightarrow> command \<Rightarrow> 's state_machine
    \<Rightarrow> 's state_machine \<times> apply_result result" where
  "apply_unobserved sha256 J S at cmd sm =
     (if ap_index at \<le> sm_applied sm then (sm, Inr (write_ok (ap_index at)))
      else sm_commit S at (plan_command sha256 J S at cmd sm) sm)"

text \<open>An observer wraps the step; it is handed the closure that applies the entry.\<close>

type_synonym 's apply_step = "'s state_machine \<Rightarrow> 's state_machine \<times> apply_result result"

definition apply_at ::
  "(bytes \<Rightarrow> digest) \<Rightarrow> json_ops \<Rightarrow> 's apply_store \<Rightarrow> (applied_position \<Rightarrow> command \<Rightarrow> 's apply_step \<Rightarrow> 's apply_step) option
    \<Rightarrow> applied_position \<Rightarrow> command \<Rightarrow> 's apply_step" where
  "apply_at sha256 J S observer at cmd =
     (case observer of
        None \<Rightarrow> apply_unobserved sha256 J S at cmd
      | Some obs \<Rightarrow> obs at cmd (apply_unobserved sha256 J S at cmd))"

datatype entry_kind = CommandEntry | NoopEntry | ConfChangeV1 | ConfChangeV2

record committed_entry =
  ce_index :: u64
  ce_term :: u64
  ce_kind :: entry_kind
  ce_data :: bytes

definition sm_apply ::
  "(bytes \<Rightarrow> digest) \<Rightarrow> json_ops \<Rightarrow> 's apply_store \<Rightarrow> committed_entry \<Rightarrow> 's state_machine
    \<Rightarrow> 's state_machine \<times> apply_result result" where
  "sm_apply sha256 J S entry sm =
     (case cmd_decode (ce_data entry) of Inl e \<Rightarrow> (sm, Inl e)
      | Inr cmd \<Rightarrow> apply_at sha256 J S None \<lparr>ap_term = ce_term entry, ap_index = ce_index entry\<rparr> cmd sm)"

text \<open>The entries \<open>take_ready\<close> returned, applied in order up to the first error.\<close>

fun drive_apply ::
  "(bytes \<Rightarrow> digest) \<Rightarrow> json_ops \<Rightarrow> 's apply_store \<Rightarrow> committed_entry list \<Rightarrow> 's state_machine
    \<Rightarrow> 's state_machine \<times> apply_result list result" where
  "drive_apply sha256 J S [] sm = (sm, Inr [])"
| "drive_apply sha256 J S (entry # ready) sm =
     (if ce_kind entry \<noteq> CommandEntry then drive_apply sha256 J S ready sm
      else case sm_apply sha256 J S entry sm of
        (sm1, Inl e) \<Rightarrow> (sm1, Inl e)
      | (sm1, Inr r) \<Rightarrow>
          (case drive_apply sha256 J S ready sm1 of
             (sm2, Inl e) \<Rightarrow> (sm2, Inl e)
           | (sm2, Inr rs) \<Rightarrow> (sm2, Inr (r # rs))))"

definition sm_get :: "'s apply_store \<Rightarrow> 's state_machine \<Rightarrow> column_family \<Rightarrow> bytes \<Rightarrow> bytes option result" where
  "sm_get S sm cf key = as_get S (sm_engine sm) cf key"

section \<open>Raw groups\<close>

definition MAX_RAW_GROUP_ENTRIES :: nat where "MAX_RAW_GROUP_ENTRIES = 128"

definition raw_key :: "byte \<Rightarrow> bytes \<Rightarrow> bool" where
  "raw_key cf key \<longleftrightarrow>
     cf = raft_cf_code Default \<and>
     (case decode_key key of Inl _ \<Rightarrow> False | Inr k \<Rightarrow> dk_mode k = Raw \<and> dk_keyspace k \<noteq> KEYSPACE_SYSTEM)"

definition raw_ops :: "kv_op list \<Rightarrow> bool" where
  "raw_ops ops = list_all (\<lambda>op. let (cf, key) = kv_op_target op in raw_key cf key) ops"

definition can_group_raw :: "command \<Rightarrow> 's state_machine \<Rightarrow> bool" where
  "can_group_raw cmd sm =
     (if sm_ttl_enabled sm then False
      else case cmd of
        PutCmd cf key val \<Rightarrow> raw_key cf key
      | WriteCmd ops \<Rightarrow> raw_ops ops
      | Fenced fence (FencedWrite ops) \<Rightarrow>
          raw_ops ops \<and> (case sm_adjudicator sm of None \<Rightarrow> False | Some a \<Rightarrow> adj_independent_of_raw_writes a)
      | _ \<Rightarrow> False)"

definition group_entry :: "applied_position \<Rightarrow> command \<Rightarrow> 's state_machine \<Rightarrow> (write_batch \<times> apply_result) result" where
  "group_entry at cmd sm =
     (case cmd of
        Fenced fence inner \<Rightarrow>
          (case sm_adjudicator sm of
             None \<Rightarrow> Inl (RaftError ''Raw apply group requires fence adjudicator'')
           | Some a \<Rightarrow>
               bind_res (adj_is_fresh_write a (sm_engine sm) fence inner) (\<lambda>fresh.
                 Inr (if fresh then (fenced_to_write_batch inner, write_ok (ap_index at))
                      else ([], \<lparr>ar_applied_index = ap_index at, ar_response = None,
                                  ar_outcome = FenceRejected (rf_region_id fence)\<rparr>))))
      | _ \<Rightarrow> bind_res (to_write_batch cmd) (\<lambda>batch. Inr (batch, write_ok (ap_index at))))"

fun group_plan ::
  "'s state_machine \<Rightarrow> (applied_position \<times> command) list \<Rightarrow> u64 \<Rightarrow> u64 \<Rightarrow> write_batch \<Rightarrow> (write_batch \<times> apply_result list) result"
where
  "group_plan sm [] previous_index previous_term batch = Inr (batch, [])"
| "group_plan sm ((at, cmd) # rest) previous_index previous_term batch =
     (if ap_index at \<le> previous_index \<or> ap_term at = 0 \<or> ap_term at < previous_term
      then Inl (RaftError ''Raw apply group positions are not ordered'')
      else if \<not> can_group_raw cmd sm then Inl (RaftError ''non-independent command in Raw apply group'')
      else bind_res (group_entry at cmd sm) (\<lambda>(next, result).
           bind_res (group_plan sm rest (ap_index at) (ap_term at) (batch_append batch next)) (\<lambda>(batch, results).
             Inr (batch, result # results))))"

definition apply_raw_group ::
  "'s apply_store \<Rightarrow> (applied_position \<times> command) list \<Rightarrow> 's state_machine \<Rightarrow> 's state_machine \<times> apply_result list result" where
  "apply_raw_group S cmds sm =
     (if cmds = [] \<or> length cmds > MAX_RAW_GROUP_ENTRIES then (sm, Inl (RaftError ''invalid Raw apply group length''))
      else case as_applied_position S (sm_engine sm) of
        Inl e \<Rightarrow> (sm, Inl e)
      | Inr p \<Rightarrow>
          (case group_plan sm cmds (sm_applied sm) (case p of AppliedThrough at \<Rightarrow> ap_term at | _ \<Rightarrow> 0) [] of
             Inl e \<Rightarrow> (sm, Inl e)
           | Inr (batch, results) \<Rightarrow>
               let at = fst (last cmds) in
               (case as_write_applied S (sm_engine sm) batch at of
                  (eng, Inl e) \<Rightarrow> (sm\<lparr>sm_engine := eng\<rparr>, Inl e)
                | (eng, Inr _) \<Rightarrow> (sm\<lparr>sm_engine := eng, sm_applied := ap_index at\<rparr>, Inr results))))"

end
