(* ===== verification/MemEngine.thy ===== *)
theory MemEngine
  imports EngineContract
begin

text \<open>
  \<open>MemEngine\<close> of \<open>crates/engine/src/mem.rs\<close>: one persistent ordered map per column family behind one
  lock. The maps are the \<open>rpds\<close> crate's; they are a parameter of every definition, and the locale
  \<open>rpds_laws\<close> states what the engine relies on. The engine is shown to implement the contract of
  \<open>EngineContract\<close>, and the sorted association list is an instance of the laws.
\<close>

section \<open>The persistent map\<close>

text \<open>
  The calls of \<open>rpds::RedBlackTreeMapSync\<close> the engine makes; \<open>rp_range t s e\<close> is the sequence
  \<open>range(s..e)\<close> yields and \<open>rp_range_to t k\<close> the sequence of \<open>range(..=k)\<close>.
\<close>

record 't rpds_ops =
  rp_new :: 't
  rp_get :: "'t \<Rightarrow> bytes \<Rightarrow> bytes option"
  rp_insert_mut :: "'t \<Rightarrow> bytes \<Rightarrow> bytes \<Rightarrow> 't"
  rp_remove_mut :: "'t \<Rightarrow> bytes \<Rightarrow> 't"
  rp_range :: "'t \<Rightarrow> bytes \<Rightarrow> bytes \<Rightarrow> scan_entry list"
  rp_range_to :: "'t \<Rightarrow> bytes \<Rightarrow> scan_entry list"
  rp_size :: "'t \<Rightarrow> nat"

section \<open>The state\<close>

record 't mem_state =
  ms_default :: 't
  ms_lock :: 't
  ms_write :: 't
  ms_applied :: "applied_position option"
  ms_data_revision :: u64

fun mem_cf :: "'t mem_state \<Rightarrow> column_family \<Rightarrow> 't" where
  "mem_cf st Default = ms_default st"
| "mem_cf st Lock = ms_lock st"
| "mem_cf st Write = ms_write st"

fun mem_cf_mut :: "'t mem_state \<Rightarrow> column_family \<Rightarrow> ('t \<Rightarrow> 't) \<Rightarrow> 't mem_state" where
  "mem_cf_mut st Default f = st\<lparr>ms_default := f (ms_default st)\<rparr>"
| "mem_cf_mut st Lock f = st\<lparr>ms_lock := f (ms_lock st)\<rparr>"
| "mem_cf_mut st Write f = st\<lparr>ms_write := f (ms_write st)\<rparr>"

definition state_get :: "'t rpds_ops \<Rightarrow> 't mem_state \<Rightarrow> column_family \<Rightarrow> bytes \<Rightarrow> bytes option" where
  "state_get R st cf key = rp_get R (mem_cf st cf) key"

definition state_scan ::
  "'t rpds_ops \<Rightarrow> 't mem_state \<Rightarrow> column_family \<Rightarrow> bytes \<Rightarrow> bytes \<Rightarrow> nat \<Rightarrow> scan_entry list" where
  "state_scan R st cf start fin limit = take limit (rp_range R (mem_cf st cf) start fin)"

definition next_back :: "'a list \<Rightarrow> 'a option" where
  "next_back xs = (case xs of [] \<Rightarrow> None | x # ys \<Rightarrow> Some (last (x # ys)))"

definition state_seek_le :: "'t rpds_ops \<Rightarrow> 't mem_state \<Rightarrow> column_family \<Rightarrow> bytes \<Rightarrow> scan_entry option" where
  "state_seek_le R st cf target = next_back (rp_range_to R (mem_cf st cf) target)"

definition mem_new :: "'t rpds_ops \<Rightarrow> 't mem_state" where
  "mem_new R = \<lparr>ms_default = rp_new R, ms_lock = rp_new R, ms_write = rp_new R,
     ms_applied = None, ms_data_revision = 0\<rparr>"

section \<open>The engine\<close>

text \<open>A failed \<open>try_read\<close> on the lock is the argument \<open>contended\<close>; a snapshot is the state itself.\<close>

definition try_resident_snapshot :: "bool \<Rightarrow> 't mem_state \<Rightarrow> 't mem_state option" where
  "try_resident_snapshot contended st = (if contended then None else Some st)"

definition mem_read :: "'t mem_state \<Rightarrow> 't mem_state" where
  "mem_read st = st"

definition mem_get :: "'t rpds_ops \<Rightarrow> 't mem_state \<Rightarrow> column_family \<Rightarrow> bytes \<Rightarrow> bytes option result" where
  "mem_get R st cf key = Inr (state_get R (mem_read st) cf key)"

fun mem_mutate :: "'t rpds_ops \<Rightarrow> mutation \<Rightarrow> 't mem_state \<Rightarrow> 't mem_state" where
  "mem_mutate R (Put cf key val) st = mem_cf_mut st cf (\<lambda>t. rp_insert_mut R t key val)"
| "mem_mutate R (Delete cf key) st = mem_cf_mut st cf (\<lambda>t. rp_remove_mut R t key)"

definition mem_write :: "'t rpds_ops \<Rightarrow> 't mem_state \<Rightarrow> write_batch \<Rightarrow> 't mem_state \<times> unit result" where
  "mem_write R st b = (fold (mem_mutate R) b st, Inr ())"

definition mem_scan ::
  "'t rpds_ops \<Rightarrow> 't mem_state \<Rightarrow> column_family \<Rightarrow> bytes \<Rightarrow> bytes \<Rightarrow> nat \<Rightarrow> scan_entry list result" where
  "mem_scan R st cf start fin limit = Inr (state_scan R (mem_read st) cf start fin limit)"

definition mem_delete_range ::
  "'t rpds_ops \<Rightarrow> 't mem_state \<Rightarrow> column_family \<Rightarrow> bytes \<Rightarrow> bytes \<Rightarrow> 't mem_state \<times> unit result" where
  "mem_delete_range R st cf start fin =
     (let doomed = map fst (rp_range R (mem_cf st cf) start fin)
      in (mem_cf_mut st cf (fold (\<lambda>k t. rp_remove_mut R t k) doomed), Inr ()))"

definition mem_checksum ::
  "'t rpds_ops \<Rightarrow> 't mem_state \<Rightarrow> column_family \<Rightarrow> bytes \<Rightarrow> bytes \<Rightarrow> u64 result" where
  "mem_checksum R st cf start fin = Inr (fnv_entries (rp_range R (mem_cf (mem_read st) cf) start fin))"

definition mem_durability :: "'t mem_state \<Rightarrow> durability" where
  "mem_durability st = Volatile"

definition mem_snapshot :: "'t mem_state \<Rightarrow> 't mem_state result" where
  "mem_snapshot st = Inr (mem_read st)"

definition mem_write_applied ::
  "'t rpds_ops \<Rightarrow> 't mem_state \<Rightarrow> write_batch \<Rightarrow> applied_position \<Rightarrow> 't mem_state \<times> unit result" where
  "mem_write_applied R st b at =
     (if (case ms_applied st of None \<Rightarrow> False | Some previous \<Rightarrow> ap_index at \<le> ap_index previous)
      then (st, Inl POSITION_REFUSED)
      else let st1 = fold (mem_mutate R) b st;
               st2 = (if list_ex (\<lambda>m. changes_data_revision (mutation_cf m) (mutation_key m)) b
                      then st1\<lparr>ms_data_revision := saturating_add (ms_data_revision st1) 1\<rparr> else st1)
           in (st2\<lparr>ms_applied := Some at\<rparr>, Inr ()))"

definition mem_applied_position :: "'t mem_state \<Rightarrow> durable_applied_position result" where
  "mem_applied_position st = Inr VolatilePosition"

definition mem_data_revision :: "'t mem_state \<Rightarrow> u64" where
  "mem_data_revision st = ms_data_revision st"

definition volatile_applied_position :: "'t mem_state \<Rightarrow> applied_position option" where
  "volatile_applied_position st = ms_applied st"

section \<open>The snapshot\<close>

definition snap_resident_len :: "'t rpds_ops \<Rightarrow> 't mem_state \<Rightarrow> column_family \<Rightarrow> nat option" where
  "snap_resident_len R snap cf = Some (rp_size R (mem_cf snap cf))"

definition snap_get :: "'t rpds_ops \<Rightarrow> 't mem_state \<Rightarrow> column_family \<Rightarrow> bytes \<Rightarrow> bytes option result" where
  "snap_get R snap cf key = Inr (state_get R snap cf key)"

definition snap_get_resident ::
  "'t rpds_ops \<Rightarrow> 't mem_state \<Rightarrow> column_family \<Rightarrow> bytes \<Rightarrow> bytes option option" where
  "snap_get_resident R snap cf key = Some (rp_get R (mem_cf snap cf) key)"

definition snap_scan ::
  "'t rpds_ops \<Rightarrow> 't mem_state \<Rightarrow> column_family \<Rightarrow> bytes \<Rightarrow> bytes \<Rightarrow> nat \<Rightarrow> scan_entry list result" where
  "snap_scan R snap cf start fin limit = Inr (state_scan R snap cf start fin limit)"

definition snap_seek_le ::
  "'t rpds_ops \<Rightarrow> 't mem_state \<Rightarrow> column_family \<Rightarrow> bytes \<Rightarrow> scan_entry option result" where
  "snap_seek_le R snap cf target = Inr (state_seek_le R snap cf target)"

definition snap_iter ::
  "'t rpds_ops \<Rightarrow> 't mem_state \<Rightarrow> column_family \<Rightarrow> bytes \<Rightarrow> bytes \<Rightarrow> scan_entry list result" where
  "snap_iter R snap cf start fin = Inr (rp_range R (mem_cf snap cf) start fin)"

definition snap_iter_rev ::
  "'t rpds_ops \<Rightarrow> 't mem_state \<Rightarrow> column_family \<Rightarrow> bytes \<Rightarrow> bytes \<Rightarrow> scan_entry list result" where
  "snap_iter_rev R snap cf start fin = Inr (rev (rp_range R (mem_cf snap cf) start fin))"

section \<open>What the engine relies on\<close>

text \<open>
  \<open>trep t xs\<close>: the tree \<open>t\<close> holds exactly the entries \<open>xs\<close>, in key order. The law for \<open>range\<close>
  covers the ranges whose start does not exceed their fin.
\<close>

locale rpds_laws =
  fixes R :: "'t rpds_ops" and trep :: "'t \<Rightarrow> (bytes, bytes) omap \<Rightarrow> bool"
  assumes rp_sorted: "trep t xs \<Longrightarrow> om_ok xs"
    and rp_new: "trep (rp_new R) []"
    and rp_get: "trep t xs \<Longrightarrow> rp_get R t key = map_of xs key"
    and rp_insert: "trep t xs \<Longrightarrow> trep (rp_insert_mut R t key val) (om_insert key val xs)"
    and rp_remove: "trep t xs \<Longrightarrow> trep (rp_remove_mut R t key) (om_remove key xs)"
    and rp_range: "trep t xs \<Longrightarrow> start \<le> fin \<Longrightarrow> rp_range R t start fin = om_range start fin xs"
    and rp_range_to: "trep t xs \<Longrightarrow> rp_range_to R t target = filter (\<lambda>e. fst e \<le> target) xs"
    and rp_size: "trep t xs \<Longrightarrow> rp_size R t = length xs"

definition mem_rep :: "('t \<Rightarrow> (bytes, bytes) omap \<Rightarrow> bool) \<Rightarrow> nat \<Rightarrow> 't mem_state \<Rightarrow> kv_state \<Rightarrow> bool" where
  "mem_rep trep n st a \<longleftrightarrow>
     (\<forall>cf. trep (mem_cf st cf) (kv_data a cf)) \<and> ms_applied st = kv_applied a"

lemma mem_cf_mut_get [simp]: "mem_cf (mem_cf_mut st cf f) cf' = (if cf' = cf then f (mem_cf st cf) else mem_cf st cf')"
  by (cases cf; cases cf') simp_all

lemma mem_cf_mut_applied [simp]: "ms_applied (mem_cf_mut st cf f) = ms_applied st"
  by (cases cf) simp_all

lemma mem_cf_mut_revision [simp]: "ms_data_revision (mem_cf_mut st cf f) = ms_data_revision st"
  by (cases cf) simp_all

lemma mem_cf_update [simp]:
  "mem_cf (st\<lparr>ms_data_revision := r\<rparr>) cf = mem_cf st cf" "mem_cf (st\<lparr>ms_applied := p\<rparr>) cf = mem_cf st cf"
  by (cases cf; simp)+

lemma om_removes: "fold om_remove ks xs = filter (\<lambda>e. fst e \<notin> set ks) xs"
  by (induction ks arbitrary: xs) (auto simp: om_remove_def intro: filter_cong)

lemma om_removes_range:
  "fold om_remove (map fst (om_range start fin xs)) xs = filter (\<lambda>e. \<not> (start \<le> fst e \<and> fst e < fin)) xs"
  by (auto simp: om_removes om_range_def intro!: filter_cong)

context rpds_laws
begin

lemma mutate_rep: "mem_rep trep n st a \<Longrightarrow> mem_rep trep n (mem_mutate R m st) (kv_write [m] a)"
  by (cases m) (auto simp: mem_rep_def kv_write_def rp_insert rp_remove)

lemma mutates_rep: "mem_rep trep n st a \<Longrightarrow> mem_rep trep n (fold (mem_mutate R) b st) (kv_write b a)"
proof (induction b arbitrary: st a)
  case Nil
  then show ?case by (simp add: kv_write_def mem_rep_def)
next
  case (Cons m b)
  have "kv_write b (kv_write [m] a) = kv_write (m # b) a" by (simp add: kv_write_def)
  with Cons.IH [OF mutate_rep [OF Cons.prems, of m]] show ?case by simp
qed

lemma removes_rep: "trep t xs \<Longrightarrow> trep (fold (\<lambda>k t. rp_remove_mut R t k) ks t) (fold om_remove ks xs)"
  by (induction ks arbitrary: t xs) (auto intro: rp_remove)

lemma delete_range_rep:
  assumes "mem_rep trep n st a" "start \<le> fin"
  shows "mem_rep trep n (fst (mem_delete_range R st cf start fin)) (kv_delete_range cf start fin a)"
proof -
  have t: "trep (mem_cf st cf) (kv_data a cf)" using assms(1) by (simp add: mem_rep_def)
  show ?thesis
    using assms(1) removes_rep [OF t, of "map fst (om_range start fin (kv_data a cf))"]
    by (simp add: mem_delete_range_def mem_rep_def kv_delete_range_def Let_def
        rp_range [OF t assms(2)] om_removes_range)
qed

lemma seek_rep: "trep t xs \<Longrightarrow>
    next_back (rp_range_to R t target) = (case filter (\<lambda>e. fst e \<le> target) xs of [] \<Rightarrow> None | e # es \<Rightarrow> Some (last (e # es)))"
  by (simp add: rp_range_to next_back_def)

lemmas mem_ops_defs = mem_get_def mem_scan_def snap_seek_le_def mem_checksum_def mem_write_def mem_write_applied_def
  mem_read_def state_get_def state_scan_def state_seek_le_def

lemma not_advances: "(case kv_applied a of None \<Rightarrow> False | Some previous \<Rightarrow> ap_index at \<le> ap_index previous) \<longleftrightarrow> \<not> kv_advances at a"
  by (auto simp: kv_advances_def split: option.splits)

lemma write_applied_rep:
  assumes "mem_rep trep n st a" "kv_advances at a"
  shows "mem_rep trep n (fst (mem_write_applied R st b at)) (kv_apply b at a)"
    and "snd (mem_write_applied R st b at) = Inr ()"
proof -
  have app: "ms_applied st = kv_applied a" using assms(1) by (simp add: mem_rep_def)
  show "mem_rep trep n (fst (mem_write_applied R st b at)) (kv_apply b at a)"
    using assms(2) mutates_rep [OF assms(1), of b]
    by (simp add: mem_write_applied_def app not_advances Let_def mem_rep_def kv_apply_def)
  show "snd (mem_write_applied R st b at) = Inr ()"
    using assms(2) by (simp add: mem_write_applied_def app not_advances Let_def)
qed

end

text \<open>The operations in the shape of the contract: each of them returns.\<close>

definition mem_returns :: "('t mem_state \<Rightarrow> 'a \<Rightarrow> 'b \<Rightarrow> 'c \<Rightarrow> 'd) \<Rightarrow> 't mem_state \<Rightarrow> 'a \<Rightarrow> 'b \<Rightarrow> 'c \<Rightarrow> 'd option" where
  "mem_returns f st x y z = Some (f st x y z)"

definition mem_step :: "'t rpds_ops \<Rightarrow> 't mem_state \<Rightarrow> engine_op \<Rightarrow> ('t mem_state \<times> unit result) option" where
  "mem_step R = engine_step (mem_write R) (mem_write_applied R) (mem_returns (mem_delete_range R))"

sublocale rpds_laws \<subseteq> mem: replicated_engine "mem_rep trep" "mem_get R"
  "\<lambda>st cf start fin limit. Some (mem_scan R st cf start fin limit)"
  "\<lambda>st cf target. Some (snap_seek_le R st cf target)"
  "mem_returns (mem_checksum R)" "mem_write R" "mem_write_applied R" "mem_returns (mem_delete_range R)"
proof unfold_locales
  fix n st a cf key
  assume "mem_rep trep n st a"
  then have t: "trep (mem_cf st cf) (kv_data a cf)" for cf by (simp add: mem_rep_def)
  show "mem_get R st cf key = Inr (kv_get a cf key)"
    by (simp add: mem_ops_defs kv_get_def rp_get [OF t])
  show "Some (snap_seek_le R st cf key) = Some (Inr (kv_seek_le a cf key))"
    by (simp add: mem_ops_defs kv_seek_le_def seek_rep [OF t])
  fix start fin :: bytes and limit
  assume le: "start \<le> fin"
  show "Some (mem_scan R st cf start fin limit) = Some (Inr (kv_scan a cf start fin limit))"
    by (simp add: mem_ops_defs kv_scan_def rp_range [OF t le])
  show "mem_returns (mem_checksum R) st cf start fin = Some (Inr (fnv_entries (om_range start fin (kv_data a cf))))"
    by (simp add: mem_returns_def mem_ops_defs rp_range [OF t le])
next
  fix n st a b s'
  assume rep: "mem_rep trep n st a"
  show "mem_write R st b = (s', Inr ()) \<Longrightarrow> mem_rep trep (n + Suc (length b)) s' (kv_write b a)"
    using mutates_rep [OF rep, of b] by (auto simp: mem_write_def mem_rep_def)
  show "mem_write R st b \<noteq> (s', Inl POSITION_REFUSED)" by (simp add: mem_write_def)
  show "mem_rep trep n' st a" for n' using rep by (simp add: mem_rep_def)
  fix at
  show "mem_write_applied R st b at = (st, Inl POSITION_REFUSED)" if "\<not> kv_advances at a"
    using rep that by (simp add: mem_write_applied_def mem_rep_def not_advances)
  assume adv: "kv_advances at a"
  show "mem_rep trep (n + Suc (length b)) s' (kv_apply b at a)" if "mem_write_applied R st b at = (s', Inr ())"
    using write_applied_rep(1) [OF rep adv, of b] that by (simp add: mem_rep_def)
  show "mem_write_applied R st b at \<noteq> (s', Inl POSITION_REFUSED)"
    using write_applied_rep(2) [OF rep adv, of b] by auto
next
  fix n st a cf s' and start fin :: bytes
  assume rep: "mem_rep trep n st a"
  show "mem_returns (mem_delete_range R) st cf start fin \<noteq> Some (s', Inl POSITION_REFUSED)"
    by (simp add: mem_returns_def mem_delete_range_def Let_def)
  show "mem_returns (mem_delete_range R) st cf start fin \<noteq> None"
    by (simp add: mem_returns_def)
  assume "start \<le> fin" "mem_returns (mem_delete_range R) st cf start fin = Some (s', Inr ())"
  with delete_range_rep [OF rep, of start fin cf]
  show "mem_rep trep (Suc n) s' (kv_delete_range cf start fin a)" by (simp add: mem_returns_def mem_rep_def)
qed

section \<open>An instance of the laws\<close>

definition om_rpds :: "(bytes, bytes) omap rpds_ops" where
  "om_rpds = \<lparr>rp_new = [], rp_get = map_of, rp_insert_mut = \<lambda>t k v. om_insert k v t,
     rp_remove_mut = \<lambda>t k. om_remove k t, rp_range = \<lambda>t s e. om_range s e t,
     rp_range_to = \<lambda>t k. filter (\<lambda>e. fst e \<le> k) t, rp_size = length\<rparr>"

definition om_trep :: "(bytes, bytes) omap \<Rightarrow> (bytes, bytes) omap \<Rightarrow> bool" where
  "om_trep t xs \<longleftrightarrow> t = xs \<and> om_ok xs"

interpretation sorted_list: rpds_laws om_rpds om_trep
  by unfold_locales (auto simp: om_rpds_def om_trep_def)

section \<open>The engine implements the contract\<close>

lemma mem_settled: "mem_step R st op = Some (st', r) \<Longrightarrow> settled r"
  by (cases op) (auto simp: mem_step_def settled_def mem_write_def mem_write_applied_def mem_delete_range_def
      mem_returns_def Let_def split: if_splits)

lemma mem_run_settled: "run_ops (mem_step R) st ops = Some (st', rs) \<Longrightarrow> r \<in> set rs \<Longrightarrow> settled r"
  by (induction ops arbitrary: st rs) (auto split: option.splits prod.splits if_splits dest: mem_settled)

context rpds_laws
begin

lemma mem_new_rep: "mem_rep trep n (mem_new R) kv_empty"
proof -
  have "trep (mem_cf (mem_new R) cf) []" for cf by (cases cf) (simp_all add: mem_new_def rp_new)
  then show ?thesis by (simp add: mem_rep_def kv_empty_def mem_new_def)
qed

lemma mem_history:
  assumes "ops_weight ops < 2 ^ 64" "\<forall>op\<in>set ops. op_range_ok op"
  shows "\<exists>st. run_ops (mem_step R) (mem_new R) ops = Some (st, snd (kv_run kv_empty ops)) \<and>
    mem_rep trep (ops_weight ops) st (fst (kv_run kv_empty ops))"
  using mem.run_refines [OF mem_new_rep [of 0], of ops] assms mem_run_settled [of R "mem_new R" ops]
  by (fastforce simp: mem_step_def)

lemmas mem_reads = mem.rep_get mem.rep_scan mem.rep_seek_le mem.rep_checksum

lemma snapshot_reads:
  assumes rep: "mem_rep trep n st a"
  shows "snap_resident_len R st cf = Some (length (kv_data a cf))"
    and "snap_get R st cf key = Inr (kv_get a cf key)"
    and "default_get_resident_value (snap_get_resident R st cf key) = Some (kv_get a cf key)"
    and "start \<le> fin \<Longrightarrow> snap_iter R st cf start fin = Inr (om_range start fin (kv_data a cf))"
    and "start \<le> fin \<Longrightarrow> snap_iter_rev R st cf start fin = Inr (rev (om_range start fin (kv_data a cf)))"
proof -
  have t: "trep (mem_cf st cf) (kv_data a cf)" for cf using rep by (simp add: mem_rep_def)
  show "snap_resident_len R st cf = Some (length (kv_data a cf))"
    by (simp add: snap_resident_len_def rp_size [OF t])
  show "snap_get R st cf key = Inr (kv_get a cf key)"
    by (simp add: snap_get_def kv_get_def state_get_def rp_get [OF t])
  show "default_get_resident_value (snap_get_resident R st cf key) = Some (kv_get a cf key)"
    by (simp add: default_get_resident_value_def snap_get_resident_def kv_get_def rp_get [OF t] option.map_ident)
  show "start \<le> fin \<Longrightarrow> snap_iter R st cf start fin = Inr (om_range start fin (kv_data a cf))"
    by (simp add: snap_iter_def rp_range [OF t])
  show "start \<le> fin \<Longrightarrow> snap_iter_rev R st cf start fin = Inr (rev (om_range start fin (kv_data a cf)))"
    by (simp add: snap_iter_rev_def rp_range [OF t])
qed

end

text \<open>
  C32. After any sequence of writes, positioned writes and range deletions from the empty engine, every
  outcome is the abstract engine's (a positioned write whose index does not advance is refused and
  changes nothing; every other operation succeeds), the position recorded is the last accepted one,
  and every read of the engine or of a snapshot of it - point reads, bounded scans, reverse seek,
  both iterators, the entry count and the checksum - is a function of the abstract contents.
\<close>

theorem mem_engine_refines_contract:
  assumes "rpds_laws R trep" "ops_weight ops < 2 ^ 64" "\<forall>op\<in>set ops. op_range_ok op"
    and "kv_run kv_empty ops = (a, spec_rs)"
  shows "\<exists>st. run_ops (mem_step R) (mem_new R) ops = Some (st, spec_rs)
    \<and> volatile_applied_position st = kv_applied a
    \<and> (\<forall>cf key. mem_get R st cf key = Inr (map_of (kv_data a cf) key))
    \<and> (\<forall>cf key. snap_seek_le R st cf key = Inr (kv_seek_le a cf key))
    \<and> (\<forall>cf. snap_resident_len R st cf = Some (length (kv_data a cf)))
    \<and> (\<forall>cf start fin limit. start \<le> fin \<longrightarrow>
         mem_scan R st cf start fin limit = Inr (take limit (om_range start fin (kv_data a cf)))
       \<and> snap_iter_rev R st cf start fin = Inr (rev (om_range start fin (kv_data a cf)))
       \<and> mem_checksum R st cf start fin = Inr (fnv_entries (om_range start fin (kv_data a cf))))"
proof -
  obtain st where run: "run_ops (mem_step R) (mem_new R) ops = Some (st, spec_rs)"
    and rep: "mem_rep trep (ops_weight ops) st a"
    using rpds_laws.mem_history [OF assms(1-3)] assms(4) by auto
  have "volatile_applied_position st = kv_applied a"
    using rep by (simp add: mem_rep_def volatile_applied_position_def)
  with run show ?thesis
    using rpds_laws.mem_reads [OF assms(1) rep] rpds_laws.snapshot_reads [OF assms(1) rep]
    by (intro exI [of _ st]) (simp add: kv_get_def kv_scan_def mem_returns_def)
qed

definition sample_ops :: "engine_op list" where
  "sample_ops =
     [OpWriteApplied [Put Default [1] [2], Put Lock [1] [3]] \<lparr>ap_term = 1, ap_index = 5\<rparr>,
      OpWriteApplied [Delete Default [1]] \<lparr>ap_term = 2, ap_index = 5\<rparr>,
      OpWrite [Put Default [0, 7] [9]],
      OpDeleteRange Lock [0] [2]]"

lemma sample_ops_ok: "ops_weight sample_ops < 2 ^ 64" "\<forall>op\<in>set sample_ops. op_range_ok op"
  by (simp_all add: sample_ops_def ops_weight_def)

lemma sample_ops_run:
  "kv_run kv_empty sample_ops = (a, rs) \<Longrightarrow>
     rs = [Inr (), Inl POSITION_REFUSED, Inr (), Inr ()] \<and> kv_data a Default = [([0, 7], [9]), ([1], [2])]"
  by (auto simp: sample_ops_def kv_empty_def kv_apply_def kv_write_def kv_advances_def kv_delete_range_def)

theorem mem_engine_refines_contract_witness:
  "\<exists>st. run_ops (mem_step om_rpds) (mem_new om_rpds) sample_ops
       = Some (st, [Inr (), Inl POSITION_REFUSED, Inr (), Inr ()])
     \<and> mem_scan om_rpds st Default [] [255] 10 = Inr [([0, 7], [9]), ([1], [2])]"
proof -
  obtain a spec_rs where spec: "kv_run kv_empty sample_ops = (a, spec_rs)" by fastforce
  obtain st where run: "run_ops (mem_step om_rpds) (mem_new om_rpds) sample_ops = Some (st, spec_rs)"
    and sc: "mem_scan om_rpds st Default [] [255] 10 = Inr (take 10 (om_range [] [255] (kv_data a Default)))"
    using mem_engine_refines_contract [OF sorted_list.rpds_laws_axioms sample_ops_ok spec] by force
  from run sc sample_ops_run [OF spec] show ?thesis by (auto simp: om_range_def)
qed

end
