(* ===== verification/Versioned.thy ===== *)
theory Versioned
  imports EngineContract
begin

text \<open>
  \<open>VersionedMemEngine\<close> of \<open>crates/engine/src/versioned.rs\<close>: versioned keys in one ordered tree per
  column family, a visibility watermark, registered views and an incremental garbage collector.
  The tree is the \<open>bbtree\<close> crate's and is a parameter of every definition. This theory holds the
  definitions, method by method; \<open>VersionedReads\<close>, \<open>VersionedEngine\<close> and \<open>VersionedGc\<close> hold the
  proofs. A loop that is not structural is a \<open>partial_function\<close>: not returning is \<open>None\<close>.
\<close>

section \<open>Versioned keys\<close>

datatype versioned_key = VersionedKey (vk_key: bytes) (vk_inverse_version: u64)

text \<open>The derived order of the two fields.\<close>

instantiation versioned_key :: linorder
begin

definition less_eq_versioned_key :: "versioned_key \<Rightarrow> versioned_key \<Rightarrow> bool" where
  "less_eq_versioned_key a b \<longleftrightarrow> vk_key a < vk_key b \<or>
     vk_key a = vk_key b \<and> vk_inverse_version a \<le> vk_inverse_version b"

definition less_versioned_key :: "versioned_key \<Rightarrow> versioned_key \<Rightarrow> bool" where
  "less_versioned_key a b \<longleftrightarrow> vk_key a < vk_key b \<or>
     vk_key a = vk_key b \<and> vk_inverse_version a < vk_inverse_version b"

instance
  by standard (auto simp: less_eq_versioned_key_def less_versioned_key_def intro: versioned_key.expand)

end

definition vk_new :: "bytes \<Rightarrow> u64 \<Rightarrow> versioned_key" where
  "vk_new key version = VersionedKey key (u64_max - version)"

definition newest_visible :: "bytes \<Rightarrow> u64 \<Rightarrow> versioned_key" where
  "newest_visible key version = vk_new key version"

definition first_of :: "bytes \<Rightarrow> versioned_key" where
  "first_of key = VersionedKey key 0"

definition after_key :: "bytes \<Rightarrow> versioned_key" where
  "after_key key = first_of (key @ [0])"

definition vk_version :: "versioned_key \<Rightarrow> u64" where
  "vk_version k = u64_max - vk_inverse_version k"

type_synonym slot = "bytes option"
type_synonym ventry = "versioned_key \<times> slot"

section \<open>The tree\<close>

datatype 'k bound = Included 'k | Excluded 'k | Unbounded

text \<open>
  The calls of \<open>bbtree::BBTreeMap\<close> the engine makes. \<open>bb_insert\<close> is \<open>None\<close> when it reports that memory
  ran out, \<open>bb_range t lo hi\<close> is the sequence of entries \<open>scan((lo, hi), ..)\<close> visits and \<open>scan_rev\<close>
  visits backwards.
\<close>

record 't bbtree_ops =
  bb_new :: 't
  bb_insert :: "'t \<Rightarrow> versioned_key \<Rightarrow> slot \<Rightarrow> 't option"
  bb_remove :: "'t \<Rightarrow> versioned_key \<Rightarrow> 't \<times> slot option"
  bb_range :: "'t \<Rightarrow> versioned_key bound \<Rightarrow> versioned_key bound \<Rightarrow> ventry list"

text \<open>
  A scan with its closure: the closure updates what it captured and either continues (\<open>None\<close>) or
  breaks with a value.
\<close>

fun scan_fold :: "('e \<Rightarrow> 's \<Rightarrow> 's \<times> 'b option) \<Rightarrow> 'e list \<Rightarrow> 's \<Rightarrow> 's \<times> 'b option" where
  "scan_fold f [] s = (s, None)"
| "scan_fold f (e # es) s =
     (case f e s of (s', None) \<Rightarrow> scan_fold f es s' | (s', Some b) \<Rightarrow> (s', Some b))"

section \<open>The shared state\<close>

record published =
  pb_version :: u64
  pb_applied :: "applied_position option"
  pb_data_revision :: u64

definition REGISTRY_SHARDS :: nat where
  "REGISTRY_SHARDS = 32"

record 't shared =
  sh_trees :: "column_family \<Rightarrow> 't"
  sh_visible :: u64
  sh_published :: published
  sh_writer :: u64
  sh_registry :: "(u64, u32) omap list"

text \<open>
  The calling thread's shard of the registry is an argument. The counters are 32 bits wide and are
  neither checked when a view is counted nor when it is dropped: both wrap.
\<close>

definition register :: "'t shared \<Rightarrow> nat \<Rightarrow> u64 \<Rightarrow> 't shared" where
  "register sh shard version =
     (let m = sh_registry sh ! shard;
          count = (case map_of m version of None \<Rightarrow> 0 | Some c \<Rightarrow> c)
      in sh\<lparr>sh_registry := (sh_registry sh)[shard := om_insert version (count + 1) m]\<rparr>)"

definition unregister :: "'t shared \<Rightarrow> nat \<Rightarrow> u64 \<Rightarrow> 't shared" where
  "unregister sh shard version =
     (let m = sh_registry sh ! shard in
      case map_of m version of
        None \<Rightarrow> sh
      | Some count \<Rightarrow>
          sh\<lparr>sh_registry := (sh_registry sh)[shard :=
            (if count - 1 = 0 then om_remove version m else om_insert version (count - 1) m)]\<rparr>)"

definition oldest_live_version :: "'t shared \<Rightarrow> u64" where
  "oldest_live_version sh =
     (let visible = sh_visible sh;
          firsts = List.map_filter (\<lambda>m. case m of [] \<Rightarrow> None | e # _ \<Rightarrow> Some (fst e)) (sh_registry sh)
      in case firsts of [] \<Rightarrow> visible | v # vs \<Rightarrow> min (fold min vs v) visible)"

definition vm_new :: "'t bbtree_ops \<Rightarrow> 't shared" where
  "vm_new B = \<lparr>sh_trees = \<lambda>_. bb_new B, sh_visible = 0,
     sh_published = \<lparr>pb_version = 0, pb_applied = None, pb_data_revision = 0\<rparr>,
     sh_writer = 0, sh_registry = replicate REGISTRY_SHARDS []\<rparr>"

section \<open>Writing\<close>

definition OUT_OF_MEMORY :: error where
  "OUT_OF_MEMORY = EngineError ''engine: out of memory for a versioned entry''"

fun mutation_slot :: "mutation \<Rightarrow> slot" where
  "mutation_slot (Put cf key val) = Some val"
| "mutation_slot (Delete cf key) = None"

text \<open>The loop of \<open>apply\<close>: the trees so far stay changed when an insertion fails.\<close>

fun apply_mutations ::
  "'t bbtree_ops \<Rightarrow> u64 \<Rightarrow> write_batch \<Rightarrow> bool \<Rightarrow> 't shared \<Rightarrow> 't shared \<times> bool result" where
  "apply_mutations B version [] changes sh = (sh, Inr changes)"
| "apply_mutations B version (m # ms) changes sh =
     (let cf = mutation_cf m; key = mutation_key m;
          changes' = (changes \<or> changes_data_revision cf key)
      in case bb_insert B (sh_trees sh cf) (vk_new key version) (mutation_slot m) of
           None \<Rightarrow> (sh, Inl OUT_OF_MEMORY)
         | Some t \<Rightarrow> apply_mutations B version ms changes' (sh\<lparr>sh_trees := (sh_trees sh)(cf := t)\<rparr>))"

definition publish :: "u64 \<Rightarrow> applied_position option \<Rightarrow> bool \<Rightarrow> 't shared \<Rightarrow> 't shared" where
  "publish version at changes sh =
     (let p = sh_published sh;
          p1 = p\<lparr>pb_version := version\<rparr>;
          p2 = (if at \<noteq> None then p1\<lparr>pb_applied := at\<rparr> else p1);
          p3 = (if changes then p2\<lparr>pb_data_revision := saturating_add (pb_data_revision p2) 1\<rparr> else p2)
      in sh\<lparr>sh_published := p3, sh_visible := version, sh_writer := version\<rparr>)"

definition vm_apply ::
  "'t bbtree_ops \<Rightarrow> 't shared \<Rightarrow> write_batch \<Rightarrow> applied_position option \<Rightarrow> 't shared \<times> unit result" where
  "vm_apply B sh b at =
     (if (case (at, pb_applied (sh_published sh)) of
            (Some p, Some previous) \<Rightarrow> ap_index p \<le> ap_index previous | _ \<Rightarrow> False)
      then (sh, Inl POSITION_REFUSED)
      else let version = sh_writer sh + 1 in
           case apply_mutations B version b False sh of
             (sh1, Inl e) \<Rightarrow> (sh1, Inl e)
           | (sh1, Inr changes) \<Rightarrow> (publish version at changes sh1, Inr ()))"

section \<open>Views\<close>

record view =
  vw_version :: u64
  vw_shard :: nat
  vw_registered :: u64

definition view_new :: "'t shared \<Rightarrow> nat \<Rightarrow> u64 \<Rightarrow> 't shared \<times> view" where
  "view_new sh shard version =
     (register sh shard version, \<lparr>vw_version = version, vw_shard = shard, vw_registered = version\<rparr>)"

definition view_current :: "'t shared \<Rightarrow> nat \<Rightarrow> 't shared \<times> view" where
  "view_current sh shard =
     (let v0 = sh_visible sh; sh1 = register sh shard v0; version = max (sh_visible sh1) v0
      in (sh1, \<lparr>vw_version = version, vw_shard = shard, vw_registered = v0\<rparr>))"

definition view_drop :: "'t shared \<Rightarrow> view \<Rightarrow> 't shared" where
  "view_drop sh v = unregister sh (vw_shard v) (vw_registered v)"

definition newest_slot :: "'t bbtree_ops \<Rightarrow> view \<Rightarrow> 't \<Rightarrow> bytes \<Rightarrow> slot option" where
  "newest_slot B v tree key =
     (let from = newest_visible key (vw_version v);
          visit = (\<lambda>(k, sl) s. (s, Some (if vk_key k = key then Some sl else None)))
      in case snd (scan_fold visit (bb_range B tree (Included from) Unbounded) ()) of
           None \<Rightarrow> None | Some r \<Rightarrow> r)"

definition option_flatten :: "'a option option \<Rightarrow> 'a option" where
  "option_flatten r = (case r of None \<Rightarrow> None | Some x \<Rightarrow> x)"

definition SKIP_LIMIT :: nat where
  "SKIP_LIMIT = 8"

text \<open>What the closure of \<open>page\<close> captures.\<close>

record page_state =
  pg_current :: "bytes option"
  pg_decided :: bool
  pg_skipped :: nat
  pg_seek :: "versioned_key option"
  pg_out :: "scan_entry list"

definition page_visit :: "u64 \<Rightarrow> nat \<Rightarrow> ventry \<Rightarrow> page_state \<Rightarrow> page_state \<times> unit option" where
  "page_visit version limit = (\<lambda>(k, sl) s0.
     let s = (if pg_current s0 \<noteq> Some (vk_key k)
              then s0\<lparr>pg_current := Some (vk_key k), pg_decided := False, pg_skipped := 0\<rparr> else s0)
     in if pg_decided s
        then let s1 = s\<lparr>pg_skipped := pg_skipped s + 1\<rparr>
             in if SKIP_LIMIT \<le> pg_skipped s1
                then (s1\<lparr>pg_seek := Some (after_key (vk_key k))\<rparr>, Some ()) else (s1, None)
        else if version < vk_version k
        then let s1 = s\<lparr>pg_skipped := pg_skipped s + 1\<rparr>
             in if SKIP_LIMIT \<le> pg_skipped s1
                then (s1\<lparr>pg_seek := Some (newest_visible (vk_key k) version)\<rparr>, Some ()) else (s1, None)
        else let s1 = s\<lparr>pg_decided := True, pg_skipped := 0\<rparr>
             in case sl of
                  None \<Rightarrow> (s1, None)
                | Some val \<Rightarrow>
                    let s2 = s1\<lparr>pg_out := pg_out s1 @ [(vk_key k, val)]\<rparr>
                    in if limit \<le> length (pg_out s2) then (s2, Some ()) else (s2, None))"

definition page_start :: "scan_entry list \<Rightarrow> page_state" where
  "page_start out = \<lparr>pg_current = None, pg_decided = False, pg_skipped = 0, pg_seek = None, pg_out = out\<rparr>"

partial_function (option) page_loop :: "'t bbtree_ops \<Rightarrow> 't \<Rightarrow> u64 \<Rightarrow> nat \<Rightarrow> versioned_key bound
    \<Rightarrow> versioned_key \<Rightarrow> scan_entry list \<Rightarrow> scan_entry list option" where
  "page_loop B tree version limit upper cursor out =
     (let s = fst (scan_fold (page_visit version limit) (bb_range B tree (Included cursor) upper) (page_start out))
      in case pg_seek s of
           None \<Rightarrow> Some (pg_out s)
         | Some next_key \<Rightarrow>
             if length (pg_out s) < limit
             then page_loop B tree version limit upper next_key (pg_out s) else Some (pg_out s))"

definition page ::
  "'t bbtree_ops \<Rightarrow> 't shared \<Rightarrow> view \<Rightarrow> column_family \<Rightarrow> bytes \<Rightarrow> bytes option \<Rightarrow> nat \<Rightarrow> scan_entry list option"
where
  "page B sh v cf start fin limit =
     (if limit = 0 \<or> (case fin of None \<Rightarrow> False | Some e \<Rightarrow> e \<le> start) then Some []
      else page_loop B (sh_trees sh cf) (vw_version v) limit
             (case fin of None \<Rightarrow> Unbounded | Some e \<Rightarrow> Excluded (first_of e)) (first_of start) [])"

partial_function (option) page_rev_loop :: "'t bbtree_ops \<Rightarrow> view \<Rightarrow> 't \<Rightarrow> nat \<Rightarrow> versioned_key
    \<Rightarrow> versioned_key bound \<Rightarrow> scan_entry list \<Rightarrow> scan_entry list option" where
  "page_rev_loop B v tree limit lower upper out =
     (if length out < limit
      then case fst (scan_fold (\<lambda>(k, sl) s. (Some (vk_key k), Some ()))
               (rev (bb_range B tree (Included lower) upper)) None) of
             None \<Rightarrow> Some out
           | Some key \<Rightarrow>
               page_rev_loop B v tree limit lower (Excluded (first_of key))
                 (case newest_slot B v tree key of Some (Some val) \<Rightarrow> out @ [(key, val)] | _ \<Rightarrow> out)
      else Some out)"

definition page_rev ::
  "'t bbtree_ops \<Rightarrow> 't shared \<Rightarrow> view \<Rightarrow> column_family \<Rightarrow> bytes \<Rightarrow> bytes \<Rightarrow> nat \<Rightarrow> scan_entry list option"
where
  "page_rev B sh v cf start fin limit =
     (if limit = 0 \<or> fin \<le> start then Some []
      else page_rev_loop B v (sh_trees sh cf) limit (first_of start) (Excluded (first_of fin)) [])"

section \<open>The read view\<close>

definition view_get :: "'t bbtree_ops \<Rightarrow> 't shared \<Rightarrow> view \<Rightarrow> column_family \<Rightarrow> bytes \<Rightarrow> bytes option result" where
  "view_get B sh v cf key = Inr (option_flatten (newest_slot B v (sh_trees sh cf) key))"

definition view_scan :: "'t bbtree_ops \<Rightarrow> 't shared \<Rightarrow> view \<Rightarrow> column_family \<Rightarrow> bytes \<Rightarrow> bytes \<Rightarrow> nat
    \<Rightarrow> scan_entry list result option" where
  "view_scan B sh v cf start fin limit = map_option Inr (page B sh v cf start (Some fin) limit)"

definition view_get_resident_value ::
  "'t bbtree_ops \<Rightarrow> 't shared \<Rightarrow> view \<Rightarrow> column_family \<Rightarrow> bytes \<Rightarrow> bytes option option" where
  "view_get_resident_value B sh v cf key = Some (option_flatten (newest_slot B v (sh_trees sh cf) key))"

definition view_seek_le ::
  "'t bbtree_ops \<Rightarrow> 't shared \<Rightarrow> view \<Rightarrow> column_family \<Rightarrow> bytes \<Rightarrow> scan_entry option result option" where
  "view_seek_le B sh v cf target =
     map_option (\<lambda>p. Inr (if p = [] then None else Some (last p))) (page_rev B sh v cf [] (target @ [0]) 1)"

text \<open>The pull iterator, one bounded page at a time.\<close>

record pages =
  pp_view :: view
  pp_cf :: column_family
  pp_start :: bytes
  pp_end :: "bytes option"
  pp_forward :: bool
  pp_buffer :: "scan_entry list"
  pp_done :: bool

definition PAGE :: nat where
  "PAGE = 256"

definition pages_refill :: "'t bbtree_ops \<Rightarrow> 't shared \<Rightarrow> pages \<Rightarrow> pages option" where
  "pages_refill B sh p =
     Option.bind
       (if pp_forward p then page B sh (pp_view p) (pp_cf p) (pp_start p) (pp_end p) PAGE
        else page_rev B sh (pp_view p) (pp_cf p) (pp_start p)
               (case pp_end p of None \<Rightarrow> [] | Some e \<Rightarrow> e) PAGE)
       (\<lambda>pg.
          let p1 = (if length pg < PAGE then p\<lparr>pp_done := True\<rparr> else p);
              p2 = (if pg = [] then p1
                    else if pp_forward p1 then p1\<lparr>pp_start := fst (last pg) @ [0]\<rparr>
                    else p1\<lparr>pp_end := Some (fst (last pg))\<rparr>)
          in Some (p2\<lparr>pp_buffer := pp_buffer p2 @ pg\<rparr>))"

definition pages_next :: "'t bbtree_ops \<Rightarrow> 't shared \<Rightarrow> pages \<Rightarrow> (pages \<times> scan_entry result option) option" where
  "pages_next B sh p =
     Option.bind (if pp_buffer p = [] \<and> \<not> pp_done p then pages_refill B sh p else Some p)
       (\<lambda>p1. Some (case pp_buffer p1 of [] \<Rightarrow> (p1, None) | e # es \<Rightarrow> (p1\<lparr>pp_buffer := es\<rparr>, Some (Inr e))))"

definition view_iter :: "view \<Rightarrow> column_family \<Rightarrow> bytes \<Rightarrow> bytes \<Rightarrow> pages" where
  "view_iter v cf start fin = \<lparr>pp_view = v, pp_cf = cf, pp_start = start, pp_end = Some fin,
     pp_forward = True, pp_buffer = [], pp_done = False\<rparr>"

definition view_iter_rev :: "view \<Rightarrow> column_family \<Rightarrow> bytes \<Rightarrow> bytes \<Rightarrow> pages" where
  "view_iter_rev v cf start fin = \<lparr>pp_view = v, pp_cf = cf, pp_start = start, pp_end = Some fin,
     pp_forward = False, pp_buffer = [], pp_done = False\<rparr>"

definition view_iter_all :: "view \<Rightarrow> column_family \<Rightarrow> pages" where
  "view_iter_all v cf = \<lparr>pp_view = v, pp_cf = cf, pp_start = [], pp_end = None,
     pp_forward = True, pp_buffer = [], pp_done = False\<rparr>"

text \<open>A consumer that pulls until the iterator ends.\<close>

partial_function (option) pages_drain ::
  "'t bbtree_ops \<Rightarrow> 't shared \<Rightarrow> pages \<Rightarrow> scan_entry result list option" where
  "pages_drain B sh p =
     Option.bind (pages_next B sh p)
       (\<lambda>(p1, item). case item of
          None \<Rightarrow> Some []
        | Some e \<Rightarrow> Option.bind (pages_drain B sh p1) (\<lambda>es. Some (e # es)))"

section \<open>The engine\<close>

definition vm_get ::
  "'t bbtree_ops \<Rightarrow> nat \<Rightarrow> 't shared \<Rightarrow> column_family \<Rightarrow> bytes \<Rightarrow> 't shared \<times> bytes option result" where
  "vm_get B shard sh cf key =
     (let (sh1, v) = view_current sh shard; r = view_get B sh1 v cf key in (view_drop sh1 v, r))"

definition vm_write :: "'t bbtree_ops \<Rightarrow> 't shared \<Rightarrow> write_batch \<Rightarrow> 't shared \<times> unit result" where
  "vm_write B sh b = vm_apply B sh b None"

definition vm_scan :: "'t bbtree_ops \<Rightarrow> nat \<Rightarrow> 't shared \<Rightarrow> column_family \<Rightarrow> bytes \<Rightarrow> bytes \<Rightarrow> nat
    \<Rightarrow> ('t shared \<times> scan_entry list result) option" where
  "vm_scan B shard sh cf start fin limit =
     (let (sh1, v) = view_current sh shard
      in map_option (\<lambda>r. (view_drop sh1 v, r)) (view_scan B sh1 v cf start fin limit))"

definition USIZE_MAX :: nat where
  "USIZE_MAX = 2 ^ 64 - 1"

text \<open>
  A range deletion is two critical sections: the walk collects the keys under the writer lock and
  releases it, then the tombstones go through \<open>apply\<close>, which takes the lock again. Other writers may come
  between the two; \<open>vm_delete_range\<close> is the call when none does.
\<close>

definition delete_range_walk :: "'t bbtree_ops \<Rightarrow> nat \<Rightarrow> 't shared \<Rightarrow> column_family \<Rightarrow> bytes \<Rightarrow> bytes
    \<Rightarrow> ('t shared \<times> write_batch result) option" where
  "delete_range_walk B shard sh cf start fin =
     (let (sh1, v) = view_new sh shard (sh_writer sh)
      in map_option (\<lambda>r. (view_drop sh1 v,
             case r of Inl e \<Rightarrow> Inl e | Inr es \<Rightarrow> Inr (fold (\<lambda>(key, val) b. batch_delete b cf key) es [])))
           (view_scan B sh1 v cf start fin USIZE_MAX))"

definition delete_range_commit :: "'t bbtree_ops \<Rightarrow> 't shared \<Rightarrow> write_batch \<Rightarrow> 't shared \<times> unit result" where
  "delete_range_commit B sh b = (if b = [] then (sh, Inr ()) else vm_apply B sh b None)"

definition vm_delete_range :: "'t bbtree_ops \<Rightarrow> nat \<Rightarrow> 't shared \<Rightarrow> column_family \<Rightarrow> bytes \<Rightarrow> bytes
    \<Rightarrow> ('t shared \<times> unit result) option" where
  "vm_delete_range B shard sh cf start fin =
     map_option (\<lambda>(sh1, r). case r of Inl e \<Rightarrow> (sh1, Inl e) | Inr b \<Rightarrow> delete_range_commit B sh1 b)
       (delete_range_walk B shard sh cf start fin)"

text \<open>The first failing item of the iterator ends the checksum with its error.\<close>

fun fnv_results :: "scan_entry result list \<Rightarrow> u64 \<Rightarrow> u64 result" where
  "fnv_results [] h = Inr h"
| "fnv_results (Inl e # es) h = Inl e"
| "fnv_results (Inr (k, v) # es) h = fnv_results es (fold fnv_byte (k @ v) h)"

definition vm_checksum :: "'t bbtree_ops \<Rightarrow> nat \<Rightarrow> 't shared \<Rightarrow> column_family \<Rightarrow> bytes \<Rightarrow> bytes
    \<Rightarrow> ('t shared \<times> u64 result) option" where
  "vm_checksum B shard sh cf start fin =
     (let (sh1, v) = view_current sh shard
      in map_option (\<lambda>es. (view_drop sh1 v, fnv_results es 0xcbf29ce484222325))
           (pages_drain B sh1 (view_iter v cf start fin)))"

definition vm_durability :: "'t shared \<Rightarrow> durability" where
  "vm_durability sh = Volatile"

definition vm_snapshot :: "'t shared \<Rightarrow> nat \<Rightarrow> 't shared \<times> view result" where
  "vm_snapshot sh shard = (let (sh1, v) = view_current sh shard in (sh1, Inr v))"

definition vm_try_resident_snapshot :: "'t shared \<Rightarrow> nat \<Rightarrow> 't shared \<times> view option" where
  "vm_try_resident_snapshot sh shard = (let (sh1, v) = view_current sh shard in (sh1, Some v))"

definition freeze_parts :: "'t shared \<Rightarrow> nat \<Rightarrow> 't shared \<times> view \<times> applied_position option \<times> u64" where
  "freeze_parts sh shard =
     (let p = sh_published sh; (sh1, v) = view_new sh shard (pb_version p)
      in (sh1, v, pb_applied p, pb_data_revision p))"

definition try_positioned_resident_snapshot ::
  "'t shared \<Rightarrow> nat \<Rightarrow> 't shared \<times> (view \<times> applied_position option) option" where
  "try_positioned_resident_snapshot sh shard =
     (let (sh1, v, position, revision) = freeze_parts sh shard in (sh1, Some (v, position)))"

definition vm_write_applied ::
  "'t bbtree_ops \<Rightarrow> 't shared \<Rightarrow> write_batch \<Rightarrow> applied_position \<Rightarrow> 't shared \<times> unit result" where
  "vm_write_applied B sh b at = vm_apply B sh b (Some at)"

definition vm_applied_position :: "'t shared \<Rightarrow> durable_applied_position result" where
  "vm_applied_position sh = Inr VolatilePosition"

definition vm_volatile_applied_position :: "'t shared \<Rightarrow> applied_position option" where
  "vm_volatile_applied_position sh = pb_applied (sh_published sh)"

definition vm_data_revision :: "'t shared \<Rightarrow> u64" where
  "vm_data_revision sh = pb_data_revision (sh_published sh)"

definition stored_entries :: "'t bbtree_ops \<Rightarrow> 't shared \<Rightarrow> column_family \<Rightarrow> nat" where
  "stored_entries B sh cf =
     fst (scan_fold (\<lambda>e (n :: nat). (n + 1, None :: unit option)) (bb_range B (sh_trees sh cf) Unbounded Unbounded) 0)"

section \<open>Garbage collection\<close>

record gc_cursor =
  gc_cf :: nat
  gc_resume :: "versioned_key option"
  gc_current :: "bytes option"
  gc_kept :: bool

definition gc_cursor_default :: gc_cursor where
  "gc_cursor_default = \<lparr>gc_cf = 0, gc_resume = None, gc_current = None, gc_kept = False\<rparr>"

record garbage_report =
  gr_oldest_live_version :: u64
  gr_removed :: nat
  gr_scanned :: nat
  gr_cycle_complete :: bool

definition CHUNK :: nat where
  "CHUNK = 4096"

text \<open>What the scan closure of a leg captures.\<close>

record gc_scan =
  gs_current :: "bytes option"
  gs_kept :: bool
  gs_scanned :: nat
  gs_doomed :: "versioned_key list"
  gs_resume :: "versioned_key option"
  gs_budget_spent :: bool

definition gc_visit :: "u64 \<Rightarrow> nat \<Rightarrow> ventry \<Rightarrow> gc_scan \<Rightarrow> gc_scan \<times> unit option" where
  "gc_visit oldest scan_budget = (\<lambda>(k, sl) s0.
     if gs_current s0 \<noteq> Some (vk_key k) \<and> (CHUNK \<le> length (gs_doomed s0) \<or> scan_budget \<le> gs_scanned s0)
     then (s0\<lparr>gs_budget_spent := scan_budget \<le> gs_scanned s0, gs_resume := Some (first_of (vk_key k))\<rparr>, Some ())
     else let s1 = (if gs_current s0 \<noteq> Some (vk_key k)
                    then s0\<lparr>gs_current := Some (vk_key k), gs_kept := False\<rparr> else s0);
              s2 = s1\<lparr>gs_scanned := gs_scanned s1 + 1\<rparr>
          in if oldest < vk_version k then (s2, None)
             else if gs_kept s2 then (s2\<lparr>gs_doomed := gs_doomed s2 @ [k]\<rparr>, None)
             else let s3 = s2\<lparr>gs_kept := True\<rparr>
                  in if sl = None then (s3\<lparr>gs_doomed := gs_doomed s3 @ [k]\<rparr>, None) else (s3, None))"

definition gc_remove :: "'t bbtree_ops \<Rightarrow> versioned_key \<Rightarrow> 't \<times> nat \<Rightarrow> 't \<times> nat" where
  "gc_remove B key = (\<lambda>(tree, removed).
     case bb_remove B tree key of (t, Some _) \<Rightarrow> (t, removed + 1) | (t, None) \<Rightarrow> (t, removed))"

text \<open>One round of the loop of \<open>gc_step\<close>; the flag says whether the method returns here.\<close>

definition gc_round :: "'t bbtree_ops \<Rightarrow> u64 \<Rightarrow> nat \<Rightarrow> 't shared \<times> gc_cursor \<times> garbage_report
    \<Rightarrow> ('t shared \<times> gc_cursor \<times> garbage_report) \<times> bool" where
  "gc_round B oldest scan_budget = (\<lambda>(sh, cursor, report).
     let cf = cf_all ! gc_cf cursor;
         tree = sh_trees sh cf;
         s = fst (scan_fold (gc_visit oldest scan_budget)
               (bb_range B tree (case gc_resume cursor of None \<Rightarrow> Unbounded | Some from \<Rightarrow> Included from) Unbounded)
               \<lparr>gs_current = gc_current cursor, gs_kept = gc_kept cursor, gs_scanned = gr_scanned report,
                gs_doomed = [], gs_resume = None, gs_budget_spent = False\<rparr>);
         (tree', removed) = fold (gc_remove B) (rev (gs_doomed s)) (tree, gr_removed report);
         sh' = sh\<lparr>sh_trees := (sh_trees sh)(cf := tree')\<rparr>;
         report' = report\<lparr>gr_removed := removed, gr_scanned := gs_scanned s\<rparr>;
         cursor' = cursor\<lparr>gc_current := gs_current s, gc_kept := gs_kept s\<rparr>
     in case gs_resume s of
          Some next_key \<Rightarrow> ((sh', cursor'\<lparr>gc_resume := Some next_key\<rparr>, report'), gs_budget_spent s)
        | None \<Rightarrow>
            let cursor2 = \<lparr>gc_cf = gc_cf cursor' + 1, gc_resume = None, gc_current = None, gc_kept = False\<rparr>
            in if gc_cf cursor2 = length cf_all
               then ((sh', cursor2\<lparr>gc_cf := 0\<rparr>, report'\<lparr>gr_cycle_complete := True\<rparr>), True)
               else ((sh', cursor2, report'), scan_budget \<le> gr_scanned report'))"

partial_function (option) gc_loop :: "'t bbtree_ops \<Rightarrow> u64 \<Rightarrow> nat \<Rightarrow> 't shared \<times> gc_cursor \<times> garbage_report
    \<Rightarrow> ('t shared \<times> gc_cursor \<times> garbage_report) option" where
  "gc_loop B oldest scan_budget st =
     (let (st', stop) = gc_round B oldest scan_budget st
      in if stop then Some st' else gc_loop B oldest scan_budget st')"

definition gc_step ::
  "'t bbtree_ops \<Rightarrow> 't shared \<Rightarrow> gc_cursor \<Rightarrow> nat \<Rightarrow> ('t shared \<times> gc_cursor \<times> garbage_report) option" where
  "gc_step B sh cursor scan_budget =
     (let oldest = oldest_live_version sh
      in gc_loop B oldest (max scan_budget 1)
           (sh, cursor, \<lparr>gr_oldest_live_version = oldest, gr_removed = 0, gr_scanned = 0,
                         gr_cycle_complete = False\<rparr>))"

partial_function (option) collect_loop :: "'t bbtree_ops \<Rightarrow> 't shared \<Rightarrow> gc_cursor \<Rightarrow> garbage_report
    \<Rightarrow> ('t shared \<times> garbage_report) option" where
  "collect_loop B sh cursor tot =
     Option.bind (gc_step B sh cursor USIZE_MAX)
       (\<lambda>(sh', cursor', step).
          let tot' = tot\<lparr>gr_oldest_live_version := gr_oldest_live_version step,
                gr_removed := gr_removed tot + gr_removed step,
                gr_scanned := gr_scanned tot + gr_scanned step\<rparr>
          in if gr_cycle_complete step then Some (sh', tot'\<lparr>gr_cycle_complete := True\<rparr>)
             else collect_loop B sh' cursor' tot')"

definition collect_garbage :: "'t bbtree_ops \<Rightarrow> 't shared \<Rightarrow> ('t shared \<times> garbage_report) option" where
  "collect_garbage B sh = collect_loop B sh gc_cursor_default
     \<lparr>gr_oldest_live_version = 0, gr_removed = 0, gr_scanned = 0, gr_cycle_complete = False\<rparr>"

section \<open>Building a checkpoint image\<close>

definition CHECKPOINT_OUT_OF_MEMORY :: error where
  "CHECKPOINT_OUT_OF_MEMORY = EngineError ''engine: out of memory for a checkpoint row''"

record 't checkpoint_builder =
  cb_engine :: "'t shared"
  cb_changes :: bool

definition builder_new :: "'t bbtree_ops \<Rightarrow> 't checkpoint_builder" where
  "builder_new B = \<lparr>cb_engine = vm_new B, cb_changes = False\<rparr>"

definition builder_put :: "'t bbtree_ops \<Rightarrow> 't checkpoint_builder \<Rightarrow> column_family \<Rightarrow> bytes \<Rightarrow> bytes
    \<Rightarrow> 't checkpoint_builder \<times> unit result" where
  "builder_put B cb cf key val =
     (let cb1 = cb\<lparr>cb_changes := cb_changes cb \<or> changes_data_revision cf key\<rparr>; sh = cb_engine cb1
      in case bb_insert B (sh_trees sh cf) (vk_new key 1) (Some val) of
           None \<Rightarrow> (cb1, Inl CHECKPOINT_OUT_OF_MEMORY)
         | Some t \<Rightarrow> (cb1\<lparr>cb_engine := sh\<lparr>sh_trees := (sh_trees sh)(cf := t)\<rparr>\<rparr>, Inr ()))"

definition builder_finish :: "'t checkpoint_builder \<Rightarrow> applied_position \<Rightarrow> 't shared" where
  "builder_finish cb at = (cb_engine cb)
     \<lparr>sh_published := \<lparr>pb_version = 1, pb_applied = Some at, pb_data_revision = of_bool (cb_changes cb)\<rparr>,
      sh_visible := 1, sh_writer := 1\<rparr>"

end
