(* ===== verification/VersionedReads.thy ===== *)
theory VersionedReads
  imports Versioned
begin

text \<open>
  Reads of a \<open>VersionedMemEngine\<close> view: what the engine relies on of the tree, the contents of a
  tree at a version, and that point reads, forward and backward pages and the page iterator return
  exactly those contents. Every loop is shown to return.
\<close>

section \<open>What the engine relies on of the tree\<close>

fun above :: "'k :: linorder bound \<Rightarrow> 'k \<Rightarrow> bool" where
  "above Unbounded k \<longleftrightarrow> True"
| "above (Included lo) k \<longleftrightarrow> lo \<le> k"
| "above (Excluded lo) k \<longleftrightarrow> lo < k"

fun below :: "'k :: linorder bound \<Rightarrow> 'k \<Rightarrow> bool" where
  "below Unbounded k \<longleftrightarrow> True"
| "below (Included hi) k \<longleftrightarrow> k \<le> hi"
| "below (Excluded hi) k \<longleftrightarrow> k < hi"

fun bounds_ok :: "'k :: linorder bound \<Rightarrow> 'k bound \<Rightarrow> bool" where
  "bounds_ok (Included lo) (Excluded hi) \<longleftrightarrow> lo \<le> hi"
| "bounds_ok (Included lo) Unbounded \<longleftrightarrow> True"
| "bounds_ok Unbounded Unbounded \<longleftrightarrow> True"
| "bounds_ok _ _ \<longleftrightarrow> False"

text \<open>
  \<open>brep t xs\<close>: the tree \<open>t\<close> holds exactly the entries \<open>xs\<close>, in key order. The law for ranges covers
  the shapes of range the engine passes, with a start that does not exceed the end.
\<close>

locale bbtree_laws =
  fixes B :: "'t bbtree_ops" and brep :: "'t \<Rightarrow> (versioned_key, slot) omap \<Rightarrow> bool"
  assumes bb_sorted: "brep t xs \<Longrightarrow> om_ok xs"
    and bb_new: "brep (bb_new B) []"
    and bb_insert: "brep t xs \<Longrightarrow> bb_insert B t k sl = Some t' \<Longrightarrow> brep t' (om_insert k sl xs)"
    and bb_remove: "brep t xs \<Longrightarrow> bb_remove B t k = (t', r) \<Longrightarrow> brep t' (om_remove k xs) \<and> r = map_of xs k"
    and bb_range: "brep t xs \<Longrightarrow> bounds_ok lo hi \<Longrightarrow>
      bb_range B t lo hi = filter (\<lambda>e. above lo (fst e) \<and> below hi (fst e)) xs"

section \<open>The order of versioned keys\<close>

lemma inverse_less: "u64_max - a < u64_max - b \<longleftrightarrow> b < (a :: u64)"
proof -
  have "unat (u64_max - x) = unat u64_max - unat x" "unat x \<le> unat u64_max" for x :: u64
    by (simp_all add: unat_sub word_le_nat_alt [symmetric])
  from this [of a] this [of b] show ?thesis by (simp add: word_less_nat_alt) linarith
qed

lemma vk_less_iff:
  "a < b \<longleftrightarrow> vk_key a < vk_key b \<or> vk_key a = vk_key b \<and> vk_version b < vk_version a"
  by (auto simp: less_versioned_key_def vk_version_def inverse_less)

lemma vk_version_new [simp]: "vk_version (vk_new key v) = v" "vk_key (vk_new key v) = key"
  by (simp_all add: vk_version_def vk_new_def)

lemma vk_eq_iff: "a = b \<longleftrightarrow> vk_key a = vk_key b \<and> vk_version a = vk_version b"
  by (cases a; cases b) (auto simp: vk_version_def)

lemma vk_collapse [simp]: "vk_new (vk_key k) (vk_version k) = k"
  by (simp add: vk_eq_iff)

lemma vk_le_iff:
  "a \<le> b \<longleftrightarrow> vk_key a < vk_key b \<or> vk_key a = vk_key b \<and> vk_version b \<le> vk_version a"
  by (auto simp: le_less vk_less_iff vk_eq_iff)

lemma vk_key_first_of [simp]: "vk_key (first_of key) = key" "vk_version (first_of key) = u64_max"
  by (simp_all add: first_of_def vk_version_def)

lemma first_of_le [simp]: "first_of key \<le> k \<longleftrightarrow> key \<le> vk_key k"
  by (auto simp: vk_le_iff)

lemma less_first_of [simp]: "k < first_of key \<longleftrightarrow> vk_key k < key"
  by (auto simp: vk_less_iff not_less)

lemma after_key_le [simp]: "after_key key \<le> k \<longleftrightarrow> key < vk_key k"
  by (simp add: after_key_def snoc_zero_next [symmetric])

lemma newest_visible_le: "newest_visible key v \<le> k \<longleftrightarrow> key < vk_key k \<or> key = vk_key k \<and> vk_version k \<le> v"
  by (auto simp: newest_visible_def vk_le_iff)

lemma vk_key_mono: "a \<le> b \<Longrightarrow> vk_key a \<le> vk_key b"
  by (auto simp: vk_le_iff)

section \<open>The contents at a version\<close>

text \<open>
  \<open>live_from version c es\<close>: the live entries of \<open>es\<close> at a version, one per key, where the key \<open>c\<close> is
  already decided. A key's newest version not newer than the reader's decides it.
\<close>

fun live_from :: "u64 \<Rightarrow> bytes option \<Rightarrow> ventry list \<Rightarrow> scan_entry list" where
  "live_from version c [] = []"
| "live_from version c ((k, sl) # es) =
     (if c = Some (vk_key k) \<or> version < vk_version k then live_from version c es
      else (case sl of None \<Rightarrow> [] | Some val \<Rightarrow> [(vk_key k, val)]) @ live_from version (Some (vk_key k)) es)"

abbreviation live :: "u64 \<Rightarrow> ventry list \<Rightarrow> scan_entry list" where
  "live version es \<equiv> live_from version None es"

definition decided_below :: "bytes option \<Rightarrow> ventry list \<Rightarrow> bool" where
  "decided_below c es \<longleftrightarrow> (\<forall>j. c = Some j \<longrightarrow> (\<forall>e\<in>set es. j \<le> vk_key (fst e)))"

lemma decided_below_None [simp]: "decided_below None es"
  by (simp add: decided_below_def)

lemma decided_below_tail: "decided_below c (e # es) \<Longrightarrow> decided_below c es"
  by (simp add: decided_below_def)

lemma decided_below_head: "om_ok ((k, sl) # es) \<Longrightarrow> decided_below (Some (vk_key k)) es"
  by (auto simp: decided_below_def om_ok_Cons intro: vk_key_mono less_imp_le)

lemma live_from_irrelevant:
  "\<forall>e\<in>set es. c \<noteq> Some (vk_key (fst e)) \<Longrightarrow> live_from version c es = live version es"
  by (induction version c es rule: live_from.induct) auto

lemma live_from_other:
  assumes "om_ok ((k, sl) # es)" "decided_below c ((k, sl) # es)" "c \<noteq> Some (vk_key k)"
  shows "live_from version c es = live version es"
proof (rule live_from_irrelevant, rule ballI)
  fix e assume "e \<in> set es"
  with assms(1) have "vk_key k \<le> vk_key (fst e)" by (auto simp: om_ok_Cons intro: vk_key_mono less_imp_le)
  with assms(2,3) show "c \<noteq> Some (vk_key (fst e))" by (auto simp: decided_below_def)
qed

lemma live_from_newer:
  "\<forall>e\<in>set es. \<not> P e \<longrightarrow> version < vk_version (fst e) \<Longrightarrow>
     live_from version c (filter P es) = live_from version c es"
  by (induction version c es rule: live_from.induct) auto

lemma live_from_skip_key:
  assumes "om_ok es" "\<forall>e\<in>set es. key \<le> vk_key (fst e)"
  shows "live_from version (Some key) es = live version (filter (\<lambda>e. key < vk_key (fst e)) es)"
  using assms
proof (induction es)
  case (Cons e es)
  obtain k sl where e: "e = (k, sl)" by fastforce
  show ?case
  proof (cases "vk_key k = key")
    case True
    with Cons e show ?thesis by (auto simp: om_ok_Cons)
  next
    case False
    with Cons.prems e have lt: "key < vk_key k" by auto
    have "vk_key k \<le> vk_key (fst x)" if "x \<in> set es" for x
      using Cons.prems(1) e that by (auto simp: om_ok_Cons intro: vk_key_mono less_imp_le)
    with lt have "\<forall>x\<in>set (e # es). key < vk_key (fst x)" using e by (auto intro: less_le_trans)
    then have "filter (\<lambda>e. key < vk_key (fst e)) (e # es) = e # es" by (intro filter_True) auto
    moreover have "live_from version (Some key) (e # es) = live version (e # es)"
      using \<open>\<forall>x\<in>set (e # es). key < vk_key (fst x)\<close> by (intro live_from_irrelevant) auto
    ultimately show ?thesis by simp
  qed
qed simp

lemma live_from_filter_key:
  assumes "om_ok es" "decided_below c es"
  shows "live_from version c (filter (\<lambda>e. P (vk_key (fst e))) es) = filter (\<lambda>e. P (fst e)) (live_from version c es)"
  using assms
proof (induction es arbitrary: c)
  case (Cons e es)
  obtain k sl where e: "e = (k, sl)" by fastforce
  note ok = Cons.prems(1) [unfolded e] and c = Cons.prems(2) [unfolded e]
  have es: "om_ok es" using ok by (simp add: om_ok_Cons)
  show ?case
  proof (cases "c = Some (vk_key k) \<or> version < vk_version k")
    case True
    with Cons.IH [OF es decided_below_tail [OF c]] e show ?thesis by auto
  next
    case False
    have "live_from version c (filter (\<lambda>e. P (vk_key (fst e))) es)
        = live_from version (Some (vk_key k)) (filter (\<lambda>e. P (vk_key (fst e))) es)" if "\<not> P (vk_key k)"
    proof -
      have "live_from version c (filter (\<lambda>e. P (vk_key (fst e))) es) = live version (filter (\<lambda>e. P (vk_key (fst e))) es)"
        using Cons.IH [OF es decided_below_tail [OF c]] Cons.IH [OF es decided_below_None] live_from_other [OF ok c] False
        by simp
      moreover have "live_from version (Some (vk_key k)) (filter (\<lambda>e. P (vk_key (fst e))) es)
          = live version (filter (\<lambda>e. P (vk_key (fst e))) es)"
        using that by (intro live_from_irrelevant) auto
      ultimately show ?thesis by simp
    qed
    with Cons.IH [OF es decided_below_head [OF ok]] False e show ?thesis by (auto split: option.splits)
  qed
qed simp

lemma live_key_range: "om_ok es \<Longrightarrow> live version (filter (\<lambda>e. P (vk_key (fst e))) es) = filter (\<lambda>e. P (fst e)) (live version es)"
  by (simp add: live_from_filter_key)

text \<open>The slot of a key at a version: its newest entry not newer than the version.\<close>

definition slot_at :: "u64 \<Rightarrow> ventry list \<Rightarrow> bytes \<Rightarrow> slot option" where
  "slot_at version es key = map_option snd (find (\<lambda>e. vk_key (fst e) = key \<and> vk_version (fst e) \<le> version) es)"

lemma live_from_keys: "e \<in> set (live_from version c es) \<Longrightarrow> \<exists>x\<in>set es. vk_key (fst x) = fst e"
  by (induction version c es rule: live_from.induct) (auto split: if_splits option.splits)

lemma live_from_undecided:
  assumes "om_ok es" "decided_below c es" "e \<in> set (live_from version c es)"
  shows "c \<noteq> Some (fst e)"
  using assms
proof (induction es arbitrary: c)
  case (Cons x es)
  obtain k sl where x: "x = (k, sl)" by fastforce
  note ok = Cons.prems(1) [unfolded x] and c = Cons.prems(2) [unfolded x]
  show ?case
  proof (cases "c = Some (vk_key k) \<or> version < vk_version k")
    case True
    with Cons x show ?thesis by (auto simp: om_ok_Cons decided_below_def)
  next
    case False
    from Cons.prems(3) x False have "fst e = vk_key k \<or> e \<in> set (live_from version (Some (vk_key k)) es)"
      by (auto split: option.splits)
    then have "vk_key k \<le> fst e"
      using live_from_keys [of e version "Some (vk_key k)" es] decided_below_head [OF ok]
      by (force simp: decided_below_def)
    with False c show ?thesis by (auto simp: decided_below_def)
  qed
qed simp

lemma live_from_ok: "om_ok es \<Longrightarrow> decided_below c es \<Longrightarrow> om_ok (live_from version c es)"
proof (induction es arbitrary: c)
  case (Cons e es)
  obtain k sl where e: "e = (k, sl)" by fastforce
  note ok = Cons.prems(1) [unfolded e]
  have "vk_key k < fst x" if "x \<in> set (live_from version (Some (vk_key k)) es)" for x
    using live_from_keys [OF that] live_from_undecided [OF _ decided_below_head [OF ok] that] ok decided_below_head [OF ok]
    by (force simp: decided_below_def order_le_less om_ok_Cons)
  with Cons e decided_below_tail [of c e es] decided_below_head [OF ok] show ?case
    by (auto simp: om_ok_Cons split: option.splits)
qed simp

lemma live_ok [simp]: "om_ok es \<Longrightarrow> om_ok (live version es)"
  by (simp add: live_from_ok)

lemma live_get:
  assumes "om_ok es" "decided_below c es" "c \<noteq> Some key"
  shows "map_of (live_from version c es) key = option_flatten (slot_at version es key)"
  using assms
proof (induction es arbitrary: c)
  case (Cons e es)
  obtain k sl where e: "e = (k, sl)" by fastforce
  note ok = Cons.prems(1) [unfolded e] and c = Cons.prems(2) [unfolded e]
  have es: "om_ok es" using ok by (simp add: om_ok_Cons)
  have none: "map_of (live_from version (Some key) es) key = None"
    if "vk_key k = key"
    using live_from_undecided [OF es decided_below_head [OF ok]] that by (force simp: map_of_eq_None_iff)
  show ?case
    using Cons.IH [OF es decided_below_tail [OF c] Cons.prems(3)] Cons.IH [OF es decided_below_head [OF ok]]
      none Cons.prems(3) e
    by (auto simp: slot_at_def option_flatten_def not_less split: option.splits)
qed (simp add: slot_at_def option_flatten_def)

section \<open>One walk of a forward page\<close>

definition page_decided :: "page_state \<Rightarrow> bytes option" where
  "page_decided s = (if pg_decided s then pg_current s else None)"

definition seek_from :: "u64 \<Rightarrow> versioned_key \<Rightarrow> versioned_key \<Rightarrow> bool" where
  "seek_from version nk k \<longleftrightarrow> nk = after_key (vk_key k) \<or>
     nk = newest_visible (vk_key k) version \<and> version < vk_version k"

definition walk_result :: "u64 \<Rightarrow> nat \<Rightarrow> ventry list \<Rightarrow> page_state \<Rightarrow> page_state \<Rightarrow> bool" where
  "walk_result version limit es s s' \<longleftrightarrow>
     (case pg_seek s' of
        None \<Rightarrow> pg_out s' = take limit (pg_out s @ live_from version (page_decided s) es)
      | Some nk \<Rightarrow> length (pg_out s') < limit
          \<and> pg_out s' @ live version (filter (\<lambda>e. nk \<le> fst e) es) = pg_out s @ live_from version (page_decided s) es
          \<and> (\<exists>e\<in>set es. seek_from version nk (fst e)))"

lemma seek_from_less: "seek_from version nk k \<Longrightarrow> k < nk"
  by (auto simp: seek_from_def not_le [symmetric] newest_visible_le)

lemma page_seek_after:
  assumes "om_ok ((k, sl) # es)" "c = Some (vk_key k)"
  shows "live version (filter (\<lambda>e. after_key (vk_key k) \<le> fst e) ((k, sl) # es)) = live_from version c ((k, sl) # es)"
proof -
  have "\<forall>e\<in>set ((k, sl) # es). vk_key k \<le> vk_key (fst e)"
    using assms(1) by (auto simp: om_ok_Cons intro: vk_key_mono less_imp_le)
  from live_from_skip_key [OF assms(1) this] assms(2) show ?thesis by simp
qed

lemma page_seek_newest:
  assumes ok: "om_ok ((k, sl) # es)" and c: "decided_below c ((k, sl) # es)" "c \<noteq> Some (vk_key k)"
    and v: "version < vk_version k"
  shows "live version (filter (\<lambda>e. newest_visible (vk_key k) version \<le> fst e) ((k, sl) # es))
    = live_from version c ((k, sl) # es)"
proof -
  have "\<forall>e\<in>set ((k, sl) # es). \<not> newest_visible (vk_key k) version \<le> fst e \<longrightarrow> version < vk_version (fst e)"
    using ok by (auto simp: om_ok_Cons newest_visible_le not_le not_less dest!: bspec vk_key_mono [OF less_imp_le])
  then have "live version (filter (\<lambda>e. newest_visible (vk_key k) version \<le> fst e) ((k, sl) # es))
      = live version ((k, sl) # es)" by (rule live_from_newer)
  with live_from_other [OF ok c] v show ?thesis by simp
qed

lemma page_visit_step:
  assumes ok: "om_ok ((k, sl) # es)" and c: "decided_below (page_decided s) ((k, sl) # es)"
    and s: "pg_seek s = None" "length (pg_out s) < limit"
    and v: "page_visit version limit (k, sl) s = (s', r)"
  shows "r = None \<Longrightarrow> pg_seek s' = None \<and> length (pg_out s') < limit \<and> decided_below (page_decided s') es
      \<and> pg_out s' @ live_from version (page_decided s') es = pg_out s @ live_from version (page_decided s) ((k, sl) # es)"
    and "r \<noteq> None \<Longrightarrow> walk_result version limit ((k, sl) # es) s s'"
proof -
  let ?fresh = "page_decided s \<noteq> Some (vk_key k)"
  have below: "decided_below (Some (vk_key k)) es" using ok by (rule decided_below_head)
  note other = live_from_other [OF ok c, of version]
  note seek = page_seek_after [OF ok, of "page_decided s" version] page_seek_newest [OF ok c, of version]
  note defs = page_visit_def page_decided_def Let_def
  show "pg_seek s' = None \<and> length (pg_out s') < limit \<and> decided_below (page_decided s') es
      \<and> pg_out s' @ live_from version (page_decided s') es = pg_out s @ live_from version (page_decided s) ((k, sl) # es)"
    if "r = None"
    using v s that below other decided_below_tail [OF c]
    by (auto simp: defs split: if_splits option.splits)
  have last: "take limit (pg_out s @ live_from version (page_decided s) ((k, sl) # es)) = pg_out s @ [(vk_key k, val)]"
    if "sl = Some val" "page_decided s \<noteq> Some (vk_key k)" "\<not> version < vk_version k" "limit \<le> Suc (length (pg_out s))" for val
  proof -
    have "limit = Suc (length (pg_out s))" using that(4) s(2) by simp
    then show ?thesis using that by simp
  qed
  show "walk_result version limit ((k, sl) # es) s s'" if "r \<noteq> None"
    using v s that seek last
    by (auto simp: defs walk_result_def seek_from_def SKIP_LIMIT_def simp del: live_from.simps filter.simps take_append
        split: if_splits option.splits)
qed

lemma page_walk:
  assumes "om_ok es" "decided_below (page_decided s) es" "pg_seek s = None" "length (pg_out s) < limit"
  shows "walk_result version limit es s (fst (scan_fold (page_visit version limit) es s))"
  using assms
proof (induction es arbitrary: s)
  case (Cons e es)
  obtain k sl where e: "e = (k, sl)" by fastforce
  obtain s' r where v: "page_visit version limit (k, sl) s = (s', r)" by fastforce
  note step = page_visit_step [OF Cons.prems(1,2) [unfolded e] Cons.prems(3,4) v]
  show ?case
  proof (cases r)
    case None
    let ?t = "fst (scan_fold (page_visit version limit) es s')"
    have "walk_result version limit es s' ?t"
      using Cons.IH [of s'] Cons.prems(1) step(1) [OF None] by (simp add: om_ok_Cons)
    moreover have "\<not> nk \<le> fst e" if "x \<in> set es" "seek_from version nk (fst x)" for nk x
      using seek_from_less [OF that(2)] that(1) Cons.prems(1) by (fastforce simp: om_ok_Cons)
    ultimately have "walk_result version limit (e # es) s ?t"
      using step(1) [OF None] e
      by (auto simp: walk_result_def simp del: live_from.simps take_append split: option.splits)
    with v None e show ?thesis by simp
  next
    case (Some u)
    with v e step(2) show ?thesis by simp
  qed
qed (simp add: walk_result_def)

definition page_upper :: "versioned_key bound \<Rightarrow> bool" where
  "page_upper u \<longleftrightarrow> u = Unbounded \<or> (\<exists>fin. u = Excluded (first_of fin))"

lemma seek_from_bounds:
  assumes "seek_from version nk k" "below upper k" "page_upper upper"
  shows "bounds_ok (Included nk) upper"
proof (cases upper)
  case (Excluded hi)
  then obtain fin where "hi = first_of fin" using assms(3) by (auto simp: page_upper_def)
  moreover have "after_key (vk_key k) \<le> first_of fin \<longleftrightarrow> vk_key k < fin" by simp
  moreover have "newest_visible (vk_key k) version \<le> first_of fin" if "vk_key k < fin"
    using that by (simp add: newest_visible_le)
  ultimately show ?thesis using assms(1,2) Excluded by (auto simp: seek_from_def)
qed (use assms in \<open>auto simp: page_upper_def\<close>)

lemma filter_from_later:
  "cursor \<le> nk \<Longrightarrow> filter (\<lambda>e. nk \<le> fst e) (filter (\<lambda>e. cursor \<le> fst e \<and> below upper (fst e)) xs)
     = filter (\<lambda>e. nk \<le> fst e \<and> below upper (fst e)) xs"
  by (auto simp: filter_filter intro!: filter_cong intro: order_trans)

context bbtree_laws
begin

lemma page_loop_correct:
  assumes "brep tree xs" "page_upper upper" "bounds_ok (Included cursor) upper" "length out < limit"
  shows "page_loop B tree version limit upper cursor out =
    Some (take limit (out @ live version (filter (\<lambda>e. cursor \<le> fst e \<and> below upper (fst e)) xs)))"
  using assms
proof (induction "length (filter (\<lambda>e. cursor \<le> fst e \<and> below upper (fst e)) xs)" arbitrary: cursor out rule: less_induct)
  case less
  define es where "es = filter (\<lambda>e. cursor \<le> fst e \<and> below upper (fst e)) xs"
  define s where "s = fst (scan_fold (page_visit version limit) es (page_start out))"
  have ok: "om_ok es" using bb_sorted [OF less.prems(1)] by (simp add: es_def)
  have range: "bb_range B tree (Included cursor) upper = es"
    using bb_range [OF less.prems(1,3)] by (simp add: es_def)
  have w: "walk_result version limit es (page_start out) s"
    unfolding s_def using ok less.prems(4) by (intro page_walk) (simp_all add: page_start_def page_decided_def)
  have loop: "page_loop B tree version limit upper cursor out =
      (case pg_seek s of None \<Rightarrow> Some (pg_out s)
       | Some nk \<Rightarrow> if length (pg_out s) < limit then page_loop B tree version limit upper nk (pg_out s)
                    else Some (pg_out s))"
    by (subst page_loop.simps) (simp add: range s_def [symmetric] Let_def)
  show ?case
  proof (cases "pg_seek s")
    case None
    with w loop show ?thesis by (simp add: walk_result_def page_start_def page_decided_def es_def)
  next
    case (Some nk)
    from w Some obtain x where x: "x \<in> set es" "seek_from version nk (fst x)" and len: "length (pg_out s) < limit"
      and out: "pg_out s @ live version (filter (\<lambda>e. nk \<le> fst e) es) = out @ live version es"
      by (auto simp: walk_result_def page_start_def page_decided_def)
    have nk: "cursor \<le> nk" "below upper (fst x)"
      using seek_from_less [OF x(2)] x(1) by (auto simp: es_def)
    have later: "filter (\<lambda>e. nk \<le> fst e \<and> below upper (fst e)) xs = filter (\<lambda>e. nk \<le> fst e) es"
      unfolding es_def by (rule filter_from_later [OF nk(1), symmetric])
    have "length (filter (\<lambda>e. nk \<le> fst e) es) < length es"
      using x(1) seek_from_less [OF x(2)] by (intro length_filter_less [OF x(1)]) (simp add: not_le)
    then have "page_loop B tree version limit upper nk (pg_out s) =
        Some (take limit (pg_out s @ live version (filter (\<lambda>e. nk \<le> fst e) es)))"
      using less.hyps [of nk "pg_out s"] less.prems(1,2) seek_from_bounds [OF x(2) nk(2) less.prems(2)] len
      by (simp only: later) (simp only: es_def)
    with loop Some len out show ?thesis unfolding es_def [symmetric] by (simp del: take_append)
  qed
qed

text \<open>A forward page is the first entries of its range at the view's version.\<close>

lemma page_correct:
  assumes "brep (sh_trees sh cf) xs"
  shows "page B sh v cf start (Some fin) limit = Some (take limit (om_range start fin (live (vw_version v) xs)))"
proof (cases "limit = 0 \<or> fin \<le> start")
  case True
  have "om_range start fin zs = []" if "fin \<le> start" for zs :: "scan_entry list"
    using that by (auto simp: om_range_def filter_empty_conv)
  with True show ?thesis by (auto simp: page_def)
next
  case False
  have "page_loop B (sh_trees sh cf) (vw_version v) limit (Excluded (first_of fin)) (first_of start) [] =
      Some (take limit ([] @ live (vw_version v) (filter (\<lambda>e. first_of start \<le> fst e \<and> below (Excluded (first_of fin)) (fst e)) xs)))"
    using False by (intro page_loop_correct [OF assms]) (auto simp: page_upper_def)
  moreover have "live (vw_version v) (filter (\<lambda>e. start \<le> vk_key (fst e) \<and> vk_key (fst e) < fin) xs)
      = om_range start fin (live (vw_version v) xs)"
    unfolding om_range_def by (rule live_key_range [OF bb_sorted [OF assms]])
  ultimately show ?thesis using False by (auto simp: page_def not_le)
qed

lemma page_all_correct:
  assumes "brep (sh_trees sh cf) xs"
  shows "page B sh v cf start None limit = Some (take limit (filter (\<lambda>e. start \<le> fst e) (live (vw_version v) xs)))"
proof (cases "limit = 0")
  case False
  have "page_loop B (sh_trees sh cf) (vw_version v) limit Unbounded (first_of start) [] =
      Some (take limit ([] @ live (vw_version v) (filter (\<lambda>e. first_of start \<le> fst e \<and> below Unbounded (fst e)) xs)))"
    using False by (intro page_loop_correct [OF assms]) (auto simp: page_upper_def)
  with False live_key_range [OF bb_sorted [OF assms], of "vw_version v" "\<lambda>k. start \<le> k"] show ?thesis
    by (simp add: page_def)
qed (simp add: page_def)

lemma newest_slot_correct:
  assumes "brep tree xs"
  shows "newest_slot B v tree key = slot_at (vw_version v) xs key"
proof -
  let ?P = "\<lambda>e :: ventry. newest_visible key (vw_version v) \<le> fst e"
  have range: "bb_range B tree (Included (newest_visible key (vw_version v))) Unbounded = filter ?P xs"
    using bb_range [OF assms, of "Included (newest_visible key (vw_version v))" Unbounded] by simp
  have "slot_at (vw_version v) xs key = slot_at (vw_version v) (filter ?P xs) key"
    by (induction xs) (auto simp: slot_at_def newest_visible_le)
  also have "\<dots> = (case filter ?P xs of [] \<Rightarrow> None | e # _ \<Rightarrow> if vk_key (fst e) = key then Some (snd e) else None)"
  proof (cases "filter ?P xs")
    case (Cons e es)
    have ok: "om_ok (e # es)" using bb_sorted [OF assms] Cons by (metis om_ok_filter)
    have "e \<in> set (filter ?P xs)" by (simp add: Cons)
    then have e: "key < vk_key (fst e) \<or> key = vk_key (fst e) \<and> vk_version (fst e) \<le> vw_version v"
      by (simp add: newest_visible_le)
    have "vk_key (fst e) \<le> vk_key (fst x)" if "x \<in> set es" for x
      using ok that by (auto simp: om_ok_Cons intro: vk_key_mono less_imp_le)
    then have "find (\<lambda>x. vk_key (fst x) = key \<and> vk_version (fst x) \<le> vw_version v) es = None" if "key < vk_key (fst e)"
      using that by (force simp: find_None_iff)
    with e show ?thesis unfolding Cons by (cases e) (auto simp: slot_at_def)
  qed (simp add: slot_at_def)
  finally show ?thesis
    by (simp add: newest_slot_def range Let_def split: list.split)
qed

lemma view_get_correct:
  assumes "brep (sh_trees sh cf) xs"
  shows "view_get B sh v cf key = Inr (map_of (live (vw_version v) xs) key)"
    and "view_get_resident_value B sh v cf key = Some (map_of (live (vw_version v) xs) key)"
  using live_get [OF bb_sorted [OF assms] decided_below_None, of key "vw_version v"]
  by (simp_all add: view_get_def view_get_resident_value_def newest_slot_correct [OF assms])

lemma page_rev_loop_correct:
  assumes "brep tree xs" "lo \<le> hi" "length out \<le> limit"
  shows "page_rev_loop B v tree limit (first_of lo) (Excluded (first_of hi)) out =
    Some (take limit (out @ rev (om_range lo hi (live (vw_version v) xs))))"
  using assms
proof (induction "length (filter (\<lambda>e. lo \<le> vk_key (fst e) \<and> vk_key (fst e) < hi) xs)" arbitrary: hi out rule: less_induct)
  case less
  let ?L = "live (vw_version v) xs"
  define es where "es = filter (\<lambda>e. lo \<le> vk_key (fst e) \<and> vk_key (fst e) < hi) xs"
  have ok: "om_ok xs" by (rule bb_sorted [OF less.prems(1)])
  have range: "bb_range B tree (Included (first_of lo)) (Excluded (first_of hi)) = es"
    using bb_range [OF less.prems(1), of "Included (first_of lo)" "Excluded (first_of hi)"] less.prems(2)
    by (simp add: es_def)
  show ?case
  proof (cases "length out < limit")
    case False
    then show ?thesis using less.prems(3) by (subst page_rev_loop.simps) simp
  next
    case True
    show ?thesis
    proof (cases es rule: rev_cases)
      case Nil
      have "om_range lo hi ?L = live (vw_version v) es"
        unfolding es_def om_range_def by (rule live_key_range [OF ok, symmetric])
      with Nil True range show ?thesis by (subst page_rev_loop.simps) simp
    next
      case (snoc es' e)
      obtain k sl where e: "e = (k, sl)" by fastforce
      have mem: "e \<in> set es" by (simp add: snoc)
      then have k: "lo \<le> vk_key k" "vk_key k < hi" by (auto simp: es_def e)
      have "om_ok es" using ok by (simp add: es_def)
      then have "\<forall>x\<in>set es'. fst x < k" by (simp add: snoc e om_ok_append)
      then have "vk_key (fst x) \<le> vk_key k" if "x \<in> set es" for x
        using that by (auto simp: snoc e intro: vk_key_mono less_imp_le)
      then have top: "\<forall>x\<in>set ?L. lo \<le> fst x \<and> fst x < hi \<longrightarrow> fst x \<le> vk_key k"
        by (auto simp: es_def dest!: live_from_keys)
      have "length (filter (\<lambda>x. lo \<le> vk_key (fst x) \<and> vk_key (fst x) < vk_key k) xs) < length es"
      proof -
        have "filter (\<lambda>x. lo \<le> vk_key (fst x) \<and> vk_key (fst x) < vk_key k) xs = filter (\<lambda>x. vk_key (fst x) < vk_key k) es"
          using k by (auto simp: es_def intro!: filter_cong)
        then show ?thesis using mem e by (simp add: length_filter_less)
      qed
      note IH = less.hyps [OF this [unfolded es_def] less.prems(1) k(1)]
      have slot: "option_flatten (newest_slot B v tree (vk_key k)) = map_of ?L (vk_key k)"
        using live_get [OF ok decided_below_None, of "vk_key k" "vw_version v"]
        by (simp add: newest_slot_correct [OF less.prems(1)])
      have out: "(case newest_slot B v tree (vk_key k) of Some (Some val) \<Rightarrow> out @ [(vk_key k, val)] | _ \<Rightarrow> out)
          = out @ (case map_of ?L (vk_key k) of None \<Rightarrow> [] | Some val \<Rightarrow> [(vk_key k, val)])"
        using slot by (auto simp: option_flatten_def split: option.splits)
      have "page_rev_loop B v tree limit (first_of lo) (Excluded (first_of hi)) out =
          page_rev_loop B v tree limit (first_of lo) (Excluded (first_of (vk_key k)))
            (out @ (case map_of ?L (vk_key k) of None \<Rightarrow> [] | Some val \<Rightarrow> [(vk_key k, val)]))"
        using True by (subst page_rev_loop.simps) (simp add: range snoc e out)
      also have "\<dots> = Some (take limit ((out @ (case map_of ?L (vk_key k) of None \<Rightarrow> [] | Some val \<Rightarrow> [(vk_key k, val)]))
          @ rev (om_range lo (vk_key k) ?L)))"
        using True by (intro IH) (auto split: option.splits)
      finally show ?thesis
        by (simp add: om_range_split [OF live_ok [OF ok] k top] split: option.splits)
    qed
  qed
qed

lemma page_rev_correct:
  assumes "brep (sh_trees sh cf) xs"
  shows "page_rev B sh v cf start fin limit = Some (take limit (rev (om_range start fin (live (vw_version v) xs))))"
proof (cases "limit = 0 \<or> fin \<le> start")
  case True
  have "om_range start fin zs = []" if "fin \<le> start" for zs :: "scan_entry list"
    using that by (auto simp: om_range_def filter_empty_conv)
  with True show ?thesis by (auto simp: page_rev_def)
next
  case False
  then show ?thesis
    using page_rev_loop_correct [OF assms, of start fin "[]" limit v] by (auto simp: page_rev_def)
qed

lemma view_scan_correct:
  "brep (sh_trees sh cf) xs \<Longrightarrow>
     view_scan B sh v cf start fin limit = Some (Inr (take limit (om_range start fin (live (vw_version v) xs))))"
  by (simp add: view_scan_def page_correct)

lemma view_seek_le_correct:
  assumes "brep (sh_trees sh cf) xs"
  shows "view_seek_le B sh v cf target = Some (Inr
    (case filter (\<lambda>e. fst e \<le> target) (live (vw_version v) xs) of [] \<Rightarrow> None | e # es \<Rightarrow> Some (last (e # es))))"
proof -
  have "om_range [] (target @ [0]) m = filter (\<lambda>e. fst e \<le> target) m" for m :: "scan_entry list"
    unfolding om_range_def by (intro filter_cong) (simp_all add: not_le [symmetric] snoc_zero_next [symmetric])
  then show ?thesis
    by (simp add: view_seek_le_def page_rev_correct [OF assms] take_Suc hd_rev split: list.split)
qed

end

text \<open>What an iterator has still to hand out.\<close>

definition pages_rest :: "ventry list \<Rightarrow> pages \<Rightarrow> scan_entry list" where
  "pages_rest xs p =
     (let m = live (vw_version (pp_view p)) xs in
      pp_buffer p @
      (if pp_done p then []
       else if pp_forward p
       then filter (\<lambda>e. pp_start p \<le> fst e \<and> (case pp_end p of None \<Rightarrow> True | Some fin \<Rightarrow> fst e < fin)) m
       else rev (om_range (pp_start p) (case pp_end p of None \<Rightarrow> [] | Some e \<Rightarrow> e) m)))"

text \<open>A full page and what comes after its last key.\<close>

lemma om_take_rest:
  assumes "om_ok m" "take n m \<noteq> []"
  shows "m = take n m @ filter (\<lambda>e. fst (last (take n m)) < fst e) m"
  using om_after_prefix [of "take n m" "drop n m"] assms by simp

lemma om_take_rev_rest:
  assumes "om_ok m" "take n (rev m) \<noteq> []"
  shows "rev m = take n (rev m) @ rev (filter (\<lambda>e. fst e < fst (last (take n (rev m)))) m)"
proof -
  let ?a = "rev (take n (rev m))" and ?b = "rev (drop n (rev m))"
  have m: "m = ?b @ ?a" by (metis append_take_drop_id rev_append rev_rev_ident)
  have "last (take n (rev m)) = hd ?a" using assms(2) by (simp add: hd_rev)
  moreover have "filter (\<lambda>e. fst e < fst (hd ?a)) (?b @ ?a) = ?b"
    using assms m by (intro om_before_suffix) (metis, simp)
  ultimately have "rev (filter (\<lambda>e. fst e < fst (last (take n (rev m)))) m) = drop n (rev m)"
    using m by (metis rev_rev_ident)
  then show ?thesis by simp
qed

text \<open>The page a refill fetches.\<close>

definition pages_page :: "ventry list \<Rightarrow> pages \<Rightarrow> scan_entry list" where
  "pages_page xs p =
     (let m = live (vw_version (pp_view p)) xs in
      take PAGE (if pp_forward p
       then filter (\<lambda>e. pp_start p \<le> fst e \<and> (case pp_end p of None \<Rightarrow> True | Some fin \<Rightarrow> fst e < fin)) m
       else rev (om_range (pp_start p) (case pp_end p of None \<Rightarrow> [] | Some e \<Rightarrow> e) m)))"

context bbtree_laws
begin

lemma pages_refill_page:
  assumes "brep (sh_trees sh (pp_cf p)) xs"
  shows "(if pp_forward p then page B sh (pp_view p) (pp_cf p) (pp_start p) (pp_end p) PAGE
        else page_rev B sh (pp_view p) (pp_cf p) (pp_start p)
               (case pp_end p of None \<Rightarrow> [] | Some e \<Rightarrow> e) PAGE) = Some (pages_page xs p)"
  using page_correct [OF assms] page_all_correct [OF assms] page_rev_correct [OF assms]
  by (cases "pp_end p") (simp_all add: pages_page_def Let_def om_range_def)

end

definition refilled :: "pages \<Rightarrow> scan_entry list \<Rightarrow> pages" where
  "refilled p pg =
     (let p1 = (if length pg < PAGE then p\<lparr>pp_done := True\<rparr> else p);
          p2 = (if pg = [] then p1
                else if pp_forward p1 then p1\<lparr>pp_start := fst (last pg) @ [0]\<rparr>
                else p1\<lparr>pp_end := Some (fst (last pg))\<rparr>)
      in p2\<lparr>pp_buffer := pp_buffer p2 @ pg\<rparr>)"

lemma refilled_rest:
  assumes ok: "om_ok xs" and p: "pp_buffer p = []" "\<not> pp_done p"
  shows "pages_rest xs (refilled p (pages_page xs p)) = pages_rest xs p"
proof -
  define m where "m = live (vw_version (pp_view p)) xs"
  have m: "om_ok m" using ok by (simp add: m_def)
  have sub: "last (take PAGE zs) \<in> set zs" if "take PAGE zs \<noteq> []" for zs :: "scan_entry list"
    using that by (meson in_set_takeD last_in_set)
  show ?thesis
  proof (cases "pp_forward p")
    case True
    define R where "R = filter (\<lambda>e. pp_start p \<le> fst e \<and> (case pp_end p of None \<Rightarrow> True | Some fin \<Rightarrow> fst e < fin)) m"
    have pg: "pages_page xs p = take PAGE R" "pages_rest xs p = R"
      using True p by (simp_all add: pages_page_def pages_rest_def R_def m_def Let_def)
    have "R = take PAGE R @ filter (\<lambda>e. fst (last (take PAGE R)) @ [0] \<le> fst e \<and>
        (case pp_end p of None \<Rightarrow> True | Some fin \<Rightarrow> fst e < fin)) m" if ne: "take PAGE R \<noteq> []"
    proof -
      have "om_ok R" using m by (simp add: R_def)
      note om_take_rest [OF this ne]
      also have "filter (\<lambda>e. fst (last (take PAGE R)) < fst e) R = filter (\<lambda>e. fst (last (take PAGE R)) @ [0] \<le> fst e \<and>
          (case pp_end p of None \<Rightarrow> True | Some fin \<Rightarrow> fst e < fin)) m"
        using sub [OF ne] unfolding R_def filter_filter
        by (intro filter_cong) (auto simp: snoc_zero_next [symmetric])
      finally show ?thesis .
    qed
    with True p pg show ?thesis
      by (simp add: refilled_def pages_rest_def Let_def m_def [symmetric] PAGE_def)
  next
    case False
    define fin where "fin = (case pp_end p of None \<Rightarrow> [] | Some e \<Rightarrow> e)"
    define R where "R = om_range (pp_start p) fin m"
    have pg: "pages_page xs p = take PAGE (rev R)" "pages_rest xs p = rev R"
      using False p by (simp_all add: pages_page_def pages_rest_def R_def m_def Let_def fin_def)
    have "rev R = take PAGE (rev R) @ rev (om_range (pp_start p) (fst (last (take PAGE (rev R)))) m)"
      if ne: "take PAGE (rev R) \<noteq> []"
    proof -
      have "om_ok R" using m by (simp add: R_def)
      note om_take_rev_rest [OF this ne]
      also have "filter (\<lambda>e. fst e < fst (last (take PAGE (rev R)))) R = om_range (pp_start p) (fst (last (take PAGE (rev R)))) m"
        using sub [OF ne] unfolding R_def om_range_def filter_filter
        by (intro filter_cong) auto
      finally show ?thesis .
    qed
    with False p pg show ?thesis
      by (simp add: refilled_def pages_rest_def Let_def m_def [symmetric] PAGE_def)
  qed
qed

context bbtree_laws
begin

lemma pages_next_correct:
  assumes "brep (sh_trees sh (pp_cf p)) xs"
  shows "\<exists>p'. pp_cf p' = pp_cf p \<and> pages_next B sh p =
    (case pages_rest xs p of [] \<Rightarrow> Some (p', None) | e # es \<Rightarrow> Some (p', Some (Inr e)))
    \<and> pages_rest xs p' = tl (pages_rest xs p)"
proof -
  have ok: "om_ok xs" by (rule bb_sorted [OF assms])
  obtain q where q: "(if pp_buffer p = [] \<and> \<not> pp_done p then pages_refill B sh p else Some p) = Some q"
    and rest: "pages_rest xs q = pages_rest xs p" and cf: "pp_cf q = pp_cf p"
    and empty: "pp_buffer q = [] \<Longrightarrow> pp_done q"
  proof (cases "pp_buffer p = [] \<and> \<not> pp_done p")
    case True
    have "pages_refill B sh p = Some (refilled p (pages_page xs p))"
      by (simp only: pages_refill_def pages_refill_page [OF assms] refilled_def Let_def bind.simps)
    moreover have "pp_cf (refilled p (pages_page xs p)) = pp_cf p"
      "pp_buffer (refilled p (pages_page xs p)) = [] \<Longrightarrow> pp_done (refilled p (pages_page xs p))"
      by (auto simp: refilled_def Let_def PAGE_def)
    ultimately show ?thesis using that refilled_rest [OF ok] True by simp
  qed (use that in auto)
  have nxt: "pages_next B sh p = Some (case pp_buffer q of [] \<Rightarrow> (q, None) | e # es \<Rightarrow> (q\<lparr>pp_buffer := es\<rparr>, Some (Inr e)))"
    by (simp add: pages_next_def q del: if_split)
  show ?thesis
  proof (cases "pp_buffer q")
    case Nil
    with empty rest have "pages_rest xs p = []" by (simp add: pages_rest_def Let_def)
    with Nil nxt cf rest show ?thesis by (intro exI [of _ q]) simp
  next
    case (Cons e es)
    then have "pages_rest xs q = e # pages_rest xs (q\<lparr>pp_buffer := es\<rparr>)" by (simp add: pages_rest_def Let_def)
    then have "pages_rest xs p = e # pages_rest xs (q\<lparr>pp_buffer := es\<rparr>)" by (simp only: rest)
    with Cons nxt cf show ?thesis by (intro exI [of _ "q\<lparr>pp_buffer := es\<rparr>"]) simp
  qed
qed

text \<open>Draining an iterator ends, with exactly what it had to hand out.\<close>

lemma pages_drain_correct:
  assumes "brep (sh_trees sh (pp_cf p)) xs"
  shows "pages_drain B sh p = Some (map Inr (pages_rest xs p))"
  using assms
proof (induction "pages_rest xs p" arbitrary: p)
  case Nil
  from pages_next_correct [OF Nil.prems] Nil.hyps [symmetric] show ?case
    by (subst pages_drain.simps) auto
next
  case (Cons e es)
  from pages_next_correct [OF Cons.prems] Cons.hyps(2) [symmetric] obtain p' where
    p': "pp_cf p' = pp_cf p" "pages_next B sh p = Some (p', Some (Inr e))" "pages_rest xs p' = es" by auto
  have "pages_drain B sh p' = Some (map Inr es)"
    using Cons.hyps(1) [of p'] Cons.prems p' by simp
  with p' Cons.hyps(2) [symmetric] show ?case by (subst pages_drain.simps) simp
qed

lemma view_iters_correct:
  assumes "brep (sh_trees sh cf) xs"
  shows "pages_drain B sh (view_iter v cf start fin) = Some (map Inr (om_range start fin (live (vw_version v) xs)))"
    and "pages_drain B sh (view_iter_rev v cf start fin) = Some (map Inr (rev (om_range start fin (live (vw_version v) xs))))"
    and "pages_drain B sh (view_iter_all v cf) = Some (map Inr (live (vw_version v) xs))"
  using assms pages_drain_correct [of sh "view_iter v cf start fin" xs]
    pages_drain_correct [of sh "view_iter_rev v cf start fin" xs]
    pages_drain_correct [of sh "view_iter_all v cf" xs]
  by (simp_all add: view_iter_def view_iter_rev_def view_iter_all_def pages_rest_def Let_def om_range_def)

end

end
