(* ===== verification/VersionedEngine.thy ===== *)
theory VersionedEngine
  imports VersionedReads MemEngine
begin

text \<open>
  Writes of a \<open>VersionedMemEngine\<close> and the contract: a batch changes the contents at its own version
  only, so the engine implements the contract of \<open>EngineContract\<close> and agrees with \<open>MemEngine\<close>, and
  an open view keeps the contents of its version. A failed batch is invisible to every reader until
  the next batch succeeds.
\<close>

section \<open>An insertion at the newest version\<close>

lemma slot_at_Nil [simp]: "slot_at version [] key = None"
  by (simp add: slot_at_def)

lemma slot_at_Cons:
  "slot_at version ((k, sl) # es) key =
     (if vk_key k = key \<and> vk_version k \<le> version then Some sl else slot_at version es key)"
  by (simp add: slot_at_def)

lemma slot_at_insert_newer:
  assumes "version < w"
  shows "slot_at version (om_insert (vk_new key w) sl es) k = slot_at version es k"
  using assms by (induction "vk_new key w" sl es rule: om_insert.induct) (auto simp: slot_at_Cons)

lemma slot_at_insert_newest:
  assumes "om_ok es" "\<forall>e\<in>set es. vk_version (fst e) \<le> w" "w \<le> version"
  shows "slot_at version (om_insert (vk_new key w) sl es) k = (if k = key then Some sl else slot_at version es k)"
  using assms
proof (induction "vk_new key w" sl es rule: om_insert.induct)
  case (2 sl k' sl' es)
  then show ?case by (auto simp: slot_at_Cons om_ok_Cons vk_less_iff vk_eq_iff not_less)
qed (simp add: slot_at_Cons)

lemma live_insert_newer:
  assumes "om_ok es" "version < w"
  shows "live version (om_insert (vk_new key w) sl es) = live version es"
  using assms by (intro om_ext) (auto simp: live_get slot_at_insert_newer fun_eq_iff)

lemma live_insert_newest:
  assumes "om_ok es" "\<forall>e\<in>set es. vk_version (fst e) \<le> w"
  shows "live w (om_insert (vk_new key w) sl es) =
    (case sl of None \<Rightarrow> om_remove key (live w es) | Some val \<Rightarrow> om_insert key val (live w es))"
  using assms slot_at_insert_newest [OF assms order_refl]
  by (intro om_ext) (auto simp: live_get fun_eq_iff option_flatten_def split: option.splits)

lemma live_from_same_visible:
  "\<forall>e\<in>set es. (v1 < vk_version (fst e)) = (v2 < vk_version (fst e)) \<Longrightarrow> live_from v1 c es = live_from v2 c es"
  by (induction v1 c es rule: live_from.induct) auto

section \<open>The contents of the engine\<close>

type_synonym contents = "column_family \<Rightarrow> ventry list"

definition holds :: "('t \<Rightarrow> (versioned_key, slot) omap \<Rightarrow> bool) \<Rightarrow> 't shared \<Rightarrow> contents \<Rightarrow> bool" where
  "holds brep sh X \<longleftrightarrow> (\<forall>cf. brep (sh_trees sh cf) (X cf))"

definition versions_upto :: "u64 \<Rightarrow> contents \<Rightarrow> bool" where
  "versions_upto w X \<longleftrightarrow> (\<forall>cf. \<forall>e\<in>set (X cf). vk_version (fst e) \<le> w)"

definition registry_ok :: "(u64, u32) omap list \<Rightarrow> bool" where
  "registry_ok reg \<longleftrightarrow> length reg = REGISTRY_SHARDS \<and> (\<forall>m\<in>set reg. om_ok m \<and> (\<forall>e\<in>set m. snd e \<noteq> 0))"

definition quiescent :: "'t shared \<Rightarrow> bool" where
  "quiescent sh \<longleftrightarrow> pb_version (sh_published sh) = sh_visible sh \<and> sh_writer sh = sh_visible sh
     \<and> registry_ok (sh_registry sh)"

definition vm_rep :: "('t \<Rightarrow> (versioned_key, slot) omap \<Rightarrow> bool) \<Rightarrow> nat \<Rightarrow> 't shared \<Rightarrow> kv_state \<Rightarrow> bool" where
  "vm_rep brep n sh a \<longleftrightarrow> quiescent sh \<and> unat (sh_visible sh) \<le> n
     \<and> (\<forall>cf. length (kv_data a cf) \<le> n) \<and> pb_applied (sh_published sh) = kv_applied a
     \<and> (\<exists>X. holds brep sh X \<and> versions_upto (sh_visible sh) X \<and> (\<forall>cf. kv_data a cf = live (sh_visible sh) (X cf)))"

text \<open>The effect of a batch at one version on the contents.\<close>

definition stamp :: "u64 \<Rightarrow> mutation \<Rightarrow> contents \<Rightarrow> contents" where
  "stamp w m X = X(mutation_cf m := om_insert (vk_new (mutation_key m) w) (mutation_slot m) (X (mutation_cf m)))"

definition contents_ok :: "contents \<Rightarrow> bool" where
  "contents_ok X \<longleftrightarrow> (\<forall>cf. om_ok (X cf))"

lemma stamp_ok: "contents_ok X \<Longrightarrow> contents_ok (stamp w m X)"
  by (simp add: contents_ok_def stamp_def)

lemma stamp_versions: "versions_upto w X \<Longrightarrow> versions_upto w (stamp w m X)"
  using om_set_insert_subset [of "vk_new (mutation_key m) w" "mutation_slot m" "X (mutation_cf m)"]
  by (fastforce simp: versions_upto_def stamp_def)

lemma stamp_live_newest:
  "contents_ok X \<Longrightarrow> versions_upto w X \<Longrightarrow> (\<lambda>cf. live w (stamp w m X cf)) = kv_mutate m (\<lambda>cf. live w (X cf))"
  by (cases m) (auto simp: stamp_def contents_ok_def versions_upto_def live_insert_newest fun_eq_iff)

lemma stamp_live_older: "contents_ok X \<Longrightarrow> version < w \<Longrightarrow> live version (stamp w m X cf) = live version (X cf)"
  by (simp add: stamp_def contents_ok_def live_insert_newer)

lemma stamps_ok: "contents_ok X \<Longrightarrow> contents_ok (fold (stamp w) b X)"
  by (induction b arbitrary: X) (simp_all add: stamp_ok)

lemma stamps_versions: "versions_upto w X \<Longrightarrow> versions_upto w (fold (stamp w) b X)"
  by (induction b arbitrary: X) (simp_all add: stamp_versions)

lemma stamps_live_newest:
  "contents_ok X \<Longrightarrow> versions_upto w X \<Longrightarrow>
     (\<lambda>cf. live w (fold (stamp w) b X cf)) = fold kv_mutate b (\<lambda>cf. live w (X cf))"
  by (induction b arbitrary: X) (simp_all add: stamp_ok stamp_versions stamp_live_newest)

lemma stamps_live_older:
  "contents_ok X \<Longrightarrow> version < w \<Longrightarrow> live version (fold (stamp w) b X cf) = live version (X cf)"
  by (induction b arbitrary: X) (simp_all add: stamp_ok stamp_live_older)

lemma versions_upto_later: "versions_upto w X \<Longrightarrow> w \<le> w' \<Longrightarrow> versions_upto w' X"
  by (auto simp: versions_upto_def intro: order_trans)

lemma live_later: "versions_upto w X \<Longrightarrow> w \<le> w' \<Longrightarrow> live w' (X cf) = live w (X cf)"
  by (rule live_from_same_visible) (force simp: versions_upto_def)

lemma next_version:
  assumes "unat (w :: u64) \<le> n" "Suc n < 2 ^ 64"
  shows "w < w + 1" "unat (w + 1) = Suc (unat w)"
proof -
  show u: "unat (w + 1) = Suc (unat w)" using assms by (subst unat_add_exact) auto
  then show "w < w + 1" by (simp add: word_less_nat_alt)
qed

lemma length_om_insert_le: "length (om_insert k v m) \<le> Suc (length m)"
  by (induction k v m rule: om_insert.induct) auto

lemma kv_mutate_length: "length (kv_mutate m d cf) \<le> Suc (length (d cf))"
  by (cases m) (auto simp: om_remove_def length_om_insert_le intro: le_SucI)

lemma kv_mutates_length: "length (fold kv_mutate b d cf) \<le> length (d cf) + length b"
proof (induction b arbitrary: d)
  case (Cons m b)
  from Cons.IH [of "kv_mutate m d"] kv_mutate_length [of m d cf] show ?case by simp
qed simp

section \<open>The batch loop\<close>

context bbtree_laws
begin

lemma holds_contents_ok: "holds brep sh X \<Longrightarrow> contents_ok X"
  by (auto simp: holds_def contents_ok_def intro: bb_sorted)

text \<open>The loop stamps a prefix of the batch; the whole batch when it succeeds. It changes only the trees.\<close>

lemma apply_mutations_stamps:
  assumes "holds brep sh X" "apply_mutations B version b changes sh = (sh', r)"
  shows "\<exists>j. holds brep sh' (fold (stamp version) (take j b) X) \<and> sh' = sh\<lparr>sh_trees := sh_trees sh'\<rparr>
    \<and> (case r of Inr changes' \<Rightarrow> length b \<le> j \<and>
           changes' = (changes \<or> (\<exists>m\<in>set b. changes_data_revision (mutation_cf m) (mutation_key m)))
       | Inl e \<Rightarrow> e = OUT_OF_MEMORY)"
  using assms
proof (induction b arbitrary: sh X changes)
  case (Cons m ms)
  let ?cf = "mutation_cf m" and ?k = "vk_new (mutation_key m) version"
  show ?case
  proof (cases "bb_insert B (sh_trees sh ?cf) ?k (mutation_slot m)")
    case None
    with Cons.prems show ?thesis by (intro exI [of _ 0]) (auto simp: Let_def)
  next
    case (Some t)
    let ?sh = "sh\<lparr>sh_trees := (sh_trees sh)(?cf := t)\<rparr>"
    have "holds brep ?sh (stamp version m X)"
      using Cons.prems(1) bb_insert [OF _ Some] by (auto simp: holds_def stamp_def)
    from Cons.IH [OF this] Cons.prems(2) Some obtain j where
      "holds brep sh' (fold (stamp version) (take j ms) (stamp version m X)) \<and> sh' = ?sh\<lparr>sh_trees := sh_trees sh'\<rparr>
       \<and> (case r of Inr changes' \<Rightarrow> length ms \<le> j \<and>
              changes' = ((changes \<or> changes_data_revision ?cf (mutation_key m)) \<or>
              (\<exists>m\<in>set ms. changes_data_revision (mutation_cf m) (mutation_key m)))
          | Inl e \<Rightarrow> e = OUT_OF_MEMORY)" by (auto simp: Let_def)
    then show ?thesis by (intro exI [of _ "Suc j"]) (auto split: sum.splits)
  qed
qed auto

lemma apply_advances:
  assumes rep: "vm_rep brep n sh a" and n: "Suc n < 2 ^ 64" "Suc n \<le> n'"
    and len: "\<forall>cf. length (fold kv_mutate b (kv_data a) cf) \<le> n'"
    and ok: "vm_apply B sh b at = (sh', Inr ())"
  shows "vm_rep brep n' sh' (case at of None \<Rightarrow> kv_write b a | Some p \<Rightarrow> kv_apply b p a)"
proof -
  let ?w = "sh_visible sh"
  from rep obtain X where X: "holds brep sh X" "versions_upto ?w X" "\<forall>cf. kv_data a cf = live ?w (X cf)"
    and q: "quiescent sh" "unat ?w \<le> n" and app: "pb_applied (sh_published sh) = kv_applied a"
    by (auto simp: vm_rep_def)
  note w = next_version [OF q(2) n(1)]
  have writer: "sh_writer sh + 1 = ?w + 1" using q by (simp add: quiescent_def)
  from ok obtain sh1 changes where
    loop: "apply_mutations B (?w + 1) b False sh = (sh1, Inr changes)" and sh': "sh' = publish (?w + 1) at changes sh1"
    using writer by (auto simp: vm_apply_def Let_def split: if_splits prod.splits sum.splits)
  from apply_mutations_stamps [OF X(1) loop] have
    h: "holds brep sh1 (fold (stamp (?w + 1)) b X)" and trees: "sh1 = sh\<lparr>sh_trees := sh_trees sh1\<rparr>" by auto
  have same: "sh_published sh1 = sh_published sh" "sh_registry sh1 = sh_registry sh"
    using trees by (metis shared.select_convs shared.simps shared.surjective)+
  have up: "versions_upto (?w + 1) X" using versions_upto_later [OF X(2)] w(1) by simp
  have a: "kv_data a = (\<lambda>cf. live ?w (X cf))" using X(3) by auto
  have data: "(\<lambda>cf. live (?w + 1) (fold (stamp (?w + 1)) b X cf)) = fold kv_mutate b (kv_data a)"
    using stamps_live_newest [OF holds_contents_ok [OF X(1)] up, of b] live_later [OF X(2), of "?w + 1"] w(1)
    by (simp add: a)
  have "holds brep sh' (fold (stamp (?w + 1)) b X)" using h by (simp add: sh' holds_def publish_def Let_def)
  moreover have "quiescent sh'" using q(1) same by (simp add: quiescent_def sh' publish_def Let_def)
  moreover have "sh_visible sh' = ?w + 1" by (simp add: sh' publish_def Let_def)
  moreover have "pb_applied (sh_published sh') = (case at of None \<Rightarrow> kv_applied a | Some p \<Rightarrow> Some p)"
    using same app by (simp add: sh' publish_def Let_def split: option.splits)
  ultimately show ?thesis
    using stamps_versions [OF up, of b] data w(2) q(2) n(2) len
    by (auto simp: vm_rep_def kv_write_def kv_apply_def fun_eq_iff split: option.splits)
qed

lemma apply_refused:
  assumes "vm_rep brep n sh a" "\<not> kv_advances p a"
  shows "vm_apply B sh b (Some p) = (sh, Inl POSITION_REFUSED)"
  using assms by (auto simp: vm_rep_def vm_apply_def kv_advances_def split: option.splits)

lemma apply_not_refused:
  assumes "vm_rep brep n sh a" "case at of None \<Rightarrow> True | Some p \<Rightarrow> kv_advances p a"
  shows "vm_apply B sh b at \<noteq> (sh', Inl POSITION_REFUSED)"
proof
  assume ap: "vm_apply B sh b at = (sh', Inl POSITION_REFUSED)"
  from assms(1) obtain X where X: "holds brep sh X" and app: "pb_applied (sh_published sh) = kv_applied a"
    by (auto simp: vm_rep_def)
  with assms(2) ap obtain sh1 where "apply_mutations B (sh_writer sh + 1) b False sh = (sh1, Inl POSITION_REFUSED)"
    by (auto simp: vm_apply_def Let_def kv_advances_def split: if_splits option.splits prod.splits sum.splits)
  from apply_mutations_stamps [OF X this] show False by (simp add: OUT_OF_MEMORY_def POSITION_REFUSED_def)
qed

end

section \<open>Taking and dropping a view\<close>

lemma register_fields [simp]:
  "sh_trees (register sh shard v) = sh_trees sh" "sh_visible (register sh shard v) = sh_visible sh"
  "sh_published (register sh shard v) = sh_published sh" "sh_writer (register sh shard v) = sh_writer sh"
  by (simp_all add: register_def Let_def)

lemma om_insert_remove_absent: "om_ok m \<Longrightarrow> map_of m k = None \<Longrightarrow> om_remove k (om_insert k v m) = m"
  by (rule om_ext) auto

lemma om_insert_insert: "om_ok m \<Longrightarrow> om_insert k v (om_insert k v' m) = om_insert k v m"
  by (rule om_ext) auto

lemma om_insert_same: "om_ok m \<Longrightarrow> map_of m k = Some v \<Longrightarrow> om_insert k v m = m"
  by (rule om_ext) auto

lemma unregister_register:
  assumes "registry_ok (sh_registry sh)" "shard < REGISTRY_SHARDS"
  shows "unregister (register sh shard v) shard v = sh"
proof -
  let ?m = "sh_registry sh ! shard"
  have m: "om_ok ?m" "\<forall>e\<in>set ?m. snd e \<noteq> 0" "shard < length (sh_registry sh)"
    using assms nth_mem [of shard "sh_registry sh"] by (auto simp: registry_ok_def)
  have pos: "c \<noteq> 0" if "map_of ?m v = Some c" for c using m(2) map_of_SomeD [OF that] by auto
  show ?thesis
  proof (cases "map_of ?m v")
    case None
    then show ?thesis using m
      by (simp add: register_def unregister_def Let_def om_insert_remove_absent)
  next
    case (Some c)
    then show ?thesis using m pos [OF Some]
      by (simp add: register_def unregister_def Let_def om_insert_insert om_insert_same)
  qed
qed

lemma view_current_drop:
  assumes "registry_ok (sh_registry sh)" "shard < REGISTRY_SHARDS" "view_current sh shard = (sh1, v)"
  shows "view_drop sh1 v = sh" "sh_trees sh1 = sh_trees sh" "vw_version v = sh_visible sh"
  using assms unregister_register [OF assms(1,2)] by (auto simp: view_current_def view_drop_def Let_def)

lemma view_new_drop:
  assumes "registry_ok (sh_registry sh)" "shard < REGISTRY_SHARDS" "view_new sh shard w = (sh1, v)"
  shows "view_drop sh1 v = sh" "sh_trees sh1 = sh_trees sh" "vw_version v = w"
  using assms unregister_register [OF assms(1,2)] by (auto simp: view_new_def view_drop_def)

section \<open>The engine implements the contract\<close>

text \<open>The operations in the shape of the contract; a read leaves the state as it was.\<close>

definition vm_seek_le :: "'t bbtree_ops \<Rightarrow> nat \<Rightarrow> 't shared \<Rightarrow> column_family \<Rightarrow> bytes \<Rightarrow> scan_entry option result option"
where
  "vm_seek_le B shard sh cf target = (let (sh1, v) = view_current sh shard in view_seek_le B sh1 v cf target)"

definition vm_step :: "'t bbtree_ops \<Rightarrow> nat \<Rightarrow> 't shared \<Rightarrow> engine_op \<Rightarrow> ('t shared \<times> unit result) option" where
  "vm_step B shard = engine_step (vm_write B) (vm_write_applied B) (vm_delete_range B shard)"

lemma fnv_results_Inr: "fnv_results (map Inr es) h = Inr (fold (\<lambda>(k, v). fold fnv_byte (k @ v)) es h)"
  by (induction es arbitrary: h) auto

lemma deletes_batch: "fold (\<lambda>(key, val) b. batch_delete b cf key) es b = b @ map (\<lambda>e. Delete cf (fst e)) es"
  by (induction es arbitrary: b) (auto simp: batch_delete_def)

lemma kv_deletes: "fold kv_mutate (map (\<lambda>e. Delete cf (fst e)) es) d = d(cf := fold om_remove (map fst es) (d cf))"
  by (induction es arbitrary: d) auto

lemma kv_write_deletes:
  "kv_write (map (\<lambda>e. Delete cf (fst e)) (om_range start fin (kv_data a cf))) a = kv_delete_range cf start fin a"
  by (simp add: kv_write_def kv_delete_range_def kv_deletes om_removes_range)

lemma vm_rep_mono: "vm_rep brep n sh a \<Longrightarrow> n \<le> n' \<Longrightarrow> vm_rep brep n' sh a"
  by (auto simp: vm_rep_def intro: order_trans)

locale versioned_engine = bbtree_laws +
  fixes shard :: nat
  assumes shard: "shard < REGISTRY_SHARDS"
begin

lemma current_view:
  assumes "vm_rep brep n sh a" "view_current sh shard = (sh1, v)"
  shows "view_drop sh1 v = sh" "\<exists>xs. brep (sh_trees sh1 cf) xs \<and> live (vw_version v) xs = kv_data a cf"
proof -
  from assms(1) obtain X where X: "holds brep sh X" "\<forall>cf. kv_data a cf = live (sh_visible sh) (X cf)"
    and reg: "registry_ok (sh_registry sh)" by (auto simp: vm_rep_def quiescent_def)
  note v = view_current_drop [OF reg shard assms(2)]
  show "view_drop sh1 v = sh" by (rule v(1))
  show "\<exists>xs. brep (sh_trees sh1 cf) xs \<and> live (vw_version v) xs = kv_data a cf"
    using X v by (auto simp: holds_def)
qed

lemma reads_rep:
  assumes "vm_rep brep n sh a"
  shows "vm_get B shard sh cf key = (sh, Inr (kv_get a cf key))"
    and "vm_scan B shard sh cf start fin limit = Some (sh, Inr (kv_scan a cf start fin limit))"
    and "vm_seek_le B shard sh cf key = Some (Inr (kv_seek_le a cf key))"
    and "vm_checksum B shard sh cf start fin = Some (sh, Inr (fnv_entries (om_range start fin (kv_data a cf))))"
proof -
  obtain sh1 v where view: "view_current sh shard = (sh1, v)" by fastforce
  note drop = current_view(1) [OF assms view]
  obtain xs where xs: "brep (sh_trees sh1 cf) xs" and live: "live (vw_version v) xs = kv_data a cf"
    using current_view(2) [OF assms view] by blast
  show "vm_get B shard sh cf key = (sh, Inr (kv_get a cf key))"
    by (simp add: vm_get_def view drop view_get_correct [OF xs] live kv_get_def)
  show "vm_scan B shard sh cf start fin limit = Some (sh, Inr (kv_scan a cf start fin limit))"
    by (simp add: vm_scan_def view drop view_scan_correct [OF xs] live kv_scan_def)
  show "vm_seek_le B shard sh cf key = Some (Inr (kv_seek_le a cf key))"
    by (simp add: vm_seek_le_def view view_seek_le_correct [OF xs] live kv_seek_le_def)
  show "vm_checksum B shard sh cf start fin = Some (sh, Inr (fnv_entries (om_range start fin (kv_data a cf))))"
    by (simp add: vm_checksum_def view drop view_iters_correct [OF xs] live fnv_results_Inr fnv_entries_def)
qed

lemma delete_walk_eq:
  assumes rep: "vm_rep brep n sh a" and n: "Suc n < 2 ^ 64"
  shows "delete_range_walk B shard sh cf start fin =
    Some (sh, Inr (map (\<lambda>e. Delete cf (fst e)) (om_range start fin (kv_data a cf))))"
proof -
  from rep obtain X where X: "holds brep sh X" "\<forall>cf. kv_data a cf = live (sh_visible sh) (X cf)"
    and q: "registry_ok (sh_registry sh)" "sh_writer sh = sh_visible sh" and len: "length (kv_data a cf) \<le> n"
    by (auto simp: vm_rep_def quiescent_def)
  obtain sh1 v where view: "view_new sh shard (sh_writer sh) = (sh1, v)" by fastforce
  note v = view_new_drop [OF q(1) shard view]
  have xs: "brep (sh_trees sh1 cf) (X cf)" using X(1) v(2) by (simp add: holds_def)
  have "length (om_range start fin (kv_data a cf)) \<le> n"
    using len by (simp add: om_range_def order_trans [OF length_filter_le])
  then have "length (om_range start fin (kv_data a cf)) \<le> USIZE_MAX" using n by (simp add: USIZE_MAX_def)
  then have "view_scan B sh1 v cf start fin USIZE_MAX = Some (Inr (om_range start fin (kv_data a cf)))"
    using view_scan_correct [OF xs] X(2) v(3) q(2) by simp
  then show ?thesis by (simp add: delete_range_walk_def view v(1) deletes_batch)
qed

lemma delete_range_eq:
  assumes rep: "vm_rep brep n sh a" and n: "Suc n < 2 ^ 64"
  shows "vm_delete_range B shard sh cf start fin =
    (let b = map (\<lambda>e. Delete cf (fst e)) (om_range start fin (kv_data a cf))
     in if b = [] then Some (sh, Inr ()) else Some (vm_apply B sh b None))"
  by (simp add: vm_delete_range_def delete_walk_eq [OF assms] delete_range_commit_def Let_def)

lemma delete_range_returns:
  assumes X: "holds brep sh X" and reg: "registry_ok (sh_registry sh)"
  shows "\<exists>b. vm_delete_range B shard sh cf start fin = Some (sh, Inr ()) \<or>
    vm_delete_range B shard sh cf start fin = Some (vm_apply B sh b None)"
proof -
  obtain sh1 v where view: "view_new sh shard (sh_writer sh) = (sh1, v)" by fastforce
  note v = view_new_drop [OF reg shard view]
  have "brep (sh_trees sh1 cf) (X cf)" using X v(2) by (simp add: holds_def)
  from view_scan_correct [OF this] show ?thesis 
    by (auto simp: vm_delete_range_def delete_range_walk_def delete_range_commit_def view v(1))
qed

lemma delete_range_shape:
  assumes "vm_rep brep n sh a"
  shows "\<exists>b. vm_delete_range B shard sh cf start fin = Some (sh, Inr ()) \<or>
    vm_delete_range B shard sh cf start fin = Some (vm_apply B sh b None)"
proof -
  from assms obtain X where "holds brep sh X" "registry_ok (sh_registry sh)" by (auto simp: vm_rep_def quiescent_def)
  then show ?thesis by (rule delete_range_returns)
qed

lemma delete_range_rep:
  assumes rep: "vm_rep brep n sh a" and n: "Suc n < 2 ^ 64"
    and ok: "vm_delete_range B shard sh cf start fin = Some (sh', Inr ())"
  shows "vm_rep brep (Suc n) sh' (kv_delete_range cf start fin a)"
proof -
  let ?b = "map (\<lambda>e. Delete cf (fst e)) (om_range start fin (kv_data a cf))"
  have data: "fold kv_mutate ?b (kv_data a) = kv_data (kv_delete_range cf start fin a)"
    using arg_cong [OF kv_write_deletes [of cf start fin a], of kv_data] by (simp add: kv_write_def)
  have "length (kv_data (kv_delete_range cf start fin a) cf') \<le> Suc n" for cf'
  proof -
    have "length (kv_data (kv_delete_range cf start fin a) cf') \<le> length (kv_data a cf')"
      by (simp add: kv_delete_range_def)
    with rep show ?thesis by (meson le_SucI order_trans vm_rep_def)
  qed
  then have len: "\<forall>cf'. length (fold kv_mutate ?b (kv_data a) cf') \<le> Suc n" by (simp add: data)
  show ?thesis
  proof (cases "?b = []")
    case True
    then have "kv_delete_range cf start fin a = a" using kv_write_deletes [of cf start fin a] by (simp add: kv_write_def)
    with True ok rep delete_range_eq [OF rep n] show ?thesis by (auto simp: Let_def intro: vm_rep_mono)
  next
    case False
    then have "vm_apply B sh ?b None = (sh', Inr ())"
      using ok delete_range_eq [OF rep n, of cf start fin] by (simp add: Let_def)
    from apply_advances [OF rep n order_refl len this] show ?thesis by (simp add: kv_write_deletes)
  qed
qed

end

sublocale versioned_engine \<subseteq> vm: replicated_engine "vm_rep brep" "\<lambda>sh cf key. snd (vm_get B shard sh cf key)"
  "\<lambda>sh cf start fin limit. map_option snd (vm_scan B shard sh cf start fin limit)" "vm_seek_le B shard"
  "\<lambda>sh cf start fin. map_option snd (vm_checksum B shard sh cf start fin)"
  "vm_write B" "vm_write_applied B" "vm_delete_range B shard"
proof unfold_locales
  fix n sh a
  assume rep: "vm_rep brep n sh a"
  show "snd (vm_get B shard sh cf key) = Inr (kv_get a cf key)" for cf key by (simp add: reads_rep [OF rep])
  show "map_option snd (vm_scan B shard sh cf start fin limit) = Some (Inr (kv_scan a cf start fin limit))"
    for cf start fin limit by (simp add: reads_rep [OF rep])
  show "vm_seek_le B shard sh cf key = Some (Inr (kv_seek_le a cf key))" for cf key by (simp add: reads_rep [OF rep])
  show "map_option snd (vm_checksum B shard sh cf start fin) = Some (Inr (fnv_entries (om_range start fin (kv_data a cf))))"
    for cf start fin by (simp add: reads_rep [OF rep])
  show "vm_rep brep n' sh a" if "n \<le> n'" for n' using rep that by (rule vm_rep_mono)
  have len: "\<forall>cf. length (fold kv_mutate b (kv_data a) cf) \<le> n + Suc (length b)" for b
    using rep kv_mutates_length [of b "kv_data a"] by (auto simp: vm_rep_def intro: le_SucI order_trans [OF _ add_le_mono])
  fix b sh'
  show "vm_write B sh b \<noteq> (sh', Inl POSITION_REFUSED)"
    using apply_not_refused [OF rep, of None] by (simp add: vm_write_def)
  show "vm_rep brep (n + Suc (length b)) sh' (kv_write b a)"
    if "n + Suc (length b) < 2 ^ 64" "vm_write B sh b = (sh', Inr ())"
    using apply_advances [OF rep _ _ len, of b None sh'] that by (simp add: vm_write_def)
  fix at
  show "vm_write_applied B sh b at = (sh, Inl POSITION_REFUSED)" if "\<not> kv_advances at a"
    using apply_refused [OF rep that] by (simp add: vm_write_applied_def)
  show "vm_write_applied B sh b at \<noteq> (sh', Inl POSITION_REFUSED)" if "kv_advances at a"
    using apply_not_refused [OF rep, of "Some at"] that by (simp add: vm_write_applied_def)
  show "vm_rep brep (n + Suc (length b)) sh' (kv_apply b at a)"
    if "n + Suc (length b) < 2 ^ 64" "vm_write_applied B sh b at = (sh', Inr ())"
    using apply_advances [OF rep _ _ len, of b "Some at" sh'] that by (simp add: vm_write_applied_def)
next
  fix n sh a cf start fin sh'
  assume rep: "vm_rep brep n sh a"
  show "vm_delete_range B shard sh cf start fin \<noteq> None" using delete_range_shape [OF rep, of cf start fin] by auto
  show "vm_delete_range B shard sh cf start fin \<noteq> Some (sh', Inl POSITION_REFUSED)"
    using delete_range_shape [OF rep, of cf start fin] apply_not_refused [OF rep, of None] by auto
  show "vm_rep brep (Suc n) sh' (kv_delete_range cf start fin a)"
    if "Suc n < 2 ^ 64" "vm_delete_range B shard sh cf start fin = Some (sh', Inr ())"
    using rep that by (rule delete_range_rep)
qed

section \<open>An instance of the tree\<close>

text \<open>
  A sorted list with a schedule of allocation outcomes: an insertion consumes one, an exhausted
  schedule always succeeds.
\<close>

type_synonym sched_tree = "bool list \<times> (versioned_key, slot) omap"

definition sched_bbtree :: "bool list \<Rightarrow> sched_tree bbtree_ops" where
  "sched_bbtree outcomes = \<lparr>bb_new = (outcomes, []),
     bb_insert = \<lambda>(os, m) k sl. (case os of [] \<Rightarrow> Some ([], om_insert k sl m)
       | ok # os' \<Rightarrow> if ok then Some (os', om_insert k sl m) else None),
     bb_remove = \<lambda>(os, m) k. ((os, om_remove k m), map_of m k),
     bb_range = \<lambda>(os, m) lo hi. filter (\<lambda>e. above lo (fst e) \<and> below hi (fst e)) m\<rparr>"

definition sched_rep :: "sched_tree \<Rightarrow> (versioned_key, slot) omap \<Rightarrow> bool" where
  "sched_rep t xs \<longleftrightarrow> snd t = xs \<and> om_ok xs"

interpretation sched: bbtree_laws "sched_bbtree outcomes" sched_rep
  by unfold_locales (auto simp: sched_bbtree_def sched_rep_def split: list.splits if_splits)

interpretation sched_engine: versioned_engine "sched_bbtree outcomes" sched_rep 0
  by unfold_locales (simp add: REGISTRY_SHARDS_def)

text \<open>A sorted list that never runs out of memory.\<close>

definition om_bbtree :: "(versioned_key, slot) omap bbtree_ops" where
  "om_bbtree = \<lparr>bb_new = [], bb_insert = \<lambda>m k sl. Some (om_insert k sl m),
     bb_remove = \<lambda>m k. (om_remove k m, map_of m k),
     bb_range = \<lambda>m lo hi. filter (\<lambda>e. above lo (fst e) \<and> below hi (fst e)) m\<rparr>"

definition om_brep :: "(versioned_key, slot) omap \<Rightarrow> (versioned_key, slot) omap \<Rightarrow> bool" where
  "om_brep t xs \<longleftrightarrow> t = xs \<and> om_ok xs"

interpretation roomy: bbtree_laws om_bbtree om_brep
  by unfold_locales (auto simp: om_bbtree_def om_brep_def)

lemma apply_mutations_roomy:
  "(\<And>t k sl. bb_insert B t k sl \<noteq> None) \<Longrightarrow> \<exists>sh' c. apply_mutations B version b changes sh = (sh', Inr c)"
  by (induction b arbitrary: changes sh) (auto simp: Let_def split: option.splits)

lemma vm_apply_roomy:
  assumes "\<And>t k sl. bb_insert B t k sl \<noteq> None" "vm_apply B sh b at = (sh', r)"
  shows "settled r"
proof -
  obtain sh1 c where "apply_mutations B (sh_writer sh + 1) b False sh = (sh1, Inr c)"
    using apply_mutations_roomy [OF assms(1)] by blast
  with assms(2) show ?thesis by (auto simp: vm_apply_def settled_def Let_def split: if_splits)
qed

lemma delete_walk_keys: "delete_range_walk B shard sh cf start fin = Some (sh1, r) \<Longrightarrow> \<exists>b. r = Inr b"
  by (cases "view_new sh shard (sh_writer sh)") (auto simp: delete_range_walk_def view_scan_def option.map_comp o_def)

lemma vm_delete_range_roomy:
  assumes "\<And>t k sl. bb_insert B t k sl \<noteq> None" "vm_delete_range B shard sh cf start fin = Some (sh', r)"
  shows "settled r"
proof -
  from assms(2) obtain sh1 x where w: "delete_range_walk B shard sh cf start fin = Some (sh1, x)"
    and c: "(case x of Inl e \<Rightarrow> (sh1, Inl e) | Inr b \<Rightarrow> delete_range_commit B sh1 b) = (sh', r)"
    by (auto simp: vm_delete_range_def)
  from delete_walk_keys [OF w] c vm_apply_roomy [OF assms(1)] show ?thesis
    by (fastforce simp: delete_range_commit_def settled_def split: if_splits)
qed

lemma vm_step_roomy:
  assumes "\<And>t k sl. bb_insert B t k sl \<noteq> None" "vm_step B shard sh op = Some (sh', r)"
  shows "settled r"
  using assms(2) vm_apply_roomy [OF assms(1)] vm_delete_range_roomy [OF assms(1)]
  by (cases op) (auto simp: vm_step_def vm_write_def vm_write_applied_def settled_def Let_def
      split: if_splits option.splits sum.splits prod.splits)

lemma vm_run_roomy:
  assumes "\<And>t k sl. bb_insert B t k sl \<noteq> None" "run_ops (vm_step B shard) sh ops = Some (sh', rs)" "r \<in> set rs"
  shows "settled r"
  using assms(2,3)
  by (induction ops arbitrary: sh rs)
    (auto split: option.splits prod.splits if_splits dest: vm_step_roomy [OF assms(1)])

section \<open>Agreement with the persistent engine\<close>

context versioned_engine
begin

lemma vm_new_rep: "vm_rep brep n (vm_new B) kv_empty"
proof -
  have "holds brep (vm_new B) (\<lambda>_. [])" by (simp add: holds_def vm_new_def bb_new)
  then show ?thesis
    by (auto simp: vm_rep_def quiescent_def registry_ok_def vm_new_def kv_empty_def versions_upto_def
        intro!: exI [of _ "\<lambda>_. []"])
qed

lemmas vm_history = vm.run_refines [OF vm_new_rep [of 0], folded vm_step_def, unfolded add_0]

end

text \<open>
  C15. \<open>VersionedMemEngine\<close> keeps the \<open>MemEngine\<close> contract. Any sequence of writes, positioned writes and
  range deletions from the empty engine returns; and as long as no insertion runs out of memory, the
  two engines report the same outcome for every operation, record the same applied position, and
  every point read, bounded scan, reverse seek and checksum agrees.
\<close>

theorem engines_agree:
  assumes B: "bbtree_laws B brep" and R: "rpds_laws R trep" and shard: "shard < REGISTRY_SHARDS"
    and ops: "ops_weight ops < 2 ^ 64" "\<forall>op\<in>set ops. op_range_ok op"
  shows "\<exists>sh rs. run_ops (vm_step B shard) (vm_new B) ops = Some (sh, rs) \<and>
    ((\<forall>r\<in>set rs. settled r) \<longrightarrow>
      (\<exists>st. run_ops (mem_step R) (mem_new R) ops = Some (st, rs)
        \<and> vm_volatile_applied_position sh = volatile_applied_position st
        \<and> (\<forall>cf key. snd (vm_get B shard sh cf key) = mem_get R st cf key)
        \<and> (\<forall>cf key. vm_seek_le B shard sh cf key = Some (snap_seek_le R st cf key))
        \<and> (\<forall>cf start fin limit. start \<le> fin \<longrightarrow>
             map_option snd (vm_scan B shard sh cf start fin limit) = Some (mem_scan R st cf start fin limit)
           \<and> map_option snd (vm_checksum B shard sh cf start fin) = Some (mem_checksum R st cf start fin))))"
proof -
  have V: "versioned_engine B brep shard"
    using B shard by (intro versioned_engine.intro) (auto simp: versioned_engine_axioms_def)
  let ?a = "fst (kv_run kv_empty ops)"
  obtain sh rs where run: "run_ops (vm_step B shard) (vm_new B) ops = Some (sh, rs)"
    and settled: "\<forall>r\<in>set rs. settled r \<Longrightarrow> vm_rep brep (ops_weight ops) sh ?a \<and> rs = snd (kv_run kv_empty ops)"
    using versioned_engine.vm_history [OF V ops] by auto
  obtain st where st: "run_ops (mem_step R) (mem_new R) ops = Some (st, snd (kv_run kv_empty ops))"
    "mem_rep trep (ops_weight ops) st ?a"
    using rpds_laws.mem_history [OF R ops] by auto
  show ?thesis
  proof (intro exI [of _ sh] exI [of _ rs] conjI run impI exI [of _ st])
    assume "\<forall>r\<in>set rs. settled r"
    note rep = settled [OF this]
    show "run_ops (mem_step R) (mem_new R) ops = Some (st, rs)" using st(1) rep by simp
    show "vm_volatile_applied_position sh = volatile_applied_position st"
      using rep st(2) by (simp add: vm_rep_def mem_rep_def vm_volatile_applied_position_def volatile_applied_position_def)
    note reads = versioned_engine.reads_rep [OF V conjunct1 [OF rep]] rpds_laws.mem_reads [OF R st(2)]
    show "\<forall>cf key. snd (vm_get B shard sh cf key) = mem_get R st cf key"
      "\<forall>cf key. vm_seek_le B shard sh cf key = Some (snap_seek_le R st cf key)"
      "\<forall>cf start fin limit. start \<le> fin \<longrightarrow>
             map_option snd (vm_scan B shard sh cf start fin limit) = Some (mem_scan R st cf start fin limit)
           \<and> map_option snd (vm_checksum B shard sh cf start fin) = Some (mem_checksum R st cf start fin)"
      using reads by (simp_all add: mem_returns_def)
  qed
qed

theorem engines_agree_witness:
  "\<exists>sh. run_ops (vm_step om_bbtree 0) (vm_new om_bbtree) sample_ops
       = Some (sh, [Inr (), Inl POSITION_REFUSED, Inr (), Inr ()])
     \<and> (\<exists>st. map_option snd (vm_scan om_bbtree 0 sh Default [] [255] 10) = Some (mem_scan om_rpds st Default [] [255] 10)
       \<and> run_ops (mem_step om_rpds) (mem_new om_rpds) sample_ops
           = Some (st, [Inr (), Inl POSITION_REFUSED, Inr (), Inr ()]))"
proof -
  have "(0 :: nat) < REGISTRY_SHARDS" by (simp add: REGISTRY_SHARDS_def)
  from engines_agree [OF roomy.bbtree_laws_axioms sorted_list.rpds_laws_axioms this sample_ops_ok]
  obtain sh rs where run: "run_ops (vm_step om_bbtree 0) (vm_new om_bbtree) sample_ops = Some (sh, rs)"
    and agree: "(\<forall>r\<in>set rs. settled r) \<Longrightarrow> \<exists>st. run_ops (mem_step om_rpds) (mem_new om_rpds) sample_ops = Some (st, rs) \<and>
      map_option snd (vm_scan om_bbtree 0 sh Default [] [255] 10) = Some (mem_scan om_rpds st Default [] [255] 10)"
    by fastforce
  have "\<forall>r\<in>set rs. settled r" using vm_run_roomy [OF _ run] by (auto simp: om_bbtree_def)
  from agree [OF this] obtain st where st: "run_ops (mem_step om_rpds) (mem_new om_rpds) sample_ops = Some (st, rs)"
    "map_option snd (vm_scan om_bbtree 0 sh Default [] [255] 10) = Some (mem_scan om_rpds st Default [] [255] 10)" by blast
  obtain a spec_rs where spec: "kv_run kv_empty sample_ops = (a, spec_rs)" by fastforce
  have "rs = spec_rs" using sorted_list.mem_history [OF sample_ops_ok] st(1) spec by auto
  with sample_ops_run [OF spec] run st show ?thesis by auto
qed

end
