(* ===== verification/ApplyContract.thy ===== *)
theory ApplyContract
  imports StateMachine MemEngine VersionedEngine
begin

text \<open>
  Ordered apply over the engine contract. \<open>kv_store\<close> is the \<open>ApplyStore\<close> capability over the abstract
  contents of \<open>EngineContract\<close>. The state machine reads the engine only through that capability, so
  the plan of an entry over any engine that keeps the contract is the plan over the abstract
  contents, and two replicas on different engines that apply the same log agree on every receipt
  and on every key.
\<close>

section \<open>The capability over abstract contents\<close>

definition kv_store :: "kv_state apply_store" where
  "kv_store = \<lparr>as_get = \<lambda>a cf key. Inr (kv_get a cf key),
     as_write_applied = \<lambda>a b at. if kv_advances at a then (kv_apply b at a, Inr ()) else (a, Inl POSITION_REFUSED),
     as_applied_position = \<lambda>a. Inr (case kv_applied a of None \<Rightarrow> AppliedNothing | Some p \<Rightarrow> AppliedThrough p)\<rparr>"

lemma kv_store_simps [simp]:
  "as_get kv_store a cf key = Inr (kv_get a cf key)"
  "as_write_applied kv_store a b at =
     (if kv_advances at a then (kv_apply b at a, Inr ()) else (a, Inl POSITION_REFUSED))"
  "as_applied_position kv_store a = Inr (case kv_applied a of None \<Rightarrow> AppliedNothing | Some p \<Rightarrow> AppliedThrough p)"
  by (simp_all add: kv_store_def)

text \<open>What a batch leaves under a key.\<close>

fun mutation_value :: "mutation \<Rightarrow> bytes option" where
  "mutation_value (Put cf key val) = Some val"
| "mutation_value (Delete cf key) = None"

definition batch_value :: "column_family \<Rightarrow> bytes \<Rightarrow> write_batch \<Rightarrow> bytes option \<Rightarrow> bytes option" where
  "batch_value cf key b old =
     fold (\<lambda>m v. if mutation_cf m = cf \<and> mutation_key m = key then mutation_value m else v) b old"

lemma batch_value_simps [simp]:
  "batch_value cf key [] old = old"
  "batch_value cf key (m # b) old =
     batch_value cf key b (if mutation_cf m = cf \<and> mutation_key m = key then mutation_value m else old)"
  "batch_value cf key (b @ b') old = batch_value cf key b' (batch_value cf key b old)"
  by (simp_all add: batch_value_def)

lemma kv_get_mutates:
  "\<forall>cf. om_ok (d cf) \<Longrightarrow> map_of (fold kv_mutate b d cf) key = batch_value cf key b (map_of (d cf) key)"
proof (induction b arbitrary: d)
  case (Cons m b)
  have "map_of (kv_mutate m d cf) key = (if mutation_cf m = cf \<and> mutation_key m = key then mutation_value m else map_of (d cf) key)"
    using Cons.prems by (cases m) auto
  with Cons kv_mutate_ok [of d m] show ?case by simp
qed simp

lemma kv_get_apply [simp]:
  "kv_ok a \<Longrightarrow> kv_get (kv_apply b at a) cf key = batch_value cf key b (kv_get a cf key)"
  by (simp add: kv_get_def kv_apply_def kv_write_def kv_ok_def kv_get_mutates)

lemma kv_applied_apply [simp]: "kv_applied (kv_apply b at a) = Some at"
  by (simp add: kv_apply_def)

lemma batch_value_untouched:
  "(\<And>m. m \<in> set b \<Longrightarrow> mutation_cf m \<noteq> cf \<or> mutation_key m \<noteq> key) \<Longrightarrow> batch_value cf key b old = old"
  by (induction b) auto

lemma kv_advances_apply [simp]: "kv_advances at (kv_apply b p a) \<longleftrightarrow> ap_index p < ap_index at"
  by (simp add: kv_advances_def)

lemma kv_advances_empty [simp]: "kv_advances at kv_empty"
  by (simp add: kv_advances_def kv_empty_def)

locale apply_store_laws =
  fixes S :: "'s apply_store" and rep :: "nat \<Rightarrow> 's \<Rightarrow> kv_state \<Rightarrow> bool"
  assumes st_get: "rep n s a \<Longrightarrow> as_get S s cf key = Inr (kv_get a cf key)"
    and st_write: "rep n s a \<Longrightarrow> n + Suc (length b) < 2 ^ 64 \<Longrightarrow> kv_advances at a \<Longrightarrow>
      as_write_applied S s b at = (s', Inr ()) \<Longrightarrow> rep (n + Suc (length b)) s' (kv_apply b at a)"
    and st_mono: "rep n s a \<Longrightarrow> n \<le> n' \<Longrightarrow> rep n' s a"

text \<open>The batch an entry may write, counted with the version it takes.\<close>

fun ttl_action_weight :: "raw_ttl_action \<Rightarrow> nat" where
  "ttl_action_weight (TtlWrite plan ms) = 2 * length ms"
| "ttl_action_weight (Cleanup cs) = 2 * length cs"
| "ttl_action_weight _ = 0"

definition cmd_weight :: "command \<Rightarrow> nat" where
  "cmd_weight c =
     (case c of
        RawTtlCmd t \<Rightarrow> ttl_action_weight (rt_action t) + 2
      | CatalogTxn ops \<Rightarrow> length ops + 1
      | WriteCmd ops \<Rightarrow> length ops + 1
      | Fenced fence (FencedWrite ops) \<Rightarrow> length ops + 1
      | _ \<Rightarrow> 3)"

text \<open>Lowering appends one mutation per operation.\<close>

fun op_mutation :: "kv_op \<Rightarrow> mutation" where
  "op_mutation (KvPut cf key val) = Put (raft_cf_from_code cf) key val"
| "op_mutation (KvDelete cf key) = Delete (raft_cf_from_code cf) key"

lemma lower_ops_map: "lower_ops wb ops = wb @ map op_mutation ops"
proof -
  have "lower_op op wb = wb @ [op_mutation op]" for op wb
    by (cases op) (simp_all add: batch_put_def batch_delete_def)
  then show ?thesis by (induction ops arbitrary: wb) (simp_all add: lower_ops_def)
qed

lemma length_lower_ops [simp]: "length (lower_ops wb ops) = length wb + length ops"
  by (simp add: lower_ops_map)

lemma ttl_mutations_length:
  "ttl_mutations ks expiry ms b = Inr b' \<Longrightarrow> length b' = length b + 2 * length ms"
proof (induction ms arbitrary: b)
  case (Cons m ms)
  then show ?case
    by (cases m; cases expiry) (fastforce simp: bind_res_Inr_iff Let_def batch_put_def batch_delete_def)+
qed simp

lemma ttl_cleanup_length:
  "ttl_cleanup S eng ks clock cs b = Inr b' \<Longrightarrow> length b' \<le> length b + 2 * length cs"
proof (induction cs arbitrary: b)
  case (Cons c cs)
  from Cons.prems obtain d where "ttl_cleanup S eng ks clock cs d = Inr b'" "length d \<le> length b + 2"
    by (cases c) (auto simp: bind_res_Inr_iff batch_delete_def split: if_splits)
  with Cons.IH [of d] show ?case by simp
qed simp

lemma ttl_effect_length:
  "ttl_action_effect S eng at c w = Inr (w', b) \<Longrightarrow> length b \<le> ttl_action_weight (rt_action c)"
  by (auto simp: ttl_action_effect_def bind_res_Inr_iff dest!: ttl_mutations_length ttl_cleanup_length
      split: raw_ttl_action.splits)

lemma plan_raw_ttl_length:
  "plan_raw_ttl S at c sm = Inr p \<Longrightarrow> length (pl_batch p) \<le> ttl_action_weight (rt_action c) + 1"
  by (auto simp: plan_raw_ttl_def bind_res_Inr_iff plan_of_def ttl_refuse_def Let_def batch_put_def
      dest!: ttl_effect_length split: option.splits if_splits)

lemma plan_data_range_length: "plan_data_range sha256 S expected nxt sm = Inr p \<Longrightarrow> length (pl_batch p) \<le> 1"
  by (auto simp: plan_data_range_def bind_res_Inr_iff plan_of_def ttl_refuse_def Let_def batch_put_def split: if_splits)

lemma plan_compaction_length: "plan_compaction_confirmed S region floor sm = Inr p \<Longrightarrow> length (pl_batch p) \<le> 1"
  by (auto simp: plan_compaction_confirmed_def bind_res_Inr_iff plan_of_def Let_def batch_put_def
      split: if_splits option.splits prod.splits)

lemma plan_manifest_length: "plan_manifest sha256 J S at cmd q sm = Inr p \<Longrightarrow> length (pl_batch p) \<le> 2"
proof -
  have "length (snd (manifest_cas at q current bad)) \<le> 2" for current bad
    by (auto simp: manifest_cas_def batch_put_def split: option.splits)
  then show "plan_manifest sha256 J S at cmd q sm = Inr p \<Longrightarrow> length (pl_batch p) \<le> 2"
    by (auto simp: plan_manifest_def bind_res_Inr_iff plan_of_def case_prod_beta)
qed

lemma plan_fenced_length: "plan_fenced fence (FencedWrite ops) sm = Inr p \<Longrightarrow> length (pl_batch p) \<le> length ops"
  by (auto simp: plan_fenced_def bind_res_Inr_iff plan_of_def split: option.splits)

lemma guard_empty: "guard_legacy_ttl cmd sm = Inr (Some p) \<Longrightarrow> pl_batch p = []"
  by (auto simp: guard_legacy_ttl_def ttl_refuse_def plan_of_def split: option.splits if_splits prod.splits)

lemma cmd_weight_pos: "0 < cmd_weight cmd"
  by (auto simp: cmd_weight_def split: command.splits fenced_inner.splits)

text \<open>The plan of a command, branch by branch.\<close>

definition plan_rest ::
  "(bytes \<Rightarrow> digest) \<Rightarrow> json_ops \<Rightarrow> 's apply_store \<Rightarrow> applied_position \<Rightarrow> command \<Rightarrow> 's state_machine \<Rightarrow> plan result" where
  "plan_rest sha256 J S at cmd sm =
     (case cmd of
        DataRangeCmd expected next \<Rightarrow> plan_data_range sha256 S expected next sm
      | CompactionConfirmed region floor \<Rightarrow> plan_compaction_confirmed S region floor sm
      | ManifestChange p \<Rightarrow> plan_manifest sha256 J S at cmd p sm
      | LargeManifestChange p \<Rightarrow> plan_manifest sha256 J S at cmd p sm
      | Fenced fence inner \<Rightarrow> plan_fenced fence inner sm
      | _ \<Rightarrow> bind_res (to_write_batch cmd) (\<lambda>batch. Inr (plan_of batch Plain)))"

lemma plan_command_cases:
  assumes "plan_command sha256 J S at cmd sm = Inr p"
  obtains (ttl) c where "cmd = RawTtlCmd c" "plan_raw_ttl S at c sm = Inr p"
    | (refused) "guard_legacy_ttl cmd sm = Inr (Some p)" "pl_batch p = []"
    | (rest) "guard_legacy_ttl cmd sm = Inr None" "plan_rest sha256 J S at cmd sm = Inr p"
proof (cases "\<exists>c. cmd = RawTtlCmd c")
  case True
  with assms ttl show ?thesis by (auto simp: plan_command_def)
next
  case False
  then have "plan_command sha256 J S at cmd sm = bind_res (guard_legacy_ttl cmd sm) (\<lambda>refused.
      case refused of Some q \<Rightarrow> Inr q | None \<Rightarrow> plan_rest sha256 J S at cmd sm)"
    by (cases cmd) (simp_all add: plan_command_def plan_rest_def)
  with assms obtain x where x: "guard_legacy_ttl cmd sm = Inr x"
    "(case x of Some q \<Rightarrow> Inr q | None \<Rightarrow> plan_rest sha256 J S at cmd sm) = Inr p"
    by (auto simp: bind_res_Inr_iff)
  with refused rest guard_empty show ?thesis by (cases x) auto
qed

lemma plan_length:
  assumes "plan_command sha256 J S at cmd sm = Inr p"
  shows "length (pl_batch p) < cmd_weight cmd"
  using assms
proof (cases rule: plan_command_cases)
  case (ttl c)
  with plan_raw_ttl_length [of S at c sm p] show ?thesis by (simp add: cmd_weight_def)
next
  case refused
  then show ?thesis by (simp add: cmd_weight_pos)
next
  case rest
  show ?thesis
  proof (cases cmd)
    case (Fenced fence inner)
    with rest show ?thesis
      by (cases inner) (auto simp: plan_rest_def cmd_weight_def dest: plan_fenced_length)
  qed (use rest in \<open>auto simp: plan_rest_def cmd_weight_def plan_of_def batch_put_def
      dest: plan_data_range_length plan_compaction_length plan_manifest_length\<close>)
qed

section \<open>Simulation\<close>

text \<open>
  A machine over an engine stands for the machine over the abstract contents when the engine does and
  the other fields are equal; the adjudicator is absent in both or the range fence in both.
\<close>

definition same_adjudicator :: "'s apply_store \<Rightarrow> 's adjudicator option \<Rightarrow> kv_state adjudicator option \<Rightarrow> bool" where
  "same_adjudicator S x y \<longleftrightarrow>
     x = None \<and> y = None \<or> (\<exists>ident. x = Some (range_fence S ident) \<and> y = Some (range_fence kv_store ident))"

definition sm_sim ::
  "'s apply_store \<Rightarrow> (nat \<Rightarrow> 's \<Rightarrow> kv_state \<Rightarrow> bool) \<Rightarrow> nat \<Rightarrow> 's state_machine \<Rightarrow> kv_state state_machine \<Rightarrow> bool" where
  "sm_sim S rep n sm asm \<longleftrightarrow>
     rep n (sm_engine sm) (sm_engine asm) \<and> sm_data_identity sm = sm_data_identity asm
     \<and> sm_applied sm = sm_applied asm \<and> sm_ttl_enabled sm = sm_ttl_enabled asm
     \<and> same_adjudicator S (sm_adjudicator sm) (sm_adjudicator asm)"

text \<open>The published index is the position of the engine.\<close>

definition in_step :: "kv_state state_machine \<Rightarrow> bool" where
  "in_step sm \<longleftrightarrow> sm_applied sm = (case kv_applied (sm_engine sm) of None \<Rightarrow> 0 | Some p \<Rightarrow> ap_index p)"

lemma in_step_advances: "in_step sm \<Longrightarrow> sm_applied sm < ap_index at \<Longrightarrow> kv_advances at (sm_engine sm)"
  by (auto simp: in_step_def kv_advances_def split: option.splits)

context apply_store_laws
begin

lemma read_as_sim: "rep n s a \<Longrightarrow> read_as S s cf key dec = read_as kv_store a cf key dec"
  by (simp add: read_as_def st_get)

lemma rf_current_sim: "rep n s a \<Longrightarrow> rf_current S ident s = rf_current kv_store ident a"
  by (simp add: rf_current_def read_as_sim)

lemma ttl_cleanup_sim: "rep n s a \<Longrightarrow> ttl_cleanup S s ks clock cs b = ttl_cleanup kv_store a ks clock cs b"
  by (induction cs arbitrary: b) (auto simp: read_as_sim)

lemma ttl_effect_sim: "rep n s a \<Longrightarrow> ttl_action_effect S s at c w = ttl_action_effect kv_store a at c w"
  by (simp add: ttl_action_effect_def ttl_cleanup_sim cong: raw_ttl_action.case_cong)

lemmas reads_sim = read_as_sim rf_current_sim ttl_effect_sim st_get

lemma plan_raw_ttl_sim: "sm_sim S rep n sm asm \<Longrightarrow> plan_raw_ttl S at c sm = plan_raw_ttl kv_store at c asm"
  unfolding sm_sim_def plan_raw_ttl_def by (elim conjE) (simp only: reads_sim)

lemma plan_data_range_sim:
  "sm_sim S rep n sm asm \<Longrightarrow> plan_data_range sha256 S expected nxt sm = plan_data_range sha256 kv_store expected nxt asm"
  unfolding sm_sim_def plan_data_range_def by (elim conjE) (simp only: reads_sim)

lemma plan_compaction_sim:
  "sm_sim S rep n sm asm \<Longrightarrow> plan_compaction_confirmed S region floor sm = plan_compaction_confirmed kv_store region floor asm"
  unfolding sm_sim_def plan_compaction_confirmed_def by (elim conjE) (simp only: reads_sim kv_store_simps)

lemma plan_fenced_sim: "sm_sim S rep n sm asm \<Longrightarrow> plan_fenced fence inner sm = plan_fenced fence inner asm"
  by (auto simp: sm_sim_def plan_fenced_def same_adjudicator_def range_fence_def rf_is_fresh_write_def rf_current_sim)

lemma adj_fresh_sim:
  "sm_sim S rep n sm asm \<Longrightarrow>
     (case sm_adjudicator sm of None \<Rightarrow> x | Some a \<Rightarrow> bind_res (adj_is_fresh a (sm_engine sm) fence) f)
     = (case sm_adjudicator asm of None \<Rightarrow> x | Some a \<Rightarrow> bind_res (adj_is_fresh a (sm_engine asm) fence) f)"
  by (auto simp: sm_sim_def same_adjudicator_def range_fence_def rf_is_fresh_def rf_current_sim)

lemma checkpoint_error_sim: "sm_sim S rep n sm asm \<Longrightarrow> checkpoint_error sha256 J sm cmd p = checkpoint_error sha256 J asm cmd p"
  unfolding checkpoint_error_def by (simp only: adj_fresh_sim)

lemma manifest_pair_sim: "sm_sim S rep n sm asm \<Longrightarrow> sm_manifest_pair S sm region = sm_manifest_pair kv_store asm region"
  by (auto simp: sm_sim_def sm_manifest_pair_def st_get)

lemma plan_manifest_sim:
  "sm_sim S rep n sm asm \<Longrightarrow> plan_manifest sha256 J S at cmd p sm = plan_manifest sha256 J kv_store at cmd p asm"
  by (simp add: plan_manifest_def checkpoint_error_sim manifest_pair_sim)

lemma guard_sim: "sm_sim S rep n sm asm \<Longrightarrow> guard_legacy_ttl cmd sm = guard_legacy_ttl cmd asm"
  unfolding sm_sim_def guard_legacy_ttl_def by (elim conjE) (simp only:)

lemma plan_sim: "sm_sim S rep n sm asm \<Longrightarrow> plan_command sha256 J S at cmd sm = plan_command sha256 J kv_store at cmd asm"
  by (cases cmd) (simp_all add: plan_command_def guard_sim plan_raw_ttl_sim plan_data_range_sim plan_compaction_sim
      plan_fenced_sim plan_manifest_sim)

text \<open>
  One entry: either the machines still correspond and the receipts are equal, or the engine itself
  failed to write what the abstract machine wrote.
\<close>

lemma apply_sim:
  assumes sim: "sm_sim S rep n sm asm" and sync: "in_step asm" and w: "n + cmd_weight cmd < 2 ^ 64"
    and ap: "apply_unobserved sha256 J S at cmd sm = (sm', r)"
    and spec: "apply_unobserved sha256 J kv_store at cmd asm = (asm', r')"
  shows "(r = r' \<and> sm_sim S rep (n + cmd_weight cmd) sm' asm' \<and> in_step asm')
    \<or> (\<exists>b s e. kv_advances at (sm_engine asm) \<and> as_write_applied S (sm_engine sm) b at = (s, Inl e) \<and> r = Inl e)"
proof -
  have mono: "sm_sim S rep (n + cmd_weight cmd) sm asm"
    using sim st_mono [of n "sm_engine sm" "sm_engine asm" "n + cmd_weight cmd"] by (simp add: sm_sim_def)
  show ?thesis
  proof (cases "ap_index at \<le> sm_applied sm")
    case True
    with ap spec sim mono sync show ?thesis by (simp add: apply_unobserved_def sm_sim_def)
  next
    case False
    then have adv: "kv_advances at (sm_engine asm)"
      using sim sync in_step_advances [of asm at] by (simp add: sm_sim_def)
    have commit: "sm_commit S at (plan_command sha256 J kv_store at cmd asm) sm = (sm', r)"
        "sm_commit kv_store at (plan_command sha256 J kv_store at cmd asm) asm = (asm', r')"
      using False ap spec sim plan_sim [OF sim] by (simp_all add: apply_unobserved_def sm_sim_def)
    show ?thesis
    proof (cases "plan_command sha256 J kv_store at cmd asm")
      case (Inl e)
      with commit mono sync show ?thesis by (simp add: sm_commit_def)
    next
      case (Inr p)
      obtain s x where x: "as_write_applied S (sm_engine sm) (pl_batch p) at = (s, x)" by fastforce
      show ?thesis
      proof (cases x)
        case (Inl e)
        with x commit Inr adv show ?thesis by (auto simp: sm_commit_def)
      next
        case Inr': (Inr u)
        have "rep (n + Suc (length (pl_batch p))) s (kv_apply (pl_batch p) at (sm_engine asm))"
          using st_write [of n "sm_engine sm" "sm_engine asm" "pl_batch p" at s] sim x Inr' adv w plan_length [OF Inr]
          by (simp add: sm_sim_def)
        then have "rep (n + cmd_weight cmd) s (kv_apply (pl_batch p) at (sm_engine asm))"
          by (rule st_mono) (use plan_length [OF Inr] in simp)
        with x Inr' commit Inr adv sim show ?thesis
          by (auto simp: sm_commit_def sm_sim_def in_step_def kv_apply_def)
      qed
    qed
  qed
qed

end

definition writes_succeed :: "'s apply_store \<Rightarrow> (nat \<Rightarrow> 's \<Rightarrow> kv_state \<Rightarrow> bool) \<Rightarrow> bool" where
  "writes_succeed S rep \<longleftrightarrow>
     (\<forall>n s a b at s' e. rep n s a \<longrightarrow> kv_advances at a \<longrightarrow> as_write_applied S s b at \<noteq> (s', Inl e))"

text \<open>A positioned write that advances and still fails: \<open>x\<close> is an error of the engine's own.\<close>

definition engine_fails :: "'s apply_store \<Rightarrow> (nat \<Rightarrow> 's \<Rightarrow> kv_state \<Rightarrow> bool) \<Rightarrow> error \<Rightarrow> bool" where
  "engine_fails S rep x \<longleftrightarrow>
     (\<exists>n s a b at s'. rep n s a \<and> kv_advances at a \<and> as_write_applied S s b at = (s', Inl x))"

lemma writes_never_fail: "writes_succeed S rep \<Longrightarrow> \<not> engine_fails S rep x"
  by (auto simp: writes_succeed_def engine_fails_def)

text \<open>The entries of a log and what they may write.\<close>

definition entry_weight :: "committed_entry \<Rightarrow> nat" where
  "entry_weight e = (case cmd_decode (ce_data e) of Inl _ \<Rightarrow> 0 | Inr cmd \<Rightarrow> cmd_weight cmd)"

definition log_weight :: "committed_entry list \<Rightarrow> nat" where
  "log_weight es = sum_list (map entry_weight es)"

context apply_store_laws
begin

lemma sim_mono: "sm_sim S rep n sm asm \<Longrightarrow> n \<le> m \<Longrightarrow> sm_sim S rep m sm asm"
  using st_mono [of n "sm_engine sm" "sm_engine asm" m] by (simp add: sm_sim_def)

text \<open>
  A whole log: a run that met no failure of the engine itself ends in corresponding machines with
  equal receipts. Over an engine whose positioned writes never fail, every run is such a run.
\<close>

lemma sm_apply_sim:
  assumes "sm_sim S rep n sm asm" "in_step asm" "n + entry_weight e < 2 ^ 64"
    and "sm_apply sha256 J S e sm = (sm', r)" "sm_apply sha256 J kv_store e asm = (asm', r')"
    and "writes_succeed S rep \<or> (\<exists>v. r = Inr v)"
  shows "r = r' \<and> sm_sim S rep (n + entry_weight e) sm' asm' \<and> in_step asm'"
proof (cases "cmd_decode (ce_data e)")
  case (Inl err)
  with assms show ?thesis by (simp add: sm_apply_def entry_weight_def)
next
  case (Inr cmd)
  let ?at = "\<lparr>ap_term = ce_term e, ap_index = ce_index e\<rparr>"
  have ap: "apply_unobserved sha256 J S ?at cmd sm = (sm', r)" "apply_unobserved sha256 J kv_store ?at cmd asm = (asm', r')"
    using assms(4,5) Inr by (simp_all add: sm_apply_def apply_at_def)
  have w: "entry_weight e = cmd_weight cmd" using Inr by (simp add: entry_weight_def)
  have "\<not> (\<exists>b s e. kv_advances ?at (sm_engine asm) \<and> as_write_applied S (sm_engine sm) b ?at = (s, Inl e) \<and> r = Inl e)"
    using assms(1,6) unfolding writes_succeed_def sm_sim_def by blast
  moreover have "n + cmd_weight cmd < 2 ^ 64" using assms(3) by (simp add: w)
  ultimately show ?thesis using apply_sim [OF assms(1,2) _ ap] unfolding w by blast
qed

lemma sm_apply_sim_or:
  assumes "sm_sim S rep n sm asm" "in_step asm" "n + entry_weight e < 2 ^ 64"
    and "sm_apply sha256 J S e sm = (sm', r)" "sm_apply sha256 J kv_store e asm = (asm', r')"
  shows "(r = r' \<and> sm_sim S rep (n + entry_weight e) sm' asm' \<and> in_step asm')
    \<or> (\<exists>x. engine_fails S rep x \<and> r = Inl x)"
proof (cases "\<exists>v. r = Inr v")
  case True
  with sm_apply_sim [OF assms] show ?thesis by blast
next
  case False
  show ?thesis
  proof (cases "cmd_decode (ce_data e)")
    case (Inl err)
    with assms show ?thesis by (simp add: sm_apply_def entry_weight_def)
  next
    case (Inr cmd)
    let ?at = "\<lparr>ap_term = ce_term e, ap_index = ce_index e\<rparr>"
    have ap: "apply_unobserved sha256 J S ?at cmd sm = (sm', r)" "apply_unobserved sha256 J kv_store ?at cmd asm = (asm', r')"
      using assms(4,5) Inr by (simp_all add: sm_apply_def apply_at_def)
    have w: "entry_weight e = cmd_weight cmd" using Inr by (simp add: entry_weight_def)
    have "rep n (sm_engine sm) (sm_engine asm)" using assms(1) by (simp add: sm_sim_def)
    with apply_sim [OF assms(1,2) assms(3) [unfolded w] ap] show ?thesis unfolding w engine_fails_def by blast
  qed
qed

lemma drive_sim:
  assumes "sm_sim S rep n sm asm" "in_step asm" "n + log_weight es < 2 ^ 64"
    and "drive_apply sha256 J S es sm = (sm', r)" "drive_apply sha256 J kv_store es asm = (asm', r')"
    and "writes_succeed S rep \<or> (\<exists>rs. r = Inr rs)"
  shows "r = r' \<and> sm_sim S rep (n + log_weight es) sm' asm' \<and> in_step asm'"
  using assms
proof (induction es arbitrary: n sm asm r r')
  case Nil
  then show ?case by (simp add: log_weight_def)
next
  case (Cons e es)
  have lw: "log_weight (e # es) = entry_weight e + log_weight es" by (simp add: log_weight_def)
  show ?case
  proof (cases "ce_kind e = CommandEntry")
    case False
    with Cons.prems have "r = r' \<and> sm_sim S rep (n + log_weight es) sm' asm' \<and> in_step asm'"
      by (intro Cons.IH) (simp_all add: lw)
    with sim_mono [of "n + log_weight es" sm' asm' "n + log_weight (e # es)"] show ?thesis by (simp add: lw)
  next
    case True
    obtain sm1 r1 where s1: "sm_apply sha256 J S e sm = (sm1, r1)" by fastforce
    obtain asm1 r1' where a1: "sm_apply sha256 J kv_store e asm = (asm1, r1')" by fastforce
    have "writes_succeed S rep \<or> (\<exists>v. r1 = Inr v)"
      using Cons.prems(4,6) True s1 by (cases r1) auto
    then have one: "r1 = r1'" "sm_sim S rep (n + entry_weight e) sm1 asm1" "in_step asm1"
      using sm_apply_sim [OF Cons.prems(1,2) _ s1 a1] Cons.prems(3) by (auto simp: lw)
    show ?thesis
    proof (cases r1)
      case (Inl err)
      with Cons.prems(4,5) True s1 a1 one sim_mono [of "n + entry_weight e" sm1 asm1 "n + log_weight (e # es)"]
      show ?thesis by (auto simp: lw)
    next
      case (Inr v)
      obtain sm2 r2 where s2: "drive_apply sha256 J S es sm1 = (sm2, r2)" by fastforce
      obtain asm2 r2' where a2: "drive_apply sha256 J kv_store es asm1 = (asm2, r2')" by fastforce
      have out: "sm' = sm2" "asm' = asm2" "r = (case r2 of Inl x \<Rightarrow> Inl x | Inr vs \<Rightarrow> Inr (v # vs))"
          "r' = (case r2' of Inl x \<Rightarrow> Inl x | Inr vs \<Rightarrow> Inr (v # vs))"
        using Cons.prems(4,5) True s1 a1 one(1) Inr s2 a2 by (auto split: sum.splits)
      have "writes_succeed S rep \<or> (\<exists>vs. r2 = Inr vs)" using Cons.prems(6) out(3) by (auto split: sum.splits)
      then have "r2 = r2' \<and> sm_sim S rep (n + entry_weight e + log_weight es) sm2 asm2 \<and> in_step asm2"
        using one(2,3) Cons.prems(3) s2 a2 unfolding out(1,2) [symmetric]
        by (intro Cons.IH [of "n + entry_weight e" sm1 asm1]) (simp_all add: lw)
      with out show ?thesis by (simp add: lw add.assoc)
    qed
  qed
qed

text \<open>A run that did not fail in the engine agrees with the abstract one, failures of the log included.\<close>

lemma drive_sim_or:
  assumes "sm_sim S rep n sm asm" "in_step asm" "n + log_weight es < 2 ^ 64"
    and "drive_apply sha256 J S es sm = (sm', r)" "drive_apply sha256 J kv_store es asm = (asm', r')"
  shows "(r = r' \<and> sm_sim S rep (n + log_weight es) sm' asm')
    \<or> (\<exists>x. engine_fails S rep x \<and> r = Inl x)"
  using assms
proof (induction es arbitrary: n sm asm r r')
  case Nil
  then show ?case by (simp add: log_weight_def)
next
  case (Cons e es)
  have lw: "log_weight (e # es) = entry_weight e + log_weight es" by (simp add: log_weight_def)
  show ?case
  proof (cases "ce_kind e = CommandEntry")
    case False
    with Cons.prems have "(r = r' \<and> sm_sim S rep (n + log_weight es) sm' asm') \<or> (\<exists>x. engine_fails S rep x \<and> r = Inl x)"
      by (intro Cons.IH) (simp_all add: lw)
    with sim_mono [of "n + log_weight es" sm' asm' "n + log_weight (e # es)"] show ?thesis by (auto simp: lw)
  next
    case True
    obtain sm1 r1 where s1: "sm_apply sha256 J S e sm = (sm1, r1)" by fastforce
    obtain asm1 r1' where a1: "sm_apply sha256 J kv_store e asm = (asm1, r1')" by fastforce
    have "n + entry_weight e < 2 ^ 64" using Cons.prems(3) by (simp add: lw)
    from sm_apply_sim_or [OF Cons.prems(1,2) this s1 a1] show ?thesis
    proof (elim disjE)
      assume f: "\<exists>x. engine_fails S rep x \<and> r1 = Inl x"
      with Cons.prems(4) True s1 show ?thesis by auto
    next
      assume one: "r1 = r1' \<and> sm_sim S rep (n + entry_weight e) sm1 asm1 \<and> in_step asm1"
      show ?thesis
      proof (cases r1)
        case (Inl err)
        with Cons.prems(4,5) True s1 a1 one sim_mono [of "n + entry_weight e" sm1 asm1 "n + log_weight (e # es)"]
        show ?thesis by (auto simp: lw)
      next
        case (Inr v)
        obtain sm2 r2 where s2: "drive_apply sha256 J S es sm1 = (sm2, r2)" by fastforce
        obtain asm2 r2' where a2: "drive_apply sha256 J kv_store es asm1 = (asm2, r2')" by fastforce
        have out: "sm' = sm2" "asm' = asm2" "r = (case r2 of Inl x \<Rightarrow> Inl x | Inr vs \<Rightarrow> Inr (v # vs))"
            "r' = (case r2' of Inl x \<Rightarrow> Inl x | Inr vs \<Rightarrow> Inr (v # vs))"
          using Cons.prems(4,5) True s1 a1 one Inr s2 a2 by (auto split: sum.splits)
        have "(r2 = r2' \<and> sm_sim S rep (n + entry_weight e + log_weight es) sm' asm') \<or> (\<exists>x. engine_fails S rep x \<and> r2 = Inl x)"
          using one Cons.prems(3) s2 a2 unfolding out(1,2) [symmetric]
          by (intro Cons.IH [of "n + entry_weight e" sm1 asm1]) (simp_all add: lw)
        moreover have "\<exists>x. engine_fails S rep x \<and> r = Inl x" if "\<exists>x. engine_fails S rep x \<and> r2 = Inl x" using that out(3) by auto
        ultimately show ?thesis using out(3,4) by (auto simp: lw add.assoc)
      qed
    qed
  qed
qed

end

section \<open>The engines as stores\<close>

definition mem_store :: "'t rpds_ops \<Rightarrow> 't mem_state apply_store" where
  "mem_store R = \<lparr>as_get = mem_get R, as_write_applied = mem_write_applied R, as_applied_position = mem_applied_position\<rparr>"

definition vm_store :: "'t bbtree_ops \<Rightarrow> nat \<Rightarrow> 't shared apply_store" where
  "vm_store B shard = \<lparr>as_get = \<lambda>sh cf key. snd (vm_get B shard sh cf key),
     as_write_applied = vm_write_applied B, as_applied_position = vm_applied_position\<rparr>"

sublocale replicated_engine \<subseteq> store: apply_store_laws
  "\<lparr>as_get = get, as_write_applied = write_applied, as_applied_position = \<lambda>_. Inr VolatilePosition\<rparr>" rep
  by unfold_locales (use rep_get rep_write_applied rep_mono in fastforce)+

interpretation abstract_store: apply_store_laws kv_store "\<lambda>_ s a. s = a"
  by unfold_locales (auto simp: kv_store_def)

sublocale rpds_laws \<subseteq> ms: apply_store_laws "mem_store R" "mem_rep trep"
  using mem.store.apply_store_laws_axioms by (simp add: mem_store_def mem_applied_position_def [abs_def])

sublocale versioned_engine \<subseteq> vs: apply_store_laws "vm_store B shard" "vm_rep brep"
  using vm.store.apply_store_laws_axioms by (simp add: vm_store_def vm_applied_position_def [abs_def])

section \<open>Replicas\<close>

text \<open>Opening a data group on an engine: \<open>with_engine\<close>, then \<open>set_data_group\<close>.\<close>

definition open_group :: "'s apply_store \<Rightarrow> group_identity \<Rightarrow> 's \<Rightarrow> 's state_machine result" where
  "open_group S = (\<lambda>(root, region, creation) eng.
     bind_res (with_engine S eng) (\<lambda>sm.
     case set_data_group S root region creation sm of (sm', Inl e) \<Rightarrow> Inl e | (sm', Inr _) \<Rightarrow> Inr sm'))"

definition identity_ok :: "group_identity \<Rightarrow> bool" where
  "identity_ok = (\<lambda>(root, region, creation). root \<noteq> 0 \<and> 100 \<le> region \<and> creation \<noteq> 0)"

definition fresh_group :: "'s apply_store \<Rightarrow> group_identity \<Rightarrow> 's \<Rightarrow> 's state_machine" where
  "fresh_group S ident eng = \<lparr>sm_data_identity = Some ident, sm_engine = eng, sm_applied = 0,
     sm_ttl_enabled = False, sm_adjudicator = Some (range_fence S ident)\<rparr>"

lemma kv_get_empty [simp]: "kv_get kv_empty cf key = None"
  by (simp add: kv_get_def kv_empty_def)

context apply_store_laws
begin

lemma open_fresh:
  assumes "rep n s kv_empty" "identity_ok ident" "as_applied_position S s = Inr VolatilePosition"
  shows "open_group S ident s = Inr (fresh_group S ident s)"
  using assms
  by (cases ident)
    (simp add: open_group_def identity_ok_def with_engine_def set_data_group_def read_as_def rf_current_def st_get
      fresh_group_def not_less Let_def)

lemma fresh_sim: "rep n s kv_empty \<Longrightarrow> sm_sim S rep n (fresh_group S ident s) (fresh_group kv_store ident kv_empty)"
  unfolding sm_sim_def fresh_group_def same_adjudicator_def by (simp del: split_paired_Ex) blast

lemma fresh_drive:
  assumes "rep 0 s kv_empty" "log_weight es < 2 ^ 64"
    and "drive_apply sha256 J S es (fresh_group S ident s) = (sm, r)"
    and "drive_apply sha256 J kv_store es (fresh_group kv_store ident kv_empty) = (asm, r')"
    and "writes_succeed S rep \<or> (\<exists>rs. r = Inr rs)"
  shows "r = r' \<and> sm_sim S rep (log_weight es) sm asm"
  using drive_sim [OF fresh_sim [OF assms(1), of ident] _ _ assms(3-5)] assms(2)
  by (simp add: in_step_def fresh_group_def kv_empty_def)

lemma sim_get: "sm_sim S rep n sm asm \<Longrightarrow> sm_get S sm cf key = Inr (kv_get (sm_engine asm) cf key)"
  by (auto simp: sm_sim_def sm_get_def st_get)

end

context rpds_laws
begin

lemma mem_writes_succeed: "writes_succeed (mem_store R) (mem_rep trep)"
  using write_applied_rep(2) unfolding writes_succeed_def mem_store_def
  by (metis apply_store.select_convs(2) snd_conv sum.distinct(1))

lemmas mem_open = ms.open_fresh [OF mem_new_rep]
lemmas mem_fresh_drive = ms.fresh_drive [OF mem_new_rep]
lemmas mem_sim_get = ms.sim_get

end

context versioned_engine
begin

lemmas vm_open = vs.open_fresh [OF vm_new_rep]
lemmas vm_fresh_drive = vs.fresh_drive [OF vm_new_rep]
lemmas vm_sim_get = vs.sim_get
lemmas vm_advances = vm.rep_write_applied_advances

end

text \<open>
  C4. Two replicas of a data group, one on \<open>MemEngine\<close> and one on \<open>VersionedMemEngine\<close>, that apply the
  same committed log from the start agree. Whenever the versioned replica applied the whole log,
  the other did too, with the same receipt for every entry - accepted writes, fence rejections,
  TTL refusals and manifest verdicts alike - the same applied index, the same TTL mode and the same
  value under every key of every column family.
\<close>

theorem replicas_agree:
  assumes "rpds_laws R trep" and "bbtree_laws B brep" and "shard < REGISTRY_SHARDS"
    and "identity_ok ident" and "log_weight es < 2 ^ 64"
    and "open_group (mem_store R) ident (mem_new R) = Inr m" and "open_group (vm_store B shard) ident (vm_new B) = Inr v"
    and "drive_apply sha256 J (vm_store B shard) es v = (v', Inr rs)"
  shows "\<exists>m'. drive_apply sha256 J (mem_store R) es m = (m', Inr rs)
    \<and> sm_applied m' = sm_applied v' \<and> sm_ttl_enabled m' = sm_ttl_enabled v'
    \<and> (\<forall>cf key. sm_get (mem_store R) m' cf key = sm_get (vm_store B shard) v' cf key)"
proof -
  have V: "versioned_engine B brep shard"
    using assms(2,3) by (intro versioned_engine.intro) (auto simp: versioned_engine_axioms_def)
  have m: "m = fresh_group (mem_store R) ident (mem_new R)"
    using rpds_laws.mem_open [OF assms(1,4)] assms(6) by (simp add: mem_store_def mem_applied_position_def)
  have v: "v = fresh_group (vm_store B shard) ident (vm_new B)"
    using versioned_engine.vm_open [OF V assms(4)] assms(7) by (simp add: vm_store_def vm_applied_position_def)
  obtain m' rm where dm: "drive_apply sha256 J (mem_store R) es m = (m', rm)" by fastforce
  obtain a ra where da: "drive_apply sha256 J kv_store es (fresh_group kv_store ident kv_empty) = (a, ra)" by fastforce
  have sm: "rm = ra" "sm_sim (mem_store R) (mem_rep trep) (log_weight es) m' a"
    using rpds_laws.mem_fresh_drive [OF assms(1,5) _ da] dm rpds_laws.mem_writes_succeed [OF assms(1)]
    unfolding m by blast+
  have sv: "Inr rs = ra" "sm_sim (vm_store B shard) (vm_rep brep) (log_weight es) v' a"
    using versioned_engine.vm_fresh_drive [OF V assms(5) _ da] assms(8) unfolding v by blast+
  show ?thesis
    using dm sm sv rpds_laws.mem_sim_get [OF assms(1) sm(2)] versioned_engine.vm_sim_get [OF V sv(2)]
    by (intro exI [of _ m']) (simp add: sm_sim_def)
qed

text \<open>A log that publishes a range, writes inside it and then presents a stale fence.\<close>

definition sample_ident :: group_identity where
  "sample_ident = range_identity range_sample"

definition sample_key :: bytes where
  "sample_key = [0x72, 0, 0, 100, 0x63]"

definition sample_write :: "u64 \<Rightarrow> command" where
  "sample_write version = Fenced \<lparr>rf_region_id = 100, rf_conf_ver = 1, rf_version = version\<rparr>
     (FencedWrite [KvPut 0 sample_key [7]])"

definition sample_log :: "committed_entry list" where
  "sample_log = map (\<lambda>(i, c). \<lparr>ce_index = i, ce_term = 1, ce_kind = CommandEntry, ce_data = cmd_encode c\<rparr>)
     [(1, DataRangeCmd None range_sample), (2, sample_write 1), (3, sample_write 2)]"

lemma sample_ok: "command_ok (DataRangeCmd None range_sample)" "command_ok (sample_write version)"
  by (simp_all add: dr_validate_iff range_sample_def MAX_BOUND_def KEYSPACE_MAX_def sample_write_def ops_fit_def
      sample_key_def)

lemma sample_in_range: "op_in_range range_sample (KvPut 0 sample_key [7])"
  by (simp add: op_in_range_def sample_key_def decode_key_def from_byte_def range_sample_def dr_contains_def)

lemma sample_range: "dr_validate range_sample = Inr ()" "dr_decode (dr_encode range_sample) = Inr range_sample"
  using sample_ok(1) by (simp_all add: dr_decode_encode)

definition sample_first :: "kv_state state_machine" where
  "sample_first = (fresh_group kv_store sample_ident kv_empty)
     \<lparr>sm_engine := kv_apply [Put Default RANGE_KEY (dr_encode range_sample)] \<lparr>ap_term = 1, ap_index = 1\<rparr> kv_empty,
      sm_applied := 1\<rparr>"

lemma sample_step1:
  "apply_unobserved sha256 J kv_store \<lparr>ap_term = 1, ap_index = 1\<rparr> (DataRangeCmd None range_sample)
     (fresh_group kv_store sample_ident kv_empty) = (sample_first, Inr (write_ok 1))"
  by (simp add: apply_unobserved_def fresh_group_def plan_command_def guard_legacy_ttl_def legacy_ops_def plan_data_range_def
      sample_range sample_ident_def read_as_def Let_def sm_commit_def plan_of_def sample_first_def write_ok_def batch_put_def)
    (simp add: range_sample_def)

lemma sample_step:
  assumes "kv_get (sm_engine sm) Default RANGE_KEY = Some (dr_encode range_sample)"
    and "sm_adjudicator sm = Some (range_fence kv_store sample_ident)" "\<not> sm_ttl_enabled sm"
    and "kv_advances at (sm_engine sm)" "sm_applied sm < ap_index at"
  shows "apply_unobserved sha256 J kv_store at (sample_write version) sm =
    (sm\<lparr>sm_engine := kv_apply (if version = 1 then [Put Default sample_key [7]] else []) at (sm_engine sm),
        sm_applied := ap_index at\<rparr>,
     Inr \<lparr>ar_applied_index = ap_index at, ar_response = None,
          ar_outcome = (if version = 1 then Plain else FenceRejected 100)\<rparr>)"
proof -
  have "guard_legacy_ttl (sample_write version) sm = Inr None"
    using assms(3) by (simp add: guard_legacy_ttl_def sample_write_def legacy_ops_def reserved_def sample_key_def CLOCK_KEY_def)
  moreover have "rf_current kv_store sample_ident (sm_engine sm) = Inr (Some range_sample)"
    using assms(1) by (simp add: rf_current_def read_as_def sample_range sample_ident_def)
  moreover have "rf_matches range_sample \<lparr>rf_region_id = 100, rf_conf_ver = 1, rf_version = version\<rparr> \<longleftrightarrow> version = 1"
    by (auto simp: rf_matches_def range_sample_def)
  ultimately have "plan_command sha256 J kv_store at (sample_write version) sm =
      Inr (plan_of (if version = 1 then [Put Default sample_key [7]] else []) (if version = 1 then Plain else FenceRejected 100))"
    using assms(2) sample_in_range
    by (simp add: plan_command_def sample_write_def plan_fenced_def range_fence_def rf_is_fresh_write_def
        lower_ops_def raft_cf_from_code_def batch_put_def)
  then show ?thesis
    using assms(3-5) by (simp add: apply_unobserved_def sm_commit_def plan_of_def)
qed

lemma sample_log_abstract:
  "\<exists>a rs. drive_apply sha256 J kv_store sample_log (fresh_group kv_store sample_ident kv_empty) = (a, Inr rs)
     \<and> map ar_outcome rs = [Plain, Plain, FenceRejected 100] \<and> kv_get (sm_engine a) Default sample_key = Some [7]"
proof -
  have ne: "sample_key \<noteq> RANGE_KEY" by (simp add: sample_key_def RANGE_KEY_def)
  show ?thesis
    by (simp add: sample_log_def sm_apply_def apply_at_def cmd_decode_encode [OF sample_ok(1)] cmd_decode_encode [OF sample_ok(2)]
        sample_step1)
      (simp add: sample_step sample_first_def fresh_group_def ne write_ok_def)
qed

lemma sample_log_weight: "log_weight sample_log = 7"
proof -
  have "cmd_weight (DataRangeCmd None range_sample) = 3" "cmd_weight (sample_write version) = 2" for version
    by (simp_all add: cmd_weight_def sample_write_def)
  then show ?thesis
    by (simp add: log_weight_def sample_log_def entry_weight_def cmd_decode_encode [OF sample_ok(1)]
        cmd_decode_encode [OF sample_ok(2)])
qed

lemma log_weight_sample: "log_weight sample_log < 2 ^ 64"
  by (simp add: sample_log_weight)

interpretation roomy_engine: versioned_engine om_bbtree om_brep 0
  by unfold_locales (simp add: REGISTRY_SHARDS_def)

lemma vm_store_roomy: "writes_succeed (vm_store om_bbtree 0) (vm_rep om_brep)"
  unfolding writes_succeed_def
proof (intro allI impI notI)
  fix n s a b at s' e
  assume rep: "vm_rep om_brep n s a" "kv_advances at a" and w: "as_write_applied (vm_store om_bbtree 0) s b at = (s', Inl e)"
  then have w': "vm_write_applied om_bbtree s b at = (s', Inl e)" by (simp add: vm_store_def)
  then have "settled (Inl e)"
    by (auto simp: vm_write_applied_def intro: vm_apply_roomy [of om_bbtree s b "Some at" s'] simp: om_bbtree_def)
  with w' roomy_engine.vm_advances [OF rep] show False by (auto simp: settled_def)
qed

theorem replicas_agree_witness:
  "\<exists>m v m' v' rs. open_group (mem_store om_rpds) sample_ident (mem_new om_rpds) = Inr m
     \<and> open_group (vm_store om_bbtree 0) sample_ident (vm_new om_bbtree) = Inr v
     \<and> drive_apply (\<lambda>_. 0) flat_json (vm_store om_bbtree 0) sample_log v = (v', Inr rs)
     \<and> drive_apply (\<lambda>_. 0) flat_json (mem_store om_rpds) sample_log m = (m', Inr rs)
     \<and> map ar_outcome rs = [Plain, Plain, FenceRejected 100]
     \<and> sm_get (mem_store om_rpds) m' Default sample_key = Inr (Some [7])"
proof -
  have id: "identity_ok sample_ident" by (simp add: sample_ident_def range_identity_def identity_ok_def range_sample_def)
  let ?m = "fresh_group (mem_store om_rpds) sample_ident (mem_new om_rpds)"
  let ?v = "fresh_group (vm_store om_bbtree 0) sample_ident (vm_new om_bbtree)"
  have m: "open_group (mem_store om_rpds) sample_ident (mem_new om_rpds) = Inr ?m"
    using sorted_list.mem_open [OF id] by (simp add: mem_store_def mem_applied_position_def)
  have v: "open_group (vm_store om_bbtree 0) sample_ident (vm_new om_bbtree) = Inr ?v"
    using roomy_engine.vm_open [OF id] by (simp add: vm_store_def vm_applied_position_def)
  obtain a rs where a: "drive_apply (\<lambda>_. 0) flat_json kv_store sample_log (fresh_group kv_store sample_ident kv_empty) = (a, Inr rs)"
    "map ar_outcome rs = [Plain, Plain, FenceRejected 100]" "kv_get (sm_engine a) Default sample_key = Some [7]"
    using sample_log_abstract [of "\<lambda>_. 0" flat_json] by (elim exE conjE) (rule that)
  obtain v' rv where dv: "drive_apply (\<lambda>_. 0) flat_json (vm_store om_bbtree 0) sample_log ?v = (v', rv)" by fastforce
  have vs: "rv = Inr rs" "sm_sim (vm_store om_bbtree 0) (vm_rep om_brep) (log_weight sample_log) v' a"
    using roomy_engine.vm_fresh_drive [OF log_weight_sample dv a(1)] vm_store_roomy by auto
  have "(0 :: nat) < REGISTRY_SHARDS" by (simp add: REGISTRY_SHARDS_def)
  from replicas_agree [OF sorted_list.rpds_laws_axioms roomy.bbtree_laws_axioms this id log_weight_sample m v dv [unfolded vs(1)]]
  obtain m' where "drive_apply (\<lambda>_. 0) flat_json (mem_store om_rpds) sample_log ?m = (m', Inr rs)"
    "\<forall>cf key. sm_get (mem_store om_rpds) m' cf key = sm_get (vm_store om_bbtree 0) v' cf key"
    by (elim exE conjE) (rule that)
  with m v dv vs a roomy_engine.vm_sim_get [OF vs(2), of Default sample_key] show ?thesis
    by (intro exI [of _ ?m], intro exI [of _ ?v], intro exI [of _ m'], intro exI [of _ v'], intro exI [of _ rs]) simp
qed

end
