(* ===== verification/RawGroup.thy ===== *)
theory RawGroup
  imports ApplyContract
begin

text \<open>
  The grouped apply path of \<open>crates/raft/src/state_machine/raw_group.rs\<close>. A group plans a run of raw
  writes against one view of the engine and persists them as one batch. It is the optimised form
  of applying its entries one at a time, which is what the theorems of this theory state.
\<close>

section \<open>Raw batches\<close>

text \<open>A batch that touches raw keys only leaves the range record and the clock record alone.\<close>

definition raw_mutation :: "mutation \<Rightarrow> bool" where
  "raw_mutation m \<longleftrightarrow> mutation_cf m = Default \<and> raw_key 0 (mutation_key m)"

lemma decode_reserved [simp]:
  "decode_key RANGE_KEY = Inr \<lparr>dk_mode = System, dk_keyspace = 0, dk_user_key = drop 4 RANGE_KEY\<rparr>"
  "decode_key CLOCK_KEY = Inr \<lparr>dk_mode = System, dk_keyspace = 0, dk_user_key = drop 4 CLOCK_KEY\<rparr>"
  "decode_key COMPACTION_CONFIRMED_KEY =
     Inr \<lparr>dk_mode = System, dk_keyspace = 0, dk_user_key = drop 4 COMPACTION_CONFIRMED_KEY\<rparr>"
  by (simp_all add: decode_key_def RANGE_KEY_def CLOCK_KEY_def COMPACTION_CONFIRMED_KEY_def from_byte_def)

lemma raw_key_not_reserved: "raw_key cf key \<Longrightarrow> key \<noteq> RANGE_KEY \<and> key \<noteq> CLOCK_KEY \<and> \<not> reserved cf key"
  by (auto simp: raw_key_def reserved_def)

lemma raw_key_cf: "raw_key cf key \<Longrightarrow> cf = 0"
  by (simp add: raw_key_def)

lemma raw_op_mutation: "(let (cf, key) = kv_op_target op in raw_key cf key) \<Longrightarrow> raw_mutation (op_mutation op)"
  by (cases op) (auto simp: raw_mutation_def raft_cf_from_code_def dest: raw_key_cf)

lemma raw_lower: "raw_ops ops \<Longrightarrow> list_all raw_mutation (lower_ops [] ops)"
  unfolding raw_ops_def lower_ops_map by (induction ops) (simp_all add: raw_op_mutation del: Let_def)

lemma raw_batch_reads:
  assumes "kv_ok a" "list_all raw_mutation b" "\<not> raw_key 0 key"
  shows "kv_get (kv_apply b at a) Default key = kv_get a Default key"
proof -
  have "mutation_key m \<noteq> key" if "m \<in> set b" for m
    using assms(2,3) that by (auto simp: list_all_iff raw_mutation_def)
  then show ?thesis using assms(1) by (simp add: batch_value_untouched)
qed

section \<open>Independent adjudicators\<close>

text \<open>
  What \<open>independent_of_raw_writes\<close> asserts: a verdict does not change when a raw batch is written.
\<close>

locale independent_adjudicator =
  fixes adj :: "kv_state adjudicator"
  assumes verdict_stable: "kv_ok a \<Longrightarrow> list_all raw_mutation b \<Longrightarrow>
    adj_is_fresh_write adj (kv_apply b at a) fence inner = adj_is_fresh_write adj a fence inner"

interpretation range_fence: independent_adjudicator "range_fence kv_store ident"
proof
  fix a b at fence inner
  assume "kv_ok a" "list_all raw_mutation b"
  then have "kv_get (kv_apply b at a) Default RANGE_KEY = kv_get a Default RANGE_KEY"
    by (rule raw_batch_reads) (simp add: raw_key_def)
  then show "adj_is_fresh_write (range_fence kv_store ident) (kv_apply b at a) fence inner =
      adj_is_fresh_write (range_fence kv_store ident) a fence inner"
    by (simp add: range_fence_def rf_is_fresh_write_def rf_current_def read_as_def del: kv_get_apply)
qed

section \<open>Grouped and single application\<close>

text \<open>The entries one at a time.\<close>

fun apply_seq ::
  "(bytes \<Rightarrow> digest) \<Rightarrow> json_ops \<Rightarrow> 's apply_store \<Rightarrow> (applied_position \<times> command) list \<Rightarrow> 's state_machine
    \<Rightarrow> 's state_machine \<times> apply_result list result" where
  "apply_seq sha256 J S [] sm = (sm, Inr [])"
| "apply_seq sha256 J S ((at, cmd) # cmds) sm =
     (case apply_unobserved sha256 J S at cmd sm of
        (sm1, Inl e) \<Rightarrow> (sm1, Inl e)
      | (sm1, Inr r) \<Rightarrow>
          (case apply_seq sha256 J S cmds sm1 of
             (sm2, Inl e) \<Rightarrow> (sm2, Inl e)
           | (sm2, Inr rs) \<Rightarrow> (sm2, Inr (r # rs))))"

text \<open>The planning of one entry in a group is its plan in single application.\<close>

lemma raw_guard:
  assumes "\<not> sm_ttl_enabled sm" "legacy_ops cmd = Some ops" "raw_ops ops"
  shows "guard_legacy_ttl cmd sm = Inr None"
proof -
  have "\<not> (let (cf, key) = kv_op_target op in reserved cf key)" if "op \<in> set ops" for op
    using assms(3) that raw_key_not_reserved by (fastforce simp: raw_ops_def list_all_iff case_prod_beta Let_def)
  then show ?thesis using assms(1,2) by (simp add: guard_legacy_ttl_def list_ex_iff)
qed

lemma can_group_cases:
  assumes "can_group_raw cmd sm"
  obtains (put) cf key val where "cmd = PutCmd cf key val" "raw_ops [KvPut cf key val]"
    | (wr) ops where "cmd = WriteCmd ops" "raw_ops ops"
    | (fenced) fence ops where "cmd = Fenced fence (FencedWrite ops)" "raw_ops ops"
proof (cases cmd)
  case (Fenced fence inner)
  with assms fenced show ?thesis by (cases inner) (auto simp: can_group_raw_def split: if_splits)
qed (use assms put wr in \<open>auto simp: can_group_raw_def raw_ops_def split: if_splits\<close>)

lemma group_entry_plan:
  assumes "can_group_raw cmd sm" "group_entry at cmd sm = Inr (b, res)"
  shows "plan_command sha256 J S at cmd sm = Inr (plan_of b (ar_outcome res))
    \<and> res = \<lparr>ar_applied_index = ap_index at, ar_response = None, ar_outcome = ar_outcome res\<rparr>
    \<and> list_all raw_mutation b"
proof -
  have ttl: "\<not> sm_ttl_enabled sm" using assms(1) by (auto simp: can_group_raw_def split: if_splits)
  from assms(1) show ?thesis
  proof (cases rule: can_group_cases)
    case (put cf key val)
    have "lower_ops [] [KvPut cf key val] = batch_put [] (raft_cf_from_code cf) key val"
      by (simp add: lower_ops_def)
    with put assms(2) raw_lower [OF put(2)] raw_guard [OF ttl _ put(2), of cmd] show ?thesis
      by (auto simp: group_entry_def plan_command_def write_ok_def legacy_ops_def)
  next
    case (wr ops)
    with assms(2) raw_lower [OF wr(2)] raw_guard [OF ttl _ wr(2), of cmd] show ?thesis
      by (auto simp: group_entry_def plan_command_def write_ok_def legacy_ops_def)
  next
    case (fenced fence ops)
    from assms(2) fenced obtain a fresh where a: "sm_adjudicator sm = Some a"
      and fresh: "adj_is_fresh_write a (sm_engine sm) fence (FencedWrite ops) = Inr fresh"
      by (cases "sm_adjudicator sm") (auto simp: group_entry_def bind_res_Inr_iff)
    have "guard_legacy_ttl cmd sm = Inr None"
      using raw_guard [OF ttl _ fenced(2), of cmd] fenced(1) by (simp add: legacy_ops_def)
    then show ?thesis
      using assms(2) fenced(1) a fresh raw_lower [OF fenced(2)]
      by (cases fresh) (auto simp: group_entry_def plan_command_def plan_fenced_def write_ok_def)
  qed
qed

text \<open>Writing two batches in turn is writing their concatenation at the later position.\<close>

lemma kv_apply_apply: "kv_apply b2 at2 (kv_apply b1 at1 a) = kv_apply (b1 @ b2) at2 a"
  by (simp add: kv_apply_def kv_write_def)

lemma can_group_update [simp]: "can_group_raw cmd (sm\<lparr>sm_engine := e, sm_applied := i\<rparr>) = can_group_raw cmd sm"
  by (cases cmd) (simp_all add: can_group_raw_def split: fenced_inner.splits)

lemma group_seq:
  assumes "group_plan sm cmds i t b = Inr (b', rs)" "kv_ok (sm_engine sm)" "list_all raw_mutation b"
    and "\<And>a. sm_adjudicator sm = Some a \<Longrightarrow> adj_independent_of_raw_writes a \<Longrightarrow> independent_adjudicator a"
    and "mid = sm\<lparr>sm_engine := eng, sm_applied := i\<rparr>" "in_step mid"
    and "b = [] \<and> eng = sm_engine sm \<or> (\<exists>p. eng = kv_apply b p (sm_engine sm))"
  shows "apply_seq sha256 J kv_store cmds mid =
    (case cmds of [] \<Rightarrow> (mid, Inr [])
     | _ \<Rightarrow> (sm\<lparr>sm_engine := kv_apply b' (fst (last cmds)) (sm_engine sm), sm_applied := ap_index (fst (last cmds))\<rparr>, Inr rs))"
  using assms(1,3,5-7)
proof (induction cmds arbitrary: i t b rs mid eng)
  case Nil
  then show ?case by simp
next
  case (Cons x cmds)
  obtain at cmd where x: "x = (at, cmd)" by fastforce
  from Cons.prems(1) x obtain bn res rs' where idx: "i < ap_index at" and can: "can_group_raw cmd sm"
    and ge: "group_entry at cmd sm = Inr (bn, res)"
    and gp: "group_plan sm cmds (ap_index at) (ap_term at) (b @ bn) = Inr (b', rs')" and rs: "rs = res # rs'"
    by (auto simp: bind_res_Inr_iff batch_append_def not_le split: if_splits)
  have stable: "adj_is_fresh_write a eng fence inner = adj_is_fresh_write a (sm_engine sm) fence inner"
    if "sm_adjudicator sm = Some a" "adj_independent_of_raw_writes a" for a fence inner
    using Cons.prems(2,5) independent_adjudicator.verdict_stable [OF assms(4) [OF that] assms(2)] by auto
  have can1: "can_group_raw cmd mid" using can Cons.prems(3) by simp
  have ge1: "group_entry at cmd mid = Inr (bn, res)"
    using ge Cons.prems(3) can stable
    by (cases cmd) (auto simp: group_entry_def can_group_raw_def split: option.splits if_splits fenced_inner.splits)
  note plan = group_entry_plan [OF can1 ge1, of sha256 J kv_store]
  have adv: "kv_advances at (sm_engine mid)"
    using in_step_advances [OF Cons.prems(4), of at] Cons.prems(3) idx by simp
  let ?eng = "kv_apply (b @ bn) at (sm_engine sm)"
  let ?sm2 = "sm\<lparr>sm_engine := ?eng, sm_applied := ap_index at\<rparr>"
  have eng: "kv_apply bn at eng = ?eng" using Cons.prems(5) by (auto simp: kv_apply_apply)
  have ttl: "\<not> sm_ttl_enabled sm" using can by (auto simp: can_group_raw_def split: if_splits)
  have "apply_unobserved sha256 J kv_store at cmd mid = (?sm2, Inr res)"
    using plan adv idx Cons.prems(3) ttl eng by (simp add: apply_unobserved_def sm_commit_def plan_of_def)
  moreover have "apply_seq sha256 J kv_store cmds ?sm2 =
      (case cmds of [] \<Rightarrow> (?sm2, Inr [])
       | _ \<Rightarrow> (sm\<lparr>sm_engine := kv_apply b' (fst (last cmds)) (sm_engine sm), sm_applied := ap_index (fst (last cmds))\<rparr>, Inr rs'))"
    using Cons.prems(2) plan by (intro Cons.IH [OF gp]) (auto simp: in_step_def kv_apply_def)
  ultimately show ?case using gp by (cases cmds) (auto simp: x rs)
qed

lemma group_last_advances: "group_plan sm cmds i t b = Inr (b', rs) \<Longrightarrow> cmds \<noteq> [] \<Longrightarrow> i < ap_index (fst (last cmds))"
proof (induction cmds arbitrary: i t b rs)
  case (Cons x cmds)
  from Cons.prems(1) obtain bn rs' where "i < ap_index (fst x)"
    "group_plan sm cmds (ap_index (fst x)) (ap_term (fst x)) bn = Inr (b', rs')"
    by (cases x) (auto simp: bind_res_Inr_iff not_le split: if_splits)
  with Cons.IH [of "ap_index (fst x)" "ap_term (fst x)" bn rs'] show ?case by (cases "cmds = []") auto
qed simp

lemma raw_group_apply:
  assumes "kv_ok (sm_engine sm)" "in_step sm"
    and "sm_adjudicator sm = None \<or> sm_adjudicator sm = Some (range_fence kv_store ident)"
    and "apply_raw_group kv_store cmds sm = (sm', r)"
  shows "(\<forall>rs. r = Inr rs \<longrightarrow> apply_seq sha256 J kv_store cmds sm = (sm', Inr rs))
    \<and> (\<forall>e. r = Inl e \<longrightarrow> sm' = sm)"
proof -
  have adj: "independent_adjudicator a" if "sm_adjudicator sm = Some a" for a
    using assms(3) that range_fence.independent_adjudicator_axioms by auto
  let ?t = "case kv_applied (sm_engine sm) of None \<Rightarrow> 0 | Some p \<Rightarrow> ap_term p"
  show ?thesis
  proof (cases "cmds = [] \<or> MAX_RAW_GROUP_ENTRIES < length cmds")
    case True
    with assms(4) show ?thesis by (auto simp: apply_raw_group_def)
  next
    case False
    show ?thesis
    proof (cases "group_plan sm cmds (sm_applied sm) ?t []")
      case (Inl e)
      with assms(4) False show ?thesis by (auto simp: apply_raw_group_def split: option.splits)
    next
      case (Inr p)
      obtain b rs where p: "p = (b, rs)" by fastforce
      have seq: "apply_seq sha256 J kv_store cmds sm =
          (sm\<lparr>sm_engine := kv_apply b (fst (last cmds)) (sm_engine sm), sm_applied := ap_index (fst (last cmds))\<rparr>, Inr rs)"
        using group_seq [where mid = sm and eng = "sm_engine sm", OF Inr [unfolded p] assms(1) _ adj]
          assms(2) False
        by (cases cmds) simp_all
      have "kv_advances (fst (last cmds)) (sm_engine sm)"
        using group_last_advances [OF Inr [unfolded p]] False assms(2) by (intro in_step_advances) simp_all
      with seq assms(4) False Inr p show ?thesis
        by (auto simp: apply_raw_group_def Let_def split: option.splits)
    qed
  qed
qed

text \<open>
  C10. Grouped apply is the optimised form of single apply. When a group of raw entries is accepted, applying
  its entries one at a time gives the same receipts, the same contents and the same applied
  position, although the group planned every fence against the view it started from and wrote once.
  When a group is refused nothing has changed.
\<close>

theorem raw_group_equals_single:
  assumes "kv_ok (sm_engine sm)" "in_step sm"
    and "sm_adjudicator sm = None \<or> sm_adjudicator sm = Some (range_fence kv_store ident)"
    and "apply_raw_group kv_store cmds sm = (sm', r)"
  shows "(\<forall>rs. r = Inr rs \<longrightarrow> apply_seq sha256 J kv_store cmds sm = (sm', Inr rs))
    \<and> (\<forall>e. r = Inl e \<longrightarrow> sm' = sm)"
  using raw_group_apply [OF assms] by blast

definition group_sample :: "(applied_position \<times> command) list" where
  "group_sample = [(\<lparr>ap_term = 1, ap_index = 2\<rparr>, sample_write 1), (\<lparr>ap_term = 1, ap_index = 3\<rparr>, sample_write 2)]"

lemma sample_first_ok: "kv_ok (sm_engine sample_first)" "in_step sample_first"
    "sm_adjudicator sample_first = Some (range_fence kv_store sample_ident)"
  by (simp_all add: sample_first_def fresh_group_def in_step_def)

lemma sample_can_group: "can_group_raw (sample_write version) sample_first"
  by (simp add: can_group_raw_def sample_write_def sample_first_def fresh_group_def range_fence_def raw_ops_def raw_key_def
      sample_key_def decode_key_def from_byte_def KEYSPACE_SYSTEM_def)

lemma sample_group_entry:
  "group_entry at (sample_write version) sample_first =
     Inr (if version = 1 then ([Put Default sample_key [7]], write_ok (ap_index at))
          else ([], \<lparr>ar_applied_index = ap_index at, ar_response = None, ar_outcome = FenceRejected 100\<rparr>))"
proof -
  have "rf_current kv_store sample_ident (sm_engine sample_first) = Inr (Some range_sample)"
    by (simp add: rf_current_def read_as_def sample_range sample_ident_def sample_first_def fresh_group_def)
  moreover have "rf_matches range_sample \<lparr>rf_region_id = 100, rf_conf_ver = 1, rf_version = version\<rparr> \<longleftrightarrow> version = 1"
    by (auto simp: rf_matches_def range_sample_def)
  ultimately show ?thesis
    using sample_in_range sample_first_ok(3)
    by (simp add: group_entry_def sample_write_def range_fence_def rf_is_fresh_write_def lower_ops_map raft_cf_from_code_def)
qed

lemma group_sample_run:
  "\<exists>sm'. apply_raw_group kv_store group_sample sample_first =
     (sm', Inr [write_ok 2, \<lparr>ar_applied_index = 3, ar_response = None, ar_outcome = FenceRejected 100\<rparr>])"
  by (simp add: apply_raw_group_def group_sample_def MAX_RAW_GROUP_ENTRIES_def sample_can_group sample_group_entry Let_def)
    (simp add: sample_first_def fresh_group_def batch_append_def word_le_nat_alt)

theorem raw_group_equals_single_witness:
  "\<exists>sm'. apply_seq (\<lambda>_. 0) flat_json kv_store group_sample sample_first =
     (sm', Inr [write_ok 2, \<lparr>ar_applied_index = 3, ar_response = None, ar_outcome = FenceRejected 100\<rparr>])"
proof -
  obtain sm' where g: "apply_raw_group kv_store group_sample sample_first =
      (sm', Inr [write_ok 2, \<lparr>ar_applied_index = 3, ar_response = None, ar_outcome = FenceRejected 100\<rparr>])"
    using group_sample_run by (elim exE) (rule that)
  show ?thesis
    using raw_group_equals_single [OF sample_first_ok(1,2) disjI2 [OF sample_first_ok(3)] g, of "\<lambda>_. 0" flat_json]
    by (intro exI [of _ sm']) simp
qed

end
