(* ===== verification/GroupLog.thy ===== *)
theory GroupLog
  imports RawGroup
begin

text \<open>
  The invariant of a data group's state machine and what each kind of entry may touch. A data
  group's log holds every command but the unfenced writes (\<open>group_cmd\<close>). The invariant ties the
  cached fields of the machine to the engine: the applied index to the engine's position, the TTL
  flag to the clock record, the stored range to the group's identity.
\<close>

section \<open>Invariant\<close>

definition group_cmd :: "command \<Rightarrow> bool" where
  "group_cmd cmd = (case cmd of PutCmd cf key val \<Rightarrow> False | CatalogTxn ops \<Rightarrow> False | WriteCmd ops \<Rightarrow> False | _ \<Rightarrow> True)"

definition stored_range :: "kv_state \<Rightarrow> data_range option \<Rightarrow> bool" where
  "stored_range a r \<longleftrightarrow>
     (case r of None \<Rightarrow> kv_get a Default RANGE_KEY = None
      | Some r \<Rightarrow> kv_get a Default RANGE_KEY = Some (dr_encode r) \<and> dr_validate r = Inr ())"

definition stored_clock :: "kv_state \<Rightarrow> clock_watermark option \<Rightarrow> bool" where
  "stored_clock a w \<longleftrightarrow> kv_get a Default CLOCK_KEY = map_option wm_encode w"

definition group_inv :: "group_identity \<Rightarrow> data_range option \<Rightarrow> clock_watermark option \<Rightarrow> kv_state state_machine \<Rightarrow> bool" where
  "group_inv ident r w sm \<longleftrightarrow>
     kv_ok (sm_engine sm) \<and> in_step sm \<and> identity_ok ident \<and> sm_data_identity sm = Some ident
     \<and> sm_adjudicator sm = Some (range_fence kv_store ident)
     \<and> stored_range (sm_engine sm) r \<and> (\<forall>r'. r = Some r' \<longrightarrow> range_identity r' = ident)
     \<and> stored_clock (sm_engine sm) w \<and> (sm_ttl_enabled sm \<longleftrightarrow> w \<noteq> None)"

lemma read_range: "stored_range a r \<Longrightarrow> read_as kv_store a Default RANGE_KEY dr_decode = Inr r"
  by (auto simp: stored_range_def read_as_def dr_decode_encode split: option.splits)

lemma wm_decode_encode: "wm_decode (wm_encode w) = Inr w"
  by (simp add: wm_codec)

lemma read_clock: "stored_clock a w \<Longrightarrow> read_as kv_store a Default CLOCK_KEY wm_decode = Inr w"
  by (cases w) (auto simp: stored_clock_def read_as_def wm_decode_encode)

lemma group_current: "group_inv ident r w sm \<Longrightarrow> rf_current kv_store ident (sm_engine sm) = Inr r"
  by (auto simp: group_inv_def rf_current_def read_range split: option.splits)

section \<open>What a plan touches\<close>

text \<open>The physical form of a raw key.\<close>

definition phys :: "keyspace_id \<Rightarrow> bytes \<Rightarrow> bytes" where
  "phys ks user = as_byte Raw # id_bytes ks @ user"

lemma encode_raw: "encode_key Raw ks user = (if ks \<le> KEYSPACE_MAX then Inr (phys ks user) else Inl (KeyspaceIdOutOfRange ks))"
  by (simp add: encode_key_eq phys_def)

lemma decode_phys: "ks \<le> KEYSPACE_MAX \<Longrightarrow> decode_key (phys ks user) = Inr \<lparr>dk_mode = Raw, dk_keyspace = ks, dk_user_key = user\<rparr>"
  by (simp add: decode_key_iff phys_def)

lemma phys_inject: "ks \<le> KEYSPACE_MAX \<Longrightarrow> phys ks u = phys ks u' \<longleftrightarrow> u = u'"
  by (simp add: phys_def)

text \<open>The mutations of a TTL write: each key in the data family and its expiry in the write family.\<close>

fun ttl_pair :: "keyspace_id \<Rightarrow> expiry_record option \<Rightarrow> raw_ttl_mutation \<Rightarrow> write_batch" where
  "ttl_pair ks expiry (TtlPut key val) =
     [Put Default (phys ks key) val,
      (case expiry of Some e \<Rightarrow> Put Write (phys ks key) (er_encode e) | None \<Rightarrow> Delete Write (phys ks key))]"
| "ttl_pair ks expiry (TtlDelete key) = [Delete Default (phys ks key), Delete Write (phys ks key)]"

lemma ttl_mutations_eq:
  "ttl_mutations ks expiry ms b = Inr b' \<Longrightarrow> b' = b @ concat (map (ttl_pair ks expiry) ms) \<and> (ms \<noteq> [] \<longrightarrow> ks \<le> KEYSPACE_MAX)"
proof (induction ms arbitrary: b)
  case (Cons m ms)
  then show ?case
    by (cases m; cases expiry) (fastforce simp: encode_raw batch_put_def batch_delete_def Let_def split: if_splits)+
qed simp

lemma ttl_mutations_ok:
  "ks \<le> KEYSPACE_MAX \<Longrightarrow> ttl_mutations ks expiry ms b = Inr (b @ concat (map (ttl_pair ks expiry) ms))"
proof (induction ms arbitrary: b)
  case (Cons m ms)
  then show ?case
    by (cases m; cases expiry) (simp_all add: encode_raw batch_put_def batch_delete_def)
qed simp

lemma ttl_cleanup_touch:
  assumes "ttl_cleanup kv_store a ks clock cs b = Inr b'" "m \<in> set b'"
  shows "m \<in> set b \<or> (\<exists>user obs. (user, obs) \<in> set cs \<and> ks \<le> KEYSPACE_MAX
    \<and> (m = Delete Default (phys ks user) \<or> m = Delete Write (phys ks user))
    \<and> kv_get a Write (phys ks user) = Some (er_encode obs) \<and> expired_at obs clock)"
  using assms
proof (induction cs arbitrary: b)
  case (Cons c cs)
  obtain user obs where c: "c = (user, obs)" by fastforce
  from Cons.prems(1) obtain cur where ks: "ks \<le> KEYSPACE_MAX"
    and rd: "read_as kv_store a Write (phys ks user) er_decode = Inr cur"
    and rest: "ttl_cleanup kv_store a ks clock cs
      (if permits_cleanup obs cur clock then b @ [Delete Default (phys ks user), Delete Write (phys ks user)] else b) = Inr b'"
    by (auto simp: c encode_raw bind_res_Inr_iff batch_delete_def split: if_splits)
  have del: "permits_cleanup obs cur clock \<Longrightarrow> kv_get a Write (phys ks user) = Some (er_encode obs) \<and> expired_at obs clock"
    using rd by (auto simp: permits_cleanup_def read_as_def bind_res_Inr_iff er_codec split: option.splits)
  from Cons.IH [OF rest Cons.prems(2)] del ks c show ?case
    by (cases "permits_cleanup obs cur clock") auto
qed simp

text \<open>
  What an entry of a group's log may write: TTL entries touch raw keys named by the command and the
  clock, ownership entries the range record, confirmations the floor record, manifest entries the
  two manifest keys of their region, fenced writes raw keys of the stored range.
\<close>

definition manifest_key :: "bytes \<Rightarrow> bool" where
  "manifest_key key \<longleftrightarrow> (\<exists>region. key = manifest_pair_key region \<or> (\<exists>g. key = manifest_gen_key region g))"

definition range_key_of :: "data_range option \<Rightarrow> bytes \<Rightarrow> bool" where
  "range_key_of r key \<longleftrightarrow>
     (\<exists>range user. r = Some range \<and> \<not> dr_sealed range \<and> decode_key key =
        Inr \<lparr>dk_mode = Raw, dk_keyspace = dr_keyspace range, dk_user_key = user\<rparr> \<and> dr_contains range user)"

lemma manifest_keys: "manifest_key (manifest_pair_key region)" "manifest_key (manifest_gen_key region g)"
  unfolding manifest_key_def by blast+

lemma manifest_not_reserved:
  "manifest_key key \<Longrightarrow> key \<noteq> RANGE_KEY \<and> key \<noteq> CLOCK_KEY \<and> key \<noteq> COMPACTION_CONFIRMED_KEY \<and> decode_key key \<noteq> Inr d"
  by (auto simp: manifest_key_def manifest_pair_key_def manifest_gen_key_def RANGE_KEY_def CLOCK_KEY_def
      COMPACTION_CONFIRMED_KEY_def decode_key_def from_byte_def)

lemma range_key_not_reserved:
  "range_key_of r key \<Longrightarrow> key \<noteq> RANGE_KEY \<and> key \<noteq> CLOCK_KEY \<and> key \<noteq> COMPACTION_CONFIRMED_KEY \<and> \<not> manifest_key key"
  using manifest_not_reserved [of key] by (auto simp: range_key_of_def)

lemma effect_touch:
  assumes "ttl_action_effect kv_store a at c w = Inr (clock, b)"
  shows "w \<le> clock" and "m \<in> set b \<Longrightarrow> rt_keyspace c \<le> KEYSPACE_MAX \<and>
    (\<exists>user\<in>set (rt_keys c). mutation_key m = phys (rt_keyspace c) user)"
proof -
  show "w \<le> clock"
    using assms by (auto simp: ttl_action_effect_def bind_res_Inr_iff wm_merge_def split: raw_ttl_action.splits)
  assume m: "m \<in> set b"
  show "rt_keyspace c \<le> KEYSPACE_MAX \<and> (\<exists>user\<in>set (rt_keys c). mutation_key m = phys (rt_keyspace c) user)"
  proof (cases "rt_action c")
    case (TtlWrite pl ms)
    with assms obtain e where e: "ttl_mutations (rt_keyspace c) e ms [] = Inr b"
      by (auto simp: ttl_action_effect_def bind_res_Inr_iff)
    from ttl_mutations_eq [OF e] m obtain x where x: "x \<in> set ms" "m \<in> set (ttl_pair (rt_keyspace c) e x)"
      "rt_keyspace c \<le> KEYSPACE_MAX"
      by auto
    moreover have "mutation_key m = phys (rt_keyspace c) (ttl_mutation_key x)"
      using x(2) by (cases x) (auto split: option.splits)
    ultimately show ?thesis using TtlWrite by (auto simp: rt_keys_def)
  next
    case (Cleanup cs)
    with assms have "ttl_cleanup kv_store a (rt_keyspace c) w cs [] = Inr b"
      by (auto simp: ttl_action_effect_def bind_res_Inr_iff)
    from ttl_cleanup_touch [OF this m] show ?thesis using Cleanup by (force simp: rt_keys_def)
  qed (use assms m in \<open>auto simp: ttl_action_effect_def\<close>)
qed

definition ttl_accepts :: "raw_ttl_command \<Rightarrow> data_range \<Rightarrow> bool" where
  "ttl_accepts c rg \<longleftrightarrow>
     \<not> dr_sealed rg \<and> dr_keyspace rg = rt_keyspace c \<and> dr_region rg = rf_region_id (rt_fence c)
     \<and> dr_conf_ver rg = rf_conf_ver (rt_fence c) \<and> dr_version rg = rf_version (rt_fence c)
     \<and> list_all (dr_contains rg) (rt_keys c)"

lemma plan_ttl_cases:
  assumes "group_inv ident r w sm" "plan_raw_ttl kv_store at c sm = Inr p"
  obtains (refused) "pl_batch p = []" "\<not> pl_ttl p" "pl_outcome p \<noteq> Plain"
    | (accepted) rg clock b where "r = Some rg" "ttl_accepts c rg" "w \<noteq> None \<or> is_enable (rt_action c)"
      "ttl_action_effect kv_store (sm_engine sm) at c (case w of None \<Rightarrow> 0 | Some x \<Rightarrow> x) = Inr (clock, b)"
      "p = \<lparr>pl_batch = (if w \<noteq> Some clock then b @ [Put Default CLOCK_KEY (wm_encode clock)] else b),
            pl_outcome = Plain, pl_ttl = True\<rparr>"
proof -
  have inv: "sm_data_identity sm = Some ident" "read_as kv_store (sm_engine sm) Default RANGE_KEY dr_decode = Inr r"
    "read_as kv_store (sm_engine sm) Default CLOCK_KEY wm_decode = Inr w" "sm_ttl_enabled sm \<longleftrightarrow> w \<noteq> None"
    "\<And>r'. r = Some r' \<Longrightarrow> range_identity r' = ident"
    using assms(1) by (auto simp: group_inv_def read_range read_clock)
  have own: "\<not> (case r of None \<Rightarrow> False | Some r' \<Rightarrow> range_identity r' \<noteq> ident)"
    using inv(5) by (simp split: option.splits)
  let ?scope = "(rt_root c, rf_region_id (rt_fence c), rt_creation c) \<noteq> ident
    \<or> (case r of None \<Rightarrow> False | Some r' \<Rightarrow> dr_keyspace r' \<noteq> rt_keyspace c)"
  let ?fresh = "case r of None \<Rightarrow> False
    | Some r' \<Rightarrow> \<not> dr_sealed r' \<and> dr_conf_ver r' = rf_conf_ver (rt_fence c)
        \<and> dr_version r' = rf_version (rt_fence c) \<and> list_all (dr_contains r') (rt_keys c)"
  note plan = assms(2) [unfolded plan_raw_ttl_def inv(1) inv(2) option.case bind_res_simps if_not_P [OF own] Let_def]
  show ?thesis
  proof (cases "?scope \<or> \<not> ?fresh \<or> (w = None \<and> \<not> is_enable (rt_action c))")
    case True
    then show ?thesis
      using plan inv(3,4) refused
      by (auto simp: ttl_refuse_def plan_of_def simp del: not_None_eq split: if_splits)
  next
    case False
    then obtain rg where rg: "r = Some rg" by (cases r) auto
    have "rf_region_id (rt_fence c) = dr_region rg"
      using False inv(5) [OF rg] by (auto simp: range_identity_def)
    then have acc: "ttl_accepts c rg" using False rg by (auto simp: ttl_accepts_def)
    have "bind_res (ttl_action_effect kv_store (sm_engine sm) at c (case w of None \<Rightarrow> 0 | Some x \<Rightarrow> x)) (\<lambda>(clock, b).
        Inr \<lparr>pl_batch = (if w \<noteq> Some clock then batch_put b Default CLOCK_KEY (wm_encode clock) else b),
             pl_outcome = Plain, pl_ttl = True\<rparr>) = Inr p"
      using plan False inv(3,4) by (simp split: if_splits)
    then obtain clock b where "ttl_action_effect kv_store (sm_engine sm) at c (case w of None \<Rightarrow> 0 | Some x \<Rightarrow> x) = Inr (clock, b)"
      "p = \<lparr>pl_batch = (if w \<noteq> Some clock then b @ [Put Default CLOCK_KEY (wm_encode clock)] else b),
            pl_outcome = Plain, pl_ttl = True\<rparr>"
      by (auto simp: bind_res_Inr_iff batch_put_def)
    with rg acc False show ?thesis by (intro accepted [of rg clock b]) auto
  qed
qed

definition range_step :: "data_range option \<Rightarrow> data_range option \<Rightarrow> bool" where
  "range_step r r' \<longleftrightarrow> r' = r \<or> (r = None \<and> (\<exists>n. r' = Some n \<and> \<not> dr_sealed n \<and> dr_conf_ver n = 1 \<and> dr_version n = 1))
     \<or> (\<exists>c n. r = Some c \<and> r' = Some n \<and> dr_may_follow n c)"

definition clock_step :: "clock_watermark option \<Rightarrow> clock_watermark option \<Rightarrow> bool" where
  "clock_step w w' \<longleftrightarrow> (\<forall>x. w = Some x \<longrightarrow> (\<exists>y. w' = Some y \<and> x \<le> y))"

lemma plan_range_cases:
  assumes "group_inv ident r w sm" "plan_data_range sha256 kv_store expected nxt sm = Inr p"
  obtains (kept) "pl_batch p = []" "\<not> pl_ttl p"
    | (installed) "pl_batch p = [Put Default RANGE_KEY (dr_encode nxt)]" "\<not> pl_ttl p" "dr_validate nxt = Inr ()"
      "range_identity nxt = ident" "range_step r (Some nxt)" "pl_outcome p = Plain"
proof -
  have inv: "sm_data_identity sm = Some ident" "read_as kv_store (sm_engine sm) Default RANGE_KEY dr_decode = Inr r"
    using assms(1) by (auto simp: group_inv_def read_range)
  note plan = assms(2) [unfolded plan_data_range_def inv Let_def bind_res_simps]
  show ?thesis
  proof (cases "pl_batch p = [] \<and> \<not> pl_ttl p")
    case False
    with plan show ?thesis
      by (intro installed)
        (auto simp: bind_res_Inr_iff ttl_refuse_def plan_of_def batch_put_def range_step_def
          split: if_splits option.splits)
  qed (use kept in blast)
qed

lemma plan_fenced_cases:
  assumes "group_inv ident r w sm" "plan_command sha256 J kv_store at (Fenced fence (FencedWrite ops)) sm = Inr p"
  obtains (refused) "pl_batch p = []" "\<not> pl_ttl p" "pl_outcome p \<noteq> Plain"
    | (accepted) rg where "r = Some rg" "rf_matches rg fence" "list_all (op_in_range rg) ops" "w = None"
      "p = plan_of (map op_mutation ops) Plain"
proof -
  have inv: "sm_adjudicator sm = Some (range_fence kv_store ident)" "rf_current kv_store ident (sm_engine sm) = Inr r"
    "sm_data_identity sm = Some ident" "sm_ttl_enabled sm \<longleftrightarrow> w \<noteq> None"
    using assms(1) group_current [OF assms(1)] by (simp_all add: group_inv_def)
  obtain g where guard: "guard_legacy_ttl (Fenced fence (FencedWrite ops)) sm = Inr g"
    and plan: "(case g of Some p \<Rightarrow> Inr p | None \<Rightarrow> plan_fenced fence (FencedWrite ops) sm) = Inr p"
    using assms(2) by (auto simp: plan_command_def bind_res_Inr_iff)
  show ?thesis
  proof (cases g)
    case (Some q)
    with guard plan inv(3) show ?thesis
      by (intro refused)
        (auto simp: guard_legacy_ttl_def legacy_ops_def ttl_refuse_def plan_of_def split: if_splits prod.splits)
  next
    case None
    with guard inv(3,4) have "w = None"
      by (auto simp: guard_legacy_ttl_def legacy_ops_def split: if_splits prod.splits)
    with None plan inv(1,2) refused accepted show ?thesis
      by (auto simp: plan_fenced_def range_fence_def rf_is_fresh_write_def bind_res_Inr_iff plan_of_def lower_ops_map
          split: option.splits if_splits)
  qed
qed

lemma plan_manifest_touch:
  assumes "plan_manifest sha256 J kv_store at cmd c sm = Inr p"
  shows "\<not> pl_ttl p \<and> (\<forall>m\<in>set (pl_batch p). mutation_cf m = Default \<and> manifest_key (mutation_key m))"
  using assms
  by (auto simp: plan_manifest_def bind_res_Inr_iff manifest_cas_def plan_of_def batch_put_def manifest_keys
      split: prod.splits option.splits if_splits)

lemma plan_compaction_touch:
  assumes "plan_compaction_confirmed kv_store region floor sm = Inr p"
  shows "\<not> pl_ttl p \<and> (\<forall>m\<in>set (pl_batch p). mutation_cf m = Default \<and> mutation_key m = COMPACTION_CONFIRMED_KEY)"
  using assms
  by (auto simp: plan_compaction_confirmed_def plan_of_def batch_put_def Let_def split: option.splits if_splits)

text \<open>A physical key is a key of the range exactly when the range holds its user key.\<close>

lemma accepted_range_key:
  "ttl_accepts c rg \<Longrightarrow> rt_keyspace c \<le> KEYSPACE_MAX \<Longrightarrow> user \<in> set (rt_keys c) \<Longrightarrow>
     range_key_of (Some rg) (phys (rt_keyspace c) user)"
  by (auto simp: ttl_accepts_def range_key_of_def decode_phys list_all_iff)

lemma key_eta: "dk_mode k = Raw \<Longrightarrow> dk_keyspace k = ks \<Longrightarrow> P (dk_user_key k) \<Longrightarrow>
    \<exists>user. k = \<lparr>dk_mode = Raw, dk_keyspace = ks, dk_user_key = user\<rparr> \<and> P user"
  by (intro exI [of _ "dk_user_key k"]) simp

lemma op_range_key:
  "op_in_range rg op \<Longrightarrow> \<not> dr_sealed rg \<Longrightarrow>
     mutation_cf (op_mutation op) = Default \<and> range_key_of (Some rg) (mutation_key (op_mutation op))"
  by (cases op) (auto simp: op_in_range_def range_key_of_def raft_cf_from_code_def intro!: key_eta split: sum.splits)

text \<open>The keys outside the stored range an entry may write.\<close>

fun control_key :: "command \<Rightarrow> bytes \<Rightarrow> bool" where
  "control_key (RawTtlCmd c) key \<longleftrightarrow> key = CLOCK_KEY"
| "control_key (DataRangeCmd expected nxt) key \<longleftrightarrow> key = RANGE_KEY"
| "control_key (CompactionConfirmed region floor) key \<longleftrightarrow> key = COMPACTION_CONFIRMED_KEY"
| "control_key (ManifestChange c) key \<longleftrightarrow> manifest_key key"
| "control_key (LargeManifestChange c) key \<longleftrightarrow> manifest_key key"
| "control_key _ key \<longleftrightarrow> False"

lemma plan_command_simps:
  "plan_command sha256 J S at (RawTtlCmd c) sm = plan_raw_ttl S at c sm"
  "plan_command sha256 J S at (DataRangeCmd expected nxt) sm = plan_data_range sha256 S expected nxt sm"
  "plan_command sha256 J S at (CompactionConfirmed region floor) sm = plan_compaction_confirmed S region floor sm"
  "plan_command sha256 J S at (ManifestChange change) sm = plan_manifest sha256 J S at (ManifestChange change) change sm"
  "plan_command sha256 J S at (LargeManifestChange change) sm = plan_manifest sha256 J S at (LargeManifestChange change) change sm"
  "plan_command sha256 J S at Noop sm = Inr (plan_of [] Plain)"
  "plan_command sha256 J S at (ConfChange add node) sm = Inr (plan_of [] Plain)"
  by (simp_all add: plan_command_def guard_legacy_ttl_def legacy_ops_def)

text \<open>The fence a data command carries.\<close>

definition cmd_fence :: "command \<Rightarrow> region_fence option" where
  "cmd_fence cmd = (case cmd of Fenced fence inner \<Rightarrow> Some fence | RawTtlCmd c \<Rightarrow> Some (rt_fence c) | _ \<Rightarrow> None)"

lemma plan_touch_fenced:
  assumes "group_inv ident r w sm" "group_cmd cmd" "plan_command sha256 J kv_store at cmd sm = Inr p"
    and "m \<in> set (pl_batch p)"
  shows "(\<exists>rg fence. r = Some rg \<and> cmd_fence cmd = Some fence \<and> rf_matches rg fence \<and> pl_outcome p = Plain
      \<and> range_key_of r (mutation_key m))
    \<or> (mutation_cf m = Default \<and> control_key cmd (mutation_key m))"
proof (cases cmd)
  case (RawTtlCmd c)
  with assms(3) have "plan_raw_ttl kv_store at c sm = Inr p" by (simp add: plan_command_simps)
  then show ?thesis
  proof (cases rule: plan_ttl_cases [OF assms(1), consumes 1, case_names refused accepted])
    case (accepted rg clock b)
    then consider "m \<in> set b" | "m = Put Default CLOCK_KEY (wm_encode clock)"
      using assms(4) by (auto split: if_splits)
    then show ?thesis
    proof cases
      case 1
      with effect_touch(2) [OF accepted(4)] obtain user where "rt_keyspace c \<le> KEYSPACE_MAX"
        "user \<in> set (rt_keys c)" "mutation_key m = phys (rt_keyspace c) user"
        by blast
      with accepted(1,2,5) accepted_range_key [OF accepted(2)] RawTtlCmd show ?thesis
        by (simp add: cmd_fence_def rf_matches_def ttl_accepts_def)
    qed (use RawTtlCmd in simp)
  qed (use assms(4) in simp)
next
  case (Fenced fence inner)
  then obtain ops where ops: "cmd = Fenced fence (FencedWrite ops)" by (cases inner) simp
  with assms(3) have "plan_command sha256 J kv_store at (Fenced fence (FencedWrite ops)) sm = Inr p" by simp
  then show ?thesis
  proof (cases rule: plan_fenced_cases [OF assms(1), consumes 1, case_names refused accepted])
    case (accepted rg)
    then obtain op where "op \<in> set ops" "m = op_mutation op" "op_in_range rg op" "\<not> dr_sealed rg"
      using assms(4) by (auto simp: plan_of_def list_all_iff rf_matches_def)
    with accepted(1,2,5) op_range_key ops show ?thesis by (simp add: cmd_fence_def plan_of_def)
  qed (use assms(4) in simp)
next
  case (DataRangeCmd expected nxt)
  with assms(3) have "plan_data_range sha256 kv_store expected nxt sm = Inr p"
    by (simp add: plan_command_simps)
  then show ?thesis
    by (cases rule: plan_range_cases [OF assms(1), consumes 1, case_names kept installed]) (use DataRangeCmd assms(4) in auto)
next
  case (CompactionConfirmed region floor)
  with assms(3) have "plan_compaction_confirmed kv_store region floor sm = Inr p"
    by (simp add: plan_command_simps)
  from plan_compaction_touch [OF this] CompactionConfirmed assms(4) show ?thesis by auto
next
  case (ManifestChange c)
  with assms(3) have "plan_manifest sha256 J kv_store at cmd c sm = Inr p"
    by (simp add: plan_command_simps)
  from plan_manifest_touch [OF this] ManifestChange assms(4) show ?thesis by auto
next
  case (LargeManifestChange c)
  with assms(3) have "plan_manifest sha256 J kv_store at cmd c sm = Inr p"
    by (simp add: plan_command_simps)
  from plan_manifest_touch [OF this] LargeManifestChange assms(4) show ?thesis by auto
qed (use assms in \<open>auto simp: group_cmd_def plan_command_simps plan_of_def\<close>)

lemma plan_touch:
  assumes "group_inv ident r w sm" "group_cmd cmd" "plan_command sha256 J kv_store at cmd sm = Inr p"
    and "m \<in> set (pl_batch p)"
  shows "range_key_of r (mutation_key m) \<or> (mutation_cf m = Default \<and> control_key cmd (mutation_key m))"
  using plan_touch_fenced [OF assms] by blast

lemma raw_not_control: "decode_key key = Inr k \<Longrightarrow> dk_mode k = Raw \<Longrightarrow> \<not> control_key cmd key"
  using manifest_not_reserved [of key] by (cases cmd) auto

section \<open>The invariant along a log\<close>

lemma control_disjoint:
  "control_key cmd RANGE_KEY \<Longrightarrow> \<exists>expected nxt. cmd = DataRangeCmd expected nxt"
  "control_key cmd CLOCK_KEY \<Longrightarrow> \<exists>c. cmd = RawTtlCmd c"
  "control_key cmd COMPACTION_CONFIRMED_KEY \<Longrightarrow> \<exists>region floor. cmd = CompactionConfirmed region floor"
  using manifest_not_reserved [of RANGE_KEY] manifest_not_reserved [of CLOCK_KEY]
    manifest_not_reserved [of COMPACTION_CONFIRMED_KEY]
  by (cases cmd; auto simp: RANGE_KEY_def CLOCK_KEY_def COMPACTION_CONFIRMED_KEY_def)+

text \<open>A key neither in the stored range nor a control key of the entry keeps its value.\<close>

lemma plan_keeps:
  assumes "group_inv ident r w sm" "group_cmd cmd" "plan_command sha256 J kv_store at cmd sm = Inr p"
    and "\<not> range_key_of r key" "cf \<noteq> Default \<or> \<not> control_key cmd key"
  shows "batch_value cf key (pl_batch p) old = old"
proof (rule batch_value_untouched)
  fix m assume "m \<in> set (pl_batch p)"
  from plan_touch [OF assms(1-3) this] assms(4,5) show "mutation_cf m \<noteq> cf \<or> mutation_key m \<noteq> key" by auto
qed

lemma plan_not_ttl:
  assumes "group_inv ident r w sm" "group_cmd cmd" "plan_command sha256 J kv_store at cmd sm = Inr p"
    and "\<nexists>c. cmd = RawTtlCmd c"
  shows "\<not> pl_ttl p"
proof -
  show ?thesis
  proof (cases cmd)
    case (Fenced fence inner)
    then obtain ops where "cmd = Fenced fence (FencedWrite ops)" by (cases inner) simp
    with assms(3) have "plan_command sha256 J kv_store at (Fenced fence (FencedWrite ops)) sm = Inr p" by simp
    then show ?thesis
      by (cases rule: plan_fenced_cases [OF assms(1), consumes 1]) (auto simp: plan_of_def)
  next
    case (DataRangeCmd expected nxt)
    with assms(3) have "plan_data_range sha256 kv_store expected nxt sm = Inr p" by (simp add: plan_command_simps)
    then show ?thesis by (cases rule: plan_range_cases [OF assms(1), consumes 1])
  qed (use assms plan_compaction_touch plan_manifest_touch in \<open>auto simp: group_cmd_def plan_command_simps plan_of_def\<close>)
qed

lemma clock_not_range_key: "\<not> range_key_of r CLOCK_KEY" "\<not> range_key_of r RANGE_KEY" "\<not> range_key_of r COMPACTION_CONFIRMED_KEY"
  using range_key_not_reserved by blast+

lemma plan_clock:
  assumes "group_inv ident r w sm" "group_cmd cmd" "plan_command sha256 J kv_store at cmd sm = Inr p"
  shows "\<exists>w'. batch_value Default CLOCK_KEY (pl_batch p) (map_option wm_encode w) = map_option wm_encode w'
    \<and> clock_step w w' \<and> (w' \<noteq> None \<longleftrightarrow> pl_ttl p \<or> w \<noteq> None)"
proof (cases "\<exists>c. cmd = RawTtlCmd c")
  case False
  with plan_keeps [OF assms clock_not_range_key(1), of Default] control_disjoint(2) [of cmd]
  have "batch_value Default CLOCK_KEY (pl_batch p) (map_option wm_encode w) = map_option wm_encode w" by blast
  with plan_not_ttl [OF assms False] show ?thesis by (intro exI [of _ w]) (simp add: clock_step_def)
next
  case True
  then obtain c where c: "cmd = RawTtlCmd c" by blast
  with assms(3) have "plan_raw_ttl kv_store at c sm = Inr p" by (simp add: plan_command_simps)
  then show ?thesis
  proof (cases rule: plan_ttl_cases [OF assms(1), consumes 1, case_names refused accepted])
    case refused
    then show ?thesis by (intro exI [of _ w]) (simp add: clock_step_def)
  next
    case (accepted rg clock b)
    have "mutation_key m \<noteq> CLOCK_KEY" if "m \<in> set b" for m
      using effect_touch(2) [OF accepted(4) that] accepted_range_key [OF accepted(2)] clock_not_range_key(1) by metis
    then have "batch_value Default CLOCK_KEY b old = old" for old by (intro batch_value_untouched) blast
    with accepted(5) effect_touch(1) [OF accepted(4)] show ?thesis
      by (intro exI [of _ "Some clock"]) (auto simp: clock_step_def)
  qed
qed

lemma plan_range:
  assumes "group_inv ident r w sm" "group_cmd cmd" "plan_command sha256 J kv_store at cmd sm = Inr p"
  shows "\<exists>r'. batch_value Default RANGE_KEY (pl_batch p) (map_option dr_encode r) = map_option dr_encode r'
    \<and> range_step r r' \<and> (r' = r \<or> (\<exists>n. r' = Some n \<and> dr_validate n = Inr () \<and> range_identity n = ident))"
proof (cases "\<exists>expected nxt. cmd = DataRangeCmd expected nxt")
  case False
  with plan_keeps [OF assms clock_not_range_key(2), of Default] control_disjoint(1) [of cmd]
  have "batch_value Default RANGE_KEY (pl_batch p) (map_option dr_encode r) = map_option dr_encode r" by blast
  then show ?thesis by (intro exI [of _ r]) (simp add: range_step_def)
next
  case True
  then obtain expected nxt where "cmd = DataRangeCmd expected nxt" by blast
  with assms(3) have "plan_data_range sha256 kv_store expected nxt sm = Inr p"
    by (simp add: plan_command_simps)
  then show ?thesis
  proof (cases rule: plan_range_cases [OF assms(1), consumes 1, case_names kept installed])
    case kept
    then show ?thesis by (intro exI [of _ r]) (simp add: range_step_def)
  next
    case installed
    then show ?thesis by (intro exI [of _ "Some nxt"]) simp
  qed
qed

lemma stored_range_alt:
  "stored_range a r \<longleftrightarrow> kv_get a Default RANGE_KEY = map_option dr_encode r \<and> (\<forall>n. r = Some n \<longrightarrow> dr_validate n = Inr ())"
  by (cases r) (simp_all add: stored_range_def)

lemma commit_group:
  assumes inv: "group_inv ident r w sm" and cmd: "group_cmd cmd" "plan_command sha256 J kv_store at cmd sm = Inr p"
    and adv: "sm_applied sm < ap_index at" and com: "sm_commit kv_store at (Inr p) sm = (sm', res)"
  shows "res = Inr \<lparr>ar_applied_index = ap_index at, ar_response = None, ar_outcome = pl_outcome p\<rparr>"
    and "sm_engine sm' = kv_apply (pl_batch p) at (sm_engine sm)" and "sm_applied sm' = ap_index at"
    and "\<exists>r' w'. group_inv ident r' w' sm' \<and> range_step r r' \<and> clock_step w w'"
proof -
  have i: "kv_ok (sm_engine sm)" "in_step sm" "kv_get (sm_engine sm) Default RANGE_KEY = map_option dr_encode r"
    "kv_get (sm_engine sm) Default CLOCK_KEY = map_option wm_encode w" "sm_ttl_enabled sm \<longleftrightarrow> w \<noteq> None"
    using inv by (auto simp: group_inv_def stored_range_alt stored_clock_def)
  have sm': "sm' = sm\<lparr>sm_engine := kv_apply (pl_batch p) at (sm_engine sm), sm_applied := ap_index at,
      sm_ttl_enabled := (pl_ttl p \<or> sm_ttl_enabled sm)\<rparr>"
    and "res = Inr \<lparr>ar_applied_index = ap_index at, ar_response = None, ar_outcome = pl_outcome p\<rparr>"
    using com in_step_advances [OF i(2) adv] by (auto simp: sm_commit_def)
  then show "res = Inr \<lparr>ar_applied_index = ap_index at, ar_response = None, ar_outcome = pl_outcome p\<rparr>"
    "sm_engine sm' = kv_apply (pl_batch p) at (sm_engine sm)" "sm_applied sm' = ap_index at"
    by simp_all
  obtain w' where w': "kv_get (sm_engine sm') Default CLOCK_KEY = map_option wm_encode w'" "clock_step w w'"
    "w' \<noteq> None \<longleftrightarrow> sm_ttl_enabled sm'"
    using plan_clock [OF inv cmd] i by (auto simp: sm' simp del: not_None_eq)
  obtain r' where r': "kv_get (sm_engine sm') Default RANGE_KEY = map_option dr_encode r'" "range_step r r'"
    "r' = r \<or> (\<exists>n. r' = Some n \<and> dr_validate n = Inr () \<and> range_identity n = ident)"
    using plan_range [OF inv cmd] i by (auto simp: sm')
  have "group_inv ident r' w' sm'"
    using inv r'(1,3) w'(1,3) i(1) unfolding group_inv_def stored_range_alt stored_clock_def
    by (auto simp: sm' in_step_def)
  with r'(2) w'(2) show "\<exists>r' w'. group_inv ident r' w' sm' \<and> range_step r r' \<and> clock_step w w'" by blast
qed

end
