(* ===== verification/GroupRun.thy ===== *)
theory GroupRun
  imports GroupLog
begin

text \<open>
  A data group's log from its first entry: the invariant of \<open>GroupLog\<close> along \<open>drive_apply\<close>, and what
  follows from it. A log delivered again is acknowledged up to what is applied and goes on from there;
  raw keys change only through the unsealed range; TTL mode and its clock never go back.
\<close>

section \<open>Invariants of a run\<close>

definition group_entry_ok :: "committed_entry \<Rightarrow> bool" where
  "group_entry_ok e \<longleftrightarrow> (ce_kind e = CommandEntry \<longrightarrow> (\<forall>cmd. cmd_decode (ce_data e) = Inr cmd \<longrightarrow> group_cmd cmd))"

definition group_log :: "committed_entry list \<Rightarrow> bool" where
  "group_log es \<longleftrightarrow> list_all group_entry_ok es"

lemma group_log_simps [simp]:
  "group_log []" "group_log (e # es) \<longleftrightarrow> group_entry_ok e \<and> group_log es"
  "group_log (es @ es') \<longleftrightarrow> group_log es \<and> group_log es'"
  by (simp_all add: group_log_def)

lemma drive_apply_append:
  "drive_apply sha256 J S (es @ es') sm =
     (case drive_apply sha256 J S es sm of
        (sm1, Inl e) \<Rightarrow> (sm1, Inl e)
      | (sm1, Inr rs) \<Rightarrow>
          (case drive_apply sha256 J S es' sm1 of
             (sm2, Inl e) \<Rightarrow> (sm2, Inl e)
           | (sm2, Inr rs') \<Rightarrow> (sm2, Inr (rs @ rs'))))"
proof (induction es arbitrary: sm)
  case Nil
  then show ?case by (simp split: prod.splits sum.splits)
next
  case (Cons e es)
  then show ?case by (auto split: prod.splits sum.splits)
qed

text \<open>A run that failed stopped at one command entry, after applying every entry before it.\<close>

lemma drive_cut:
  assumes "drive_apply sha256 J S es sm = (sm', Inl err)"
  shows "\<exists>k<length es. \<exists>sk rs. drive_apply sha256 J S (take k es) sm = (sk, Inr rs) \<and> ce_kind (es ! k) = CommandEntry
    \<and> sm_apply sha256 J S (es ! k) sk = (sm', Inl err)"
  using assms
proof (induction es arbitrary: sm)
  case (Cons e es)
  show ?case
  proof (cases "ce_kind e = CommandEntry")
    case False
    with Cons obtain k sk rs where "k < length es" "drive_apply sha256 J S (take k es) sm = (sk, Inr rs)"
      "ce_kind (es ! k) = CommandEntry" "sm_apply sha256 J S (es ! k) sk = (sm', Inl err)" by fastforce
    with False show ?thesis by (intro exI [of _ "Suc k"]) simp
  next
    case True
    obtain sm1 r1 where s1: "sm_apply sha256 J S e sm = (sm1, r1)" by fastforce
    show ?thesis
    proof (cases r1)
      case (Inl x)
      with True s1 Cons.prems show ?thesis by (intro exI [of _ 0]) simp
    next
      case (Inr x)
      with True s1 Cons.prems have "drive_apply sha256 J S es sm1 = (sm', Inl err)" by (auto split: prod.splits sum.splits)
      from Cons.IH [OF this] obtain k sk rs where "k < length es" "drive_apply sha256 J S (take k es) sm1 = (sk, Inr rs)"
        "ce_kind (es ! k) = CommandEntry" "sm_apply sha256 J S (es ! k) sk = (sm', Inl err)" by blast
      with True s1 Inr show ?thesis by (intro exI [of _ "Suc k"]) simp
    qed
  qed
qed simp

lemma drive_prefix:
  assumes "drive_apply sha256 J S (take k es) sm = (sk, Inr rs)" "j \<le> k"
  shows "\<exists>sj rs'. drive_apply sha256 J S (take j es) sm = (sj, Inr rs')"
proof -
  have "take k es = take j es @ drop j (take k es)" using assms(2) by (metis append_take_drop_id min.absorb1 take_take)
  with assms(1) have d: "drive_apply sha256 J S (take j es @ drop j (take k es)) sm = (sk, Inr rs)" by simp
  obtain sj r where j: "drive_apply sha256 J S (take j es) sm = (sj, r)" by fastforce
  with d show ?thesis by (cases r) (auto simp: drive_apply_append)
qed

text \<open>What every step of a group log keeps holds after it.\<close>

lemma drive_invariant:
  assumes step: "\<And>at cmd sm sm' res. I sm \<Longrightarrow> group_cmd cmd \<Longrightarrow> apply_unobserved sha256 J S at cmd sm = (sm', res) \<Longrightarrow> I sm'"
    and "I sm" "group_log es" "drive_apply sha256 J S es sm = (sm', res)"
  shows "I sm'"
  using assms(2-)
proof (induction es arbitrary: sm res)
  case (Cons e es)
  show ?case
  proof (cases "ce_kind e = CommandEntry")
    case False
    with Cons.prems Cons.IH show ?thesis by simp
  next
    case True
    obtain sm1 r1 where s1: "sm_apply sha256 J S e sm = (sm1, r1)" by fastforce
    have I1: "I sm1"
    proof (cases "cmd_decode (ce_data e)")
      case (Inl err)
      with s1 Cons.prems(1) show ?thesis by (simp add: sm_apply_def)
    next
      case (Inr cmd)
      with s1 True Cons.prems step show ?thesis by (auto simp: sm_apply_def apply_at_def group_entry_ok_def)
    qed
    show ?thesis
    proof (cases r1)
      case (Inl err)
      with Cons.prems(3) True s1 I1 show ?thesis by simp
    next
      case (Inr r)
      obtain sm2 r2 where "drive_apply sha256 J S es sm1 = (sm2, r2)" by fastforce
      moreover from this Cons.prems(3) True s1 Inr have "sm' = sm2" by (auto split: sum.splits)
      ultimately show ?thesis using Cons.IH [OF I1] Cons.prems(2) by auto
    qed
  qed
qed simp

lemma unobserved_cases:
  assumes "group_inv ident r w sm" "group_cmd cmd" "apply_unobserved sha256 J kv_store at cmd sm = (sm', res)"
  obtains (skipped) "ap_index at \<le> sm_applied sm" "sm' = sm" "res = Inr (write_ok (ap_index at))"
    | (failed) e where "sm_applied sm < ap_index at" "plan_command sha256 J kv_store at cmd sm = Inl e" "sm' = sm" "res = Inl e"
    | (committed) p r' w' where "sm_applied sm < ap_index at" "plan_command sha256 J kv_store at cmd sm = Inr p"
      "res = Inr \<lparr>ar_applied_index = ap_index at, ar_response = None, ar_outcome = pl_outcome p\<rparr>"
      "sm_engine sm' = kv_apply (pl_batch p) at (sm_engine sm)" "sm_applied sm' = ap_index at"
      "group_inv ident r' w' sm'" "range_step r r'" "clock_step w w'"
proof (cases "ap_index at \<le> sm_applied sm")
  case True
  with assms(3) show ?thesis by (intro skipped) (simp_all add: apply_unobserved_def)
next
  case False
  then have com: "sm_commit kv_store at (plan_command sha256 J kv_store at cmd sm) sm = (sm', res)"
    using assms(3) by (simp add: apply_unobserved_def)
  show ?thesis
  proof (cases "plan_command sha256 J kv_store at cmd sm")
    case (Inl e)
    with com False show ?thesis by (intro failed [of e]) (simp_all add: sm_commit_def)
  next
    case (Inr p)
    with com False have "sm_applied sm < ap_index at" "sm_commit kv_store at (Inr p) sm = (sm', res)" by simp_all
    note com = this(1) commit_group [OF assms(1,2) Inr this]
    from com(5) obtain r' w' where "group_inv ident r' w' sm'" "range_step r r'" "clock_step w w'" by blast
    from committed [OF com(1) Inr com(2-4) this] show ?thesis .
  qed
qed

definition reaches :: "group_identity \<Rightarrow> data_range option \<Rightarrow> clock_watermark option \<Rightarrow> kv_state state_machine \<Rightarrow> bool" where
  "reaches ident r w sm \<longleftrightarrow> (\<exists>r' w'. group_inv ident r' w' sm \<and> range_step\<^sup>*\<^sup>* r r' \<and> clock_step w w')"

lemma clock_step_trans: "clock_step w w' \<Longrightarrow> clock_step w' w'' \<Longrightarrow> clock_step w w''"
  by (fastforce simp: clock_step_def)

lemma clock_step_refl [simp]: "clock_step w w"
  by (simp add: clock_step_def)

lemma reaches_drive:
  assumes "group_inv ident r w sm" "group_log es" "drive_apply sha256 J kv_store es sm = (sm', res)"
  shows "\<exists>r' w'. group_inv ident r' w' sm' \<and> range_step\<^sup>*\<^sup>* r r' \<and> clock_step w w'"
proof -
  have "reaches ident r w sm'"
  proof (rule drive_invariant [OF _ _ assms(2,3)])
    show "reaches ident r w sm" using assms(1) clock_step_refl unfolding reaches_def by blast
    fix at cmd sm sm' res
    assume "reaches ident r w sm" and cmd: "group_cmd cmd" "apply_unobserved sha256 J kv_store at cmd sm = (sm', res)"
    then obtain r1 w1 where one: "group_inv ident r1 w1 sm" "range_step\<^sup>*\<^sup>* r r1" "clock_step w w1"
      by (auto simp: reaches_def)
    from cmd(2) show "reaches ident r w sm'"
    proof (cases rule: unobserved_cases [OF one(1) cmd(1), consumes 1, case_names skipped failed committed])
      case (committed p r' w')
      with one show ?thesis
        unfolding reaches_def by (meson clock_step_trans rtranclp.rtrancl_into_rtrancl)
    qed (use one in \<open>auto simp: reaches_def\<close>)
  qed
  then show ?thesis by (simp add: reaches_def)
qed

lemma kv_empty_applied: "kv_applied kv_empty = None"
  by (simp add: kv_empty_def)

lemma fresh_inv: "identity_ok ident \<Longrightarrow> group_inv ident None None (fresh_group kv_store ident kv_empty)"
  by (simp add: group_inv_def fresh_group_def in_step_def stored_range_def stored_clock_def kv_empty_applied)

lemma fresh_reaches:
  assumes "identity_ok ident" "group_log es" "drive_apply sha256 J kv_store es (fresh_group kv_store ident kv_empty) = (sm, res)"
  obtains r w where "group_inv ident r w sm"
  using reaches_drive [OF fresh_inv [OF assms(1)] assms(2,3)] by blast

section \<open>Restart\<close>

text \<open>The machine is a function of its engine: opening the group again gives it back.\<close>

lemma open_again:
  assumes "group_inv ident r w sm"
  shows "open_group kv_store ident (sm_engine sm) = Inr sm"
proof -
  obtain root region creation where ident: "ident = (root, region, creation)" by (cases ident) auto
  have i: "in_step sm" "identity_ok ident" "sm_data_identity sm = Some ident"
    "sm_adjudicator sm = Some (range_fence kv_store ident)" "sm_ttl_enabled sm \<longleftrightarrow> w \<noteq> None"
    "read_as kv_store (sm_engine sm) Default CLOCK_KEY wm_decode = Inr w"
    using assms by (auto simp: group_inv_def read_clock)
  have "with_engine kv_store (sm_engine sm) = Inr (sm\<lparr>sm_data_identity := None, sm_adjudicator := None\<rparr>)"
    using i(1,5,6) by (cases "kv_applied (sm_engine sm)") (simp_all add: with_engine_def in_step_def)
  moreover have "sm\<lparr>sm_data_identity := Some ident, sm_adjudicator := Some (range_fence kv_store ident)\<rparr> = sm"
    using i(3,4) by simp
  ultimately show ?thesis
    using i(2) group_current [OF assms] unfolding ident identity_ok_def
    by (simp add: open_group_def set_data_group_def not_less Let_def)
qed

definition covered :: "kv_state state_machine \<Rightarrow> committed_entry \<Rightarrow> bool" where
  "covered sm e \<longleftrightarrow> (ce_kind e = CommandEntry \<longrightarrow> ce_index e \<le> sm_applied sm \<and> (\<exists>cmd. cmd_decode (ce_data e) = Inr cmd))"

lemma drive_covered:
  assumes "\<forall>e\<in>set es. covered sm e"
  shows "drive_apply sha256 J kv_store es sm = (sm, Inr (map (\<lambda>e. write_ok (ce_index e)) [e\<leftarrow>es. ce_kind e = CommandEntry]))"
  using assms by (induction es) (auto simp: covered_def sm_apply_def apply_at_def apply_unobserved_def)

lemma unobserved_mono:
  assumes "group_inv ident r w sm" "group_cmd cmd" "apply_unobserved sha256 J kv_store at cmd sm = (sm', res)"
  shows "sm_applied sm \<le> sm_applied sm'" and "res = Inr x \<Longrightarrow> ap_index at \<le> sm_applied sm'"
  using assms(3) by (cases rule: unobserved_cases [OF assms(1,2), consumes 1]; simp)+

lemma drive_covers:
  assumes "group_inv ident r w sm" "group_log es" "drive_apply sha256 J kv_store es sm = (sm', Inr rs)"
  shows "sm_applied sm \<le> sm_applied sm' \<and> (\<forall>e\<in>set es. covered sm' e)"
  using assms
proof (induction es arbitrary: r w sm rs)
  case (Cons e es)
  show ?case
  proof (cases "ce_kind e = CommandEntry")
    case False
    with Cons show ?thesis by (simp add: covered_def)
  next
    case True
    with Cons.prems(3) obtain sm1 r1 rs1 where s1: "sm_apply sha256 J kv_store e sm = (sm1, Inr r1)"
      and s2: "drive_apply sha256 J kv_store es sm1 = (sm', Inr rs1)"
      by (auto split: prod.splits sum.splits)
    then obtain cmd where cmd: "cmd_decode (ce_data e) = Inr cmd" "group_cmd cmd"
      "apply_unobserved sha256 J kv_store \<lparr>ap_term = ce_term e, ap_index = ce_index e\<rparr> cmd sm = (sm1, Inr r1)"
      using Cons.prems(2) True by (auto simp: sm_apply_def apply_at_def group_entry_ok_def split: sum.splits)
    have "\<exists>r' w'. group_inv ident r' w' sm1"
      using cmd(3) by (cases rule: unobserved_cases [OF Cons.prems(1) cmd(2), consumes 1]) (use Cons.prems(1) in auto)
    with Cons.IH s2 Cons.prems(2) have "sm_applied sm1 \<le> sm_applied sm' \<and> (\<forall>e\<in>set es. covered sm' e)" by auto
    with unobserved_mono [OF Cons.prems(1) cmd(2,3)] cmd(1) show ?thesis by (auto simp: covered_def)
  qed
qed simp

text \<open>
  Restart over the abstract contents: what was applied is acknowledged and not applied again, the rest
  goes on as in an uninterrupted run.
\<close>

lemma redelivered:
  assumes "identity_ok ident" and "group_log (es @ es')"
    and "drive_apply sha256 J kv_store es (fresh_group kv_store ident kv_empty) = (sm, Inr rs)"
    and "drive_apply sha256 J kv_store es' sm = (sm', res)"
  shows "drive_apply sha256 J kv_store (es @ es') sm =
           (sm', case res of Inl e \<Rightarrow> Inl e
                 | Inr rs' \<Rightarrow> Inr (map (\<lambda>e. write_ok (ce_index e)) [e\<leftarrow>es. ce_kind e = CommandEntry] @ rs'))"
    and "drive_apply sha256 J kv_store (es @ es') (fresh_group kv_store ident kv_empty) =
           (sm', case res of Inl e \<Rightarrow> Inl e | Inr rs' \<Rightarrow> Inr (rs @ rs'))"
proof -
  have "\<forall>e\<in>set es. covered sm e" using drive_covers [OF fresh_inv [OF assms(1)] _ assms(3)] assms(2) by simp
  from drive_covered [OF this] assms(3,4) show
    "drive_apply sha256 J kv_store (es @ es') sm =
       (sm', case res of Inl e \<Rightarrow> Inl e
             | Inr rs' \<Rightarrow> Inr (map (\<lambda>e. write_ok (ce_index e)) [e\<leftarrow>es. ce_kind e = CommandEntry] @ rs'))"
    "drive_apply sha256 J kv_store (es @ es') (fresh_group kv_store ident kv_empty) =
       (sm', case res of Inl e \<Rightarrow> Inl e | Inr rs' \<Rightarrow> Inr (rs @ rs'))"
    by (auto simp: drive_apply_append split: sum.splits)
qed

text \<open>The sample log is a group's log.\<close>

lemma sample_identity: "identity_ok sample_ident"
  by (simp add: sample_ident_def range_identity_def identity_ok_def range_sample_def)

lemma sample_group_log: "group_log sample_log"
  by (simp add: sample_log_def group_entry_ok_def cmd_decode_encode [OF sample_ok(1)] cmd_decode_encode [OF sample_ok(2)])
    (simp add: group_cmd_def sample_write_def)

section \<open>Ownership\<close>

lemma changed_key:
  assumes "group_inv ident r w sm" "group_cmd cmd" "plan_command sha256 J kv_store at cmd sm = Inr p"
    and "batch_value cf key (pl_batch p) old \<noteq> old" "\<not> control_key cmd key"
  shows "\<exists>rg fence. r = Some rg \<and> cmd_fence cmd = Some fence \<and> rf_matches rg fence \<and> pl_outcome p = Plain \<and> range_key_of r key"
proof -
  obtain m where "m \<in> set (pl_batch p)" "mutation_key m = key"
    using assms(4) batch_value_untouched [of "pl_batch p" cf key old] by blast
  with plan_touch_fenced [OF assms(1-3)] assms(5) show ?thesis by blast
qed

text \<open>
  C9. Ownership. In any state a data group's log reaches, an entry changes a raw key - its value or
  its expiry record - only if the group holds a published, unsealed range that contains the key and
  whose epoch is the one in the entry's fence, and then the entry is acknowledged as a plain
  success. A rejected, stale or foreign entry leaves every raw key as it was.
\<close>

theorem raw_writes_confined:
  assumes "identity_ok ident" and "group_log es"
    and "drive_apply sha256 J kv_store es (fresh_group kv_store ident kv_empty) = (sm, res)"
    and "group_cmd cmd" and "apply_unobserved sha256 J kv_store at cmd sm = (sm', res')"
    and "decode_key key = Inr k" and "dk_mode k = Raw"
    and "sm_get kv_store sm' cf key \<noteq> sm_get kv_store sm cf key"
  shows "\<exists>rg fence. rf_current kv_store ident (sm_engine sm) = Inr (Some rg) \<and> cmd_fence cmd = Some fence
    \<and> rf_matches rg fence \<and> dk_keyspace k = dr_keyspace rg \<and> dr_contains rg (dk_user_key k)
    \<and> res' = Inr (write_ok (ap_index at))"
proof -
  obtain r w where inv: "group_inv ident r w sm" using fresh_reaches [OF assms(1-3)] .
  from assms(5) show ?thesis
  proof (cases rule: unobserved_cases [OF inv assms(4), consumes 1, case_names skipped failed committed])
    case (committed p r' w')
    have "kv_ok (sm_engine sm)" using inv by (simp add: group_inv_def)
    then have "batch_value cf key (pl_batch p) (kv_get (sm_engine sm) cf key) \<noteq> kv_get (sm_engine sm) cf key"
      using assms(8) committed(4) by (simp add: sm_get_def)
    from changed_key [OF inv assms(4) committed(2) this raw_not_control [OF assms(6,7)]]
    obtain rg fence where "r = Some rg" "cmd_fence cmd = Some fence" "rf_matches rg fence" "pl_outcome p = Plain"
      "range_key_of r key" by blast
    with group_current [OF inv] committed(3) assms(6) show ?thesis
      by (intro exI [of _ rg], intro exI [of _ fence]) (auto simp: range_key_of_def write_ok_def)
  qed (use assms(8) in auto)
qed

definition sample_entry :: "u64 \<Rightarrow> command \<Rightarrow> committed_entry" where
  "sample_entry i cmd = \<lparr>ce_index = i, ce_term = 1, ce_kind = CommandEntry, ce_data = cmd_encode cmd\<rparr>"

lemma sample_entry_ok: "command_ok cmd \<Longrightarrow> group_entry_ok (sample_entry i cmd) \<longleftrightarrow> group_cmd cmd"
  by (simp add: group_entry_ok_def sample_entry_def cmd_decode_encode)

lemma sample_drive_one:
  "command_ok cmd \<Longrightarrow> apply_unobserved sha256 J S \<lparr>ap_term = 1, ap_index = i\<rparr> cmd sm = (sm', Inr x) \<Longrightarrow>
     drive_apply sha256 J S [sample_entry i cmd] sm = (sm', Inr [x])"
  by (simp add: sample_entry_def sm_apply_def apply_at_def cmd_decode_encode)

lemma sample_first_run:
  "group_log [sample_entry 1 (DataRangeCmd None range_sample)]"
  "drive_apply sha256 J kv_store [sample_entry 1 (DataRangeCmd None range_sample)] (fresh_group kv_store sample_ident kv_empty)
     = (sample_first, Inr [write_ok 1])"
  using sample_drive_one [OF sample_ok(1) sample_step1] by (simp_all add: sample_entry_ok [OF sample_ok(1)] group_cmd_def)

lemma sample_first_reads:
  "kv_get (sm_engine sample_first) Default RANGE_KEY = Some (dr_encode range_sample)"
  "sm_adjudicator sample_first = Some (range_fence kv_store sample_ident)" "\<not> sm_ttl_enabled sample_first"
  "sm_applied sample_first = 1" "kv_get (sm_engine sample_first) Default sample_key = None"
  "sm_data_identity sample_first = Some sample_ident" "kv_ok (sm_engine sample_first)"
  "kv_advances at (sm_engine sample_first) \<longleftrightarrow> 1 < ap_index at"
  by (simp_all add: sample_first_def fresh_group_def sample_key_def RANGE_KEY_def)

theorem raw_writes_confined_witness:
  "\<exists>sm' rg. apply_unobserved (\<lambda>_. 0) flat_json kv_store \<lparr>ap_term = 1, ap_index = 2\<rparr> (sample_write 1) sample_first
       = (sm', Inr (write_ok 2))
     \<and> sm_get kv_store sm' Default sample_key = Inr (Some [7])
     \<and> rf_current kv_store sample_ident (sm_engine sample_first) = Inr (Some rg) \<and> dr_contains rg [0x63]"
proof -
  let ?at = "\<lparr>ap_term = 1, ap_index = 2\<rparr> :: applied_position"
  note step = sample_step [OF sample_first_reads(1-3), of ?at "\<lambda>_. 0" flat_json 1]
  obtain sm' res' where ap: "apply_unobserved (\<lambda>_. 0) flat_json kv_store ?at (sample_write 1) sample_first = (sm', res')"
    by fastforce
  have got: "sm_get kv_store sm' Default sample_key = Inr (Some [7])"
    using step ap by (auto simp: sample_first_reads sm_get_def)
  have "decode_key sample_key = Inr \<lparr>dk_mode = Raw, dk_keyspace = 100, dk_user_key = [0x63]\<rparr>"
    by (simp add: sample_key_def decode_key_def from_byte_def)
  moreover have "group_cmd (sample_write 1)" by (simp add: group_cmd_def sample_write_def)
  moreover have "sm_get kv_store sm' Default sample_key \<noteq> sm_get kv_store sample_first Default sample_key"
    unfolding got by (simp add: sm_get_def sample_first_reads)
  ultimately show ?thesis
    using raw_writes_confined [OF sample_identity sample_first_run _ ap, of sample_key _ Default] ap got by fastforce
qed

lemma range_step_sealed: "range_step (Some rg) r' \<Longrightarrow> dr_sealed rg \<Longrightarrow> r' = Some rg"
  by (auto simp: range_step_def dr_may_follow_def split: option.splits)

text \<open>
  C11. Sealing is final. Once the stored range of a data group is sealed, no later entry of its log -
  write, TTL command, cleanup, range publication or manifest change, in any order and number -
  changes the range or any raw key in any column family.
\<close>

theorem sealed_range_frozen:
  assumes "identity_ok ident" and "group_log (es @ es')"
    and "drive_apply sha256 J kv_store es (fresh_group kv_store ident kv_empty) = (sm, res)"
    and "rf_current kv_store ident (sm_engine sm) = Inr (Some rg)" and "dr_sealed rg"
    and "drive_apply sha256 J kv_store es' sm = (sm', res')"
  shows "rf_current kv_store ident (sm_engine sm') = Inr (Some rg)
    \<and> (\<forall>cf key k. decode_key key = Inr k \<and> dk_mode k = Raw \<longrightarrow> sm_get kv_store sm' cf key = sm_get kv_store sm cf key)"
proof -
  have log: "group_log es" "group_log es'" using assms(2) by simp_all
  obtain r w where "group_inv ident r w sm" using fresh_reaches [OF assms(1) log(1) assms(3)] .
  with group_current [OF this] assms(4) have inv: "group_inv ident (Some rg) w sm" by simp
  define I where "I s \<longleftrightarrow> (\<exists>w. group_inv ident (Some rg) w s) \<and> (\<forall>cf key k. decode_key key = Inr k \<and> dk_mode k = Raw
    \<longrightarrow> kv_get (sm_engine s) cf key = kv_get (sm_engine sm) cf key)" for s
  have "I sm'"
  proof (rule drive_invariant [OF _ _ log(2) assms(6)])
    show "I sm" using inv by (auto simp: I_def)
    fix at cmd s s' res
    assume "I s" and cmd: "group_cmd cmd" "apply_unobserved sha256 J kv_store at cmd s = (s', res)"
    then obtain w1 where one: "group_inv ident (Some rg) w1 s" by (auto simp: I_def)
    from cmd(2) show "I s'"
    proof (cases rule: unobserved_cases [OF one cmd(1), consumes 1, case_names skipped failed committed])
      case (committed p r' w')
      have "kv_get (sm_engine s') cf key = kv_get (sm_engine s) cf key" if "decode_key key = Inr k" "dk_mode k = Raw" for cf key k
      proof -
        have "\<not> range_key_of (Some rg) key" using assms(5) by (simp add: range_key_of_def)
        with plan_keeps [OF one cmd(1) committed(2)] raw_not_control [OF that] one committed(4)
        show ?thesis by (simp add: group_inv_def)
      qed
      moreover have "group_inv ident (Some rg) w' s'"
        using committed(6) range_step_sealed [OF committed(7) assms(5)] by simp
      ultimately show ?thesis using \<open>I s\<close> unfolding I_def by metis
    qed (use \<open>I s\<close> in auto)
  qed
  then show ?thesis by (auto simp: I_def sm_get_def dest: group_current)
qed

definition range_sealed :: data_range where
  "range_sealed = range_sample\<lparr>dr_version := 2, dr_sealed := True\<rparr>"

definition sample_seal :: command where
  "sample_seal = DataRangeCmd (Some 0) range_sealed"

lemma sealed_ok: "dr_validate range_sealed = Inr ()" "command_ok sample_seal" "range_identity range_sealed = sample_ident"
  "dr_may_follow range_sealed range_sample" "range_sample \<noteq> range_sealed"
  by (simp_all add: dr_validate_iff range_sealed_def range_sample_def MAX_BOUND_def KEYSPACE_MAX_def sample_seal_def
      sample_ident_def range_identity_def dr_may_follow_def checked_add_def)

lemma sample_seal_step:
  assumes "kv_get (sm_engine sm) Default RANGE_KEY = Some (dr_encode range_sample)"
    and "sm_data_identity sm = Some sample_ident" "\<not> sm_ttl_enabled sm"
    and "kv_advances at (sm_engine sm)" "sm_applied sm < ap_index at"
  shows "apply_unobserved (\<lambda>_. 0) J kv_store at sample_seal sm =
    (sm\<lparr>sm_engine := kv_apply [Put Default RANGE_KEY (dr_encode range_sealed)] at (sm_engine sm),
        sm_applied := ap_index at\<rparr>, Inr (write_ok (ap_index at)))"
proof -
  have "plan_command (\<lambda>_. 0) J kv_store at sample_seal sm = Inr (plan_of [Put Default RANGE_KEY (dr_encode range_sealed)] Plain)"
    using assms(1-3) sealed_ok
    by (simp add: sample_seal_def plan_command_simps plan_data_range_def read_as_def sample_range sample_ident_def
        dr_digest_def batch_put_def)
  then show ?thesis using assms(3-5) by (simp add: apply_unobserved_def sm_commit_def plan_of_def write_ok_def)
qed

definition sample_written :: "kv_state state_machine" where
  "sample_written = sample_first\<lparr>sm_engine := kv_apply [Put Default sample_key [7]] \<lparr>ap_term = 1, ap_index = 2\<rparr>
     (sm_engine sample_first), sm_applied := 2\<rparr>"

definition sample_sealed :: "kv_state state_machine" where
  "sample_sealed = sample_written\<lparr>sm_engine := kv_apply [Put Default RANGE_KEY (dr_encode range_sealed)]
     \<lparr>ap_term = 1, ap_index = 3\<rparr> (sm_engine sample_written), sm_applied := 3\<rparr>"

lemma sample_key_not_reserved: "sample_key \<noteq> RANGE_KEY" "sample_key \<noteq> CLOCK_KEY" "CLOCK_KEY \<noteq> RANGE_KEY"
  by (simp_all add: sample_key_def RANGE_KEY_def CLOCK_KEY_def)

definition sealing_log :: "committed_entry list" where
  "sealing_log = [sample_entry 1 (DataRangeCmd None range_sample), sample_entry 2 (sample_write 1), sample_entry 3 sample_seal]"

lemma sealing_group_log: "group_log (sealing_log @ [sample_entry 4 (sample_write 2)])"
  by (simp add: sealing_log_def sample_entry_ok [OF sample_ok(1)] sample_entry_ok [OF sample_ok(2)] sample_entry_ok [OF sealed_ok(2)])
    (simp add: group_cmd_def sample_write_def sample_seal_def)

lemma drive_one:
  "command_ok cmd \<Longrightarrow> drive_apply sha256 J S (sample_entry i cmd # es) sm =
     (case apply_unobserved sha256 J S \<lparr>ap_term = 1, ap_index = i\<rparr> cmd sm of
        (sm1, Inl e) \<Rightarrow> (sm1, Inl e)
      | (sm1, Inr x) \<Rightarrow>
          (case drive_apply sha256 J S es sm1 of (sm2, Inl e) \<Rightarrow> (sm2, Inl e) | (sm2, Inr xs) \<Rightarrow> (sm2, Inr (x # xs))))"
  by (simp add: sample_entry_def sm_apply_def apply_at_def cmd_decode_encode)

lemma sealing_rest:
  "drive_apply (\<lambda>_. 0) J kv_store [sample_entry 2 (sample_write 1), sample_entry 3 sample_seal] sample_first
     = (sample_sealed, Inr [write_ok 2, write_ok 3])"
proof -
  have two: "apply_unobserved (\<lambda>_. 0) J kv_store \<lparr>ap_term = 1, ap_index = 2\<rparr> (sample_write 1) sample_first
      = (sample_written, Inr (write_ok 2))"
    using sample_step [OF sample_first_reads(1-3), of "\<lparr>ap_term = 1, ap_index = 2\<rparr>" "\<lambda>_. 0" J 1]
    by (simp add: sample_first_reads sample_written_def write_ok_def)
  have three: "apply_unobserved (\<lambda>_. 0) J kv_store \<lparr>ap_term = 1, ap_index = 3\<rparr> sample_seal sample_written
      = (sample_sealed, Inr (write_ok 3))"
    by (subst sample_seal_step)
      (simp_all add: sample_written_def sample_sealed_def sample_first_reads sample_key_not_reserved)
  show ?thesis
    by (simp add: drive_one [OF sample_ok(2)] drive_one [OF sealed_ok(2)] two three del: drive_apply.simps(2))
qed

lemma sealing_run:
  "drive_apply (\<lambda>_. 0) J kv_store sealing_log (fresh_group kv_store sample_ident kv_empty)
     = (sample_sealed, Inr [write_ok 1, write_ok 2, write_ok 3])"
  by (simp add: sealing_log_def drive_one [OF sample_ok(1)] sample_step1 sealing_rest del: drive_apply.simps(2))

theorem sealed_range_frozen_witness:
  "\<exists>sm' res'. drive_apply (\<lambda>_. 0) flat_json kv_store [sample_entry 4 (sample_write 2)] sample_sealed = (sm', res')
     \<and> rf_current kv_store sample_ident (sm_engine sm') = Inr (Some range_sealed)
     \<and> sm_get kv_store sm' Default sample_key = Inr (Some [7])"
proof -
  obtain sm' res' where d: "drive_apply (\<lambda>_. 0) flat_json kv_store [sample_entry 4 (sample_write 2)] sample_sealed = (sm', res')"
    by fastforce
  have "kv_ok (sm_engine sample_written)" using sample_first_reads(7) by (simp add: sample_written_def)
  then have "rf_current kv_store sample_ident (sm_engine sample_sealed) = Inr (Some range_sealed)"
    and got: "sm_get kv_store sample_sealed Default sample_key = Inr (Some [7])"
    using sealed_ok(1,3) sample_key_not_reserved
    by (simp_all add: sample_sealed_def rf_current_def read_as_def dr_decode_encode sm_get_def)
      (simp add: sample_written_def sample_first_reads)
  moreover have "dr_sealed range_sealed" by (simp add: range_sealed_def)
  moreover have "decode_key sample_key = Inr \<lparr>dk_mode = Raw, dk_keyspace = 100, dk_user_key = [0x63]\<rparr>"
    by (simp add: sample_key_def decode_key_def from_byte_def)
  ultimately show ?thesis
    using sealed_range_frozen [OF sample_identity sealing_group_log sealing_run _ _ d] d by fastforce
qed

section \<open>The life of a range\<close>

definition range_age :: "data_range \<Rightarrow> bool" where
  "range_age c \<longleftrightarrow> dr_conf_ver c = 1 \<and> dr_version c = (if dr_sealed c then 2 else 1)"

lemma range_step_age: "range_step r r' \<Longrightarrow> pred_option range_age r \<Longrightarrow> pred_option range_age r'"
  by (auto simp: range_step_def range_age_def dr_may_follow_def checked_add_def split: option.splits if_splits)

lemma range_steps_age: "range_step\<^sup>*\<^sup>* r r' \<Longrightarrow> pred_option range_age r \<Longrightarrow> pred_option range_age r'"
  by (induction rule: rtranclp_induct) (auto dest: range_step_age)

lemma range_steps_published:
  assumes "range_step\<^sup>*\<^sup>* (Some c) r'" "range_age c"
  shows "r' = Some c \<or> (\<not> dr_sealed c \<and> r' = Some (c\<lparr>dr_version := 2, dr_sealed := True\<rparr>))"
  using assms
proof (induction rule: rtranclp_induct)
  case (step y z)
  then consider "y = Some c" | "\<not> dr_sealed c" "y = Some (c\<lparr>dr_version := 2, dr_sealed := True\<rparr>)" by blast
  then show ?case
  proof cases
    case 1
    with step.hyps(2) step.prems show ?thesis
      by (auto simp: range_step_def range_age_def dr_may_follow_def checked_add_def split: option.splits if_splits)
  next
    case 2
    with range_step_sealed step.hyps(2) show ?thesis by fastforce
  qed
qed simp

text \<open>
  C20. The life of a range. At any point of a data group's log the group holds no range, or a valid
  one of its own identity, either unsealed at version 1 or sealed at version 2, both at configuration
  version 1. From then on, whatever the rest of the log holds, the range is never withdrawn and never
  changed except by the one seal, which sets the flag, raises the version by exactly one and leaves
  the tenant, the keyspace, both bounds and the identity as they were.
\<close>

theorem range_lifecycle:
  assumes "identity_ok ident" and "group_log (es @ es')"
    and "drive_apply sha256 J kv_store es (fresh_group kv_store ident kv_empty) = (sm, res)"
    and "drive_apply sha256 J kv_store es' sm = (sm', res')"
  shows "\<exists>r r'. rf_current kv_store ident (sm_engine sm) = Inr r \<and> rf_current kv_store ident (sm_engine sm') = Inr r'
    \<and> (\<forall>c. r = Some c \<longrightarrow>
         dr_validate c = Inr () \<and> range_identity c = ident \<and> dr_conf_ver c = 1 \<and> dr_version c = (if dr_sealed c then 2 else 1)
         \<and> (r' = Some c \<or> (\<not> dr_sealed c \<and> r' = Some (c\<lparr>dr_version := 2, dr_sealed := True\<rparr>))))"
proof -
  have log: "group_log es" "group_log es'" using assms(2) by simp_all
  obtain r w where r: "group_inv ident r w sm" "range_step\<^sup>*\<^sup>* None r"
    using reaches_drive [OF fresh_inv [OF assms(1)] log(1) assms(3)] by blast
  obtain r' w' where r': "group_inv ident r' w' sm'" "range_step\<^sup>*\<^sup>* r r'"
    using reaches_drive [OF r(1) log(2) assms(4)] by blast
  have age: "range_age c" if "r = Some c" for c using range_steps_age [OF r(2)] that by simp
  have "dr_validate c = Inr () \<and> range_identity c = ident" if "r = Some c" for c
    using r(1) that by (simp add: group_inv_def stored_range_def)
  with age range_steps_published r'(2) have "\<forall>c. r = Some c \<longrightarrow>
         dr_validate c = Inr () \<and> range_identity c = ident \<and> dr_conf_ver c = 1 \<and> dr_version c = (if dr_sealed c then 2 else 1)
         \<and> (r' = Some c \<or> (\<not> dr_sealed c \<and> r' = Some (c\<lparr>dr_version := 2, dr_sealed := True\<rparr>)))"
    unfolding range_age_def by blast
  with group_current [OF r(1)] group_current [OF r'(1)] show ?thesis by blast
qed

theorem range_lifecycle_witness:
  "\<exists>sm'. drive_apply (\<lambda>_. 0) flat_json kv_store [sample_entry 2 (sample_write 1), sample_entry 3 sample_seal] sample_first
       = (sm', Inr [write_ok 2, write_ok 3])
     \<and> rf_current kv_store sample_ident (sm_engine sample_first) = Inr (Some range_sample)
     \<and> rf_current kv_store sample_ident (sm_engine sm') = Inr (Some (range_sample\<lparr>dr_version := 2, dr_sealed := True\<rparr>))"
proof -
  have log: "group_log ([sample_entry 1 (DataRangeCmd None range_sample)] @ [sample_entry 2 (sample_write 1), sample_entry 3 sample_seal])"
    using sealing_group_log by (simp add: sealing_log_def)
  have now: "rf_current kv_store sample_ident (sm_engine sample_first) = Inr (Some range_sample)"
    by (simp add: rf_current_def read_as_def sample_first_reads sample_range sample_ident_def)
  have "kv_get (sm_engine sample_sealed) Default RANGE_KEY \<noteq> Some (dr_encode range_sample)"
    using sealed_ok dr_decode_encode [OF sealed_ok(1)] sample_first_reads(7) sample_range
    by (auto simp: sample_sealed_def sample_written_def)
  then have "rf_current kv_store sample_ident (sm_engine sample_sealed) \<noteq> Inr (Some range_sample)"
    by (auto simp: rf_current_def read_as_def bind_res_Inr_iff dest!: dr_decode_Inr split: option.splits if_splits sum.splits)
  moreover obtain r r' where "rf_current kv_store sample_ident (sm_engine sample_first) = Inr r"
    "rf_current kv_store sample_ident (sm_engine sample_sealed) = Inr r'"
    "\<forall>c. r = Some c \<longrightarrow> (r' = Some c \<or> (\<not> dr_sealed c \<and> r' = Some (c\<lparr>dr_version := 2, dr_sealed := True\<rparr>)))"
    using range_lifecycle [OF sample_identity log sample_first_run(2) sealing_rest] by blast
  ultimately have "rf_current kv_store sample_ident (sm_engine sample_sealed)
      = Inr (Some (range_sample\<lparr>dr_version := 2, dr_sealed := True\<rparr>))" using now by auto
  with now sealing_rest show ?thesis by blast
qed

end
