(* ===== verification/VersionedGc.thy ===== *)
theory VersionedGc
  imports VersionedEngine
begin

text \<open>
  The garbage collector of \<open>VersionedMemEngine\<close>: which entries a leg removes, that no reader at a
  live version sees a difference - at any point of the removal - that every leg returns, and that a
  full collection leaves exactly what live readers can still see.
\<close>

section \<open>What is garbage\<close>

definition superseded :: "u64 \<Rightarrow> ventry list \<Rightarrow> ventry \<Rightarrow> bool" where
  "superseded oldest xs e \<longleftrightarrow> (\<exists>x\<in>set xs. vk_key (fst x) = vk_key (fst e)
     \<and> vk_version (fst e) < vk_version (fst x) \<and> vk_version (fst x) \<le> oldest)"

definition garbage :: "u64 \<Rightarrow> ventry list \<Rightarrow> ventry \<Rightarrow> bool" where
  "garbage oldest xs e \<longleftrightarrow> vk_version (fst e) \<le> oldest \<and> (snd e = None \<or> superseded oldest xs e)"

definition clean :: "u64 \<Rightarrow> ventry list \<Rightarrow> ventry list" where
  "clean oldest xs = filter (\<lambda>e. \<not> garbage oldest xs e) xs"

lemma slot_at_None_iff:
  "slot_at version xs key = None \<longleftrightarrow> (\<forall>e\<in>set xs. \<not> (vk_key (fst e) = key \<and> vk_version (fst e) \<le> version))"
  by (auto simp: slot_at_def find_None_iff)

lemma slot_at_Some_iff:
  assumes "om_ok xs"
  shows "slot_at version xs key = Some sl \<longleftrightarrow>
    (\<exists>k. (k, sl) \<in> set xs \<and> vk_key k = key \<and> vk_version k \<le> version \<and>
      (\<forall>e\<in>set xs. vk_key (fst e) = key \<and> vk_version (fst e) \<le> version \<longrightarrow> vk_version (fst e) \<le> vk_version k))"
  using assms
proof (induction xs)
  case (Cons x xs)
  obtain k' sl' where x: "x = (k', sl')" by fastforce
  have later: "vk_version (fst e) < vk_version k'" if "e \<in> set xs" "vk_key (fst e) = vk_key k'" for e
    using Cons.prems that by (auto simp: x om_ok_Cons vk_less_iff)
  have IH: "slot_at version xs key = Some sl \<longleftrightarrow>
    (\<exists>k. (k, sl) \<in> set xs \<and> vk_key k = key \<and> vk_version k \<le> version \<and>
      (\<forall>e\<in>set xs. vk_key (fst e) = key \<and> vk_version (fst e) \<le> version \<longrightarrow> vk_version (fst e) \<le> vk_version k))"
    using Cons by (simp add: om_ok_Cons)
  show ?case
  proof (cases "vk_key k' = key \<and> vk_version k' \<le> version")
    case True
    then show ?thesis using later by (fastforce simp: x slot_at_Cons)
  next
    case False
    then show ?thesis using IH by (auto simp: x slot_at_Cons)
  qed
qed simp

text \<open>Removing one entry that is superseded, or that is a tombstone with nothing older left.\<close>

lemma remove_invisible:
  assumes ok: "om_ok xs" and mem: "(k, sl) \<in> set xs" and old: "vk_version k \<le> oldest" "oldest \<le> version"
    and why: "superseded oldest xs (k, sl) \<or>
      sl = None \<and> (\<forall>e\<in>set xs. vk_key (fst e) = vk_key k \<longrightarrow> vk_version k \<le> vk_version (fst e))"
  shows "live version (om_remove k xs) = live version xs"
proof (rule om_ext)
  have ok': "om_ok (om_remove k xs)" using ok by simp
  have set': "set (om_remove k xs) = {e \<in> set xs. fst e \<noteq> k}" by (auto simp: om_remove_def)
  show "om_ok (live version (om_remove k xs))" "om_ok (live version xs)" using ok by simp_all
  show "map_of (live version (om_remove k xs)) = map_of (live version xs)"
  proof (rule ext)
    fix key
    have same: "slot_at version (om_remove k xs) key = slot_at version xs key"
      if "\<not> (slot_at version xs key = Some None \<and> slot_at version (om_remove k xs) key = None)"
    proof (cases "slot_at version (om_remove k xs) key")
      case None
      then have none: "\<forall>e\<in>set xs. fst e \<noteq> k \<longrightarrow> \<not> (vk_key (fst e) = key \<and> vk_version (fst e) \<le> version)"
        by (auto simp: slot_at_None_iff set')
      show ?thesis
      proof (cases "slot_at version xs key")
        case (Some sl')
        then obtain k' where k': "(k', sl') \<in> set xs" "vk_key k' = key" "vk_version k' \<le> version"
          unfolding slot_at_Some_iff [OF ok] by blast
        with none have "k' = k" by auto
        then have "sl' = sl" using k' mem ok by (metis om_mem_iff option.inject)
        from why none \<open>k' = k\<close> k'(2) old have "sl = None"
          by (force simp: superseded_def)
        with that Some None \<open>sl' = sl\<close> show ?thesis by simp
      qed (simp add: None)
    next
      case (Some sl')
      then obtain k' where m: "(k', sl') \<in> set (om_remove k xs)" and k': "vk_key k' = key" "vk_version k' \<le> version"
        and t: "\<forall>e\<in>set (om_remove k xs). vk_key (fst e) = key \<and> vk_version (fst e) \<le> version
          \<longrightarrow> vk_version (fst e) \<le> vk_version k'"
        unfolding slot_at_Some_iff [OF ok'] by blast
      have m: "(k', sl') \<in> set xs" "k' \<noteq> k" using m by (simp_all add: set')
      have top: "vk_version (fst e) \<le> vk_version k'"
        if "e \<in> set xs" "fst e \<noteq> k" "vk_key (fst e) = key" "vk_version (fst e) \<le> version" for e
        using bspec [OF t, of e] that by (simp add: set')
      have "vk_version k \<le> vk_version k'" if key: "vk_key k = key"
      proof (cases "superseded oldest xs (k, sl)")
        case True
        then obtain x where x: "x \<in> set xs" "vk_key (fst x) = key" "vk_version k < vk_version (fst x)"
          "vk_version (fst x) \<le> oldest" using key by (auto simp: superseded_def)
        have "vk_version (fst x) \<le> vk_version k'"
          using x(3) order_trans [OF x(4) old(2)] by (intro top x(1,2)) auto
        with x(3) show ?thesis by simp
      next
        case False
        with why m k' key show ?thesis by force
      qed
      then have "vk_version (fst e) \<le> vk_version k'"
        if "e \<in> set xs" "vk_key (fst e) = key" "vk_version (fst e) \<le> version" for e
        using top [OF that(1) _ that(2,3)] that(2) by (cases "fst e = k") auto
      with m k' have "slot_at version xs key = Some sl'"
        unfolding slot_at_Some_iff [OF ok] by (intro exI [of _ k']) simp
      with Some show ?thesis by simp
    qed
    show "map_of (live version (om_remove k xs)) key = map_of (live version xs) key"
      using same
      by (cases "slot_at version xs key = Some None \<and> slot_at version (om_remove k xs) key = None")
        (auto simp: live_get ok ok' option_flatten_def)
  qed
qed

text \<open>
  Removing garbage in the collector's order - oldest versions first within a key - is invisible at
  every step. \<open>es\<close> are the entries a leg scanned: whole keys of the tree's contents.
\<close>

definition whole_keys :: "ventry list \<Rightarrow> ventry list \<Rightarrow> bool" where
  "whole_keys es xs \<longleftrightarrow> set es \<subseteq> set xs \<and>
     (\<forall>x\<in>set xs. (\<exists>e\<in>set es. vk_key (fst e) = vk_key (fst x)) \<longrightarrow> x \<in> set es)"

definition removed_after :: "u64 \<Rightarrow> ventry list \<Rightarrow> ventry list \<Rightarrow> versioned_key \<Rightarrow> ventry list" where
  "removed_after oldest es xs k = filter (\<lambda>e. \<not> (e \<in> set es \<and> garbage oldest xs e \<and> k < fst e)) xs"

lemma remove_next_invisible:
  assumes ok: "om_ok xs" and es: "whole_keys es xs" and e: "(k, sl) \<in> set es" "garbage oldest xs (k, sl)"
    and v: "oldest \<le> version"
  shows "live version (om_remove k (removed_after oldest es xs k)) = live version (removed_after oldest es xs k)"
proof (rule remove_invisible [where oldest = oldest])
  let ?ys = "removed_after oldest es xs k"
  have mem: "(k, sl) \<in> set xs" using es e(1) by (auto simp: whole_keys_def)
  show "om_ok ?ys" using ok by (simp add: removed_after_def)
  show "(k, sl) \<in> set ?ys" using mem by (simp add: removed_after_def)
  show "vk_version k \<le> oldest" "oldest \<le> version" using e(2) v by (simp_all add: garbage_def)
  have keep: "x \<in> set ?ys" if "x \<in> set xs" "fst x \<le> k" for x
    using that by (auto simp: removed_after_def not_less)
  show "superseded oldest ?ys (k, sl) \<or>
      sl = None \<and> (\<forall>x\<in>set ?ys. vk_key (fst x) = vk_key k \<longrightarrow> vk_version k \<le> vk_version (fst x))"
  proof (cases "superseded oldest xs (k, sl)")
    case True
    then obtain x where x: "x \<in> set xs" "vk_key (fst x) = vk_key k" "vk_version k < vk_version (fst x)"
      "vk_version (fst x) \<le> oldest" by (auto simp: superseded_def)
    then have "x \<in> set ?ys" by (intro keep) (auto simp: vk_le_iff)
    with x show ?thesis by (auto simp: superseded_def)
  next
    case False
    with e(2) have "sl = None" by (simp add: garbage_def)
    moreover have "vk_version k \<le> vk_version (fst x)" if x: "x \<in> set ?ys" "vk_key (fst x) = vk_key k" for x
    proof (rule ccontr)
      assume "\<not> ?thesis"
      then have lt: "vk_version (fst x) < vk_version k" by simp
      have xs: "x \<in> set xs" using x(1) by (simp add: removed_after_def)
      then have "x \<in> set es" using es e(1) x(2) by (force simp: whole_keys_def)
      moreover have "garbage oldest xs x"
        using mem lt x(2) e(2) by (force simp: garbage_def superseded_def)
      moreover have "k < fst x" using lt x(2) by (simp add: vk_less_iff)
      ultimately show False using x(1) by (simp add: removed_after_def)
    qed
    ultimately show ?thesis by blast
  qed
qed

definition doomed :: "u64 \<Rightarrow> ventry list \<Rightarrow> ventry list \<Rightarrow> versioned_key list" where
  "doomed oldest xs es = map fst (filter (garbage oldest xs) es)"

lemma doomed_sorted: "om_ok es \<Longrightarrow> sorted_wrt (<) (doomed oldest xs es)"
  using om_ok_filter [of es "garbage oldest xs"] by (simp add: doomed_def om_ok_def)

lemma doomed_mem:
  assumes ok: "om_ok xs" and es: "set es \<subseteq> set xs" and e: "e \<in> set xs"
  shows "fst e \<in> set (doomed oldest xs es) \<longleftrightarrow> e \<in> set es \<and> garbage oldest xs e"
proof -
  have "e = x" if x: "x \<in> set es" "fst x = fst e" for x
  proof -
    have "x \<in> set xs" using es x(1) by auto
    then have "map_of xs (fst e) = Some (snd x)" using om_mem_iff [OF ok, of "fst x" "snd x"] by (simp add: x(2) [symmetric])
    moreover have "map_of xs (fst e) = Some (snd e)" using om_mem_iff [OF ok, of "fst e" "snd e"] e by simp
    ultimately show ?thesis using x(2) by (simp add: prod_eq_iff)
  qed
  then show ?thesis by (force simp: doomed_def)
qed

lemma removes_removed_after:
  assumes ok: "om_ok xs" "om_ok es" and es: "set es \<subseteq> set xs" and split: "rev (doomed oldest xs es) = a @ k # b"
  shows "fold om_remove a xs = removed_after oldest es xs k"
proof -
  have "sorted_wrt (\<lambda>x y. y < x) (a @ k # b)"
    using doomed_sorted [OF ok(2), of oldest xs] unfolding split [symmetric] by (simp add: sorted_wrt_rev)
  then have a: "\<forall>x\<in>set a. k < x" and b: "\<forall>x\<in>set b. x < k" by (auto simp: sorted_wrt_append)
  have "set (doomed oldest xs es) = set a \<union> insert k (set b)"
    using arg_cong [OF split, of set] by auto
  with a b have "x \<in> set a \<longleftrightarrow> x \<in> set (doomed oldest xs es) \<and> k < x" for x by auto
  with doomed_mem [OF ok(1) es] show ?thesis by (auto simp: om_removes removed_after_def intro!: filter_cong)
qed

lemma removes_invisible:
  assumes ok: "om_ok xs" "om_ok es" and es: "whole_keys es xs" and v: "oldest \<le> version"
    and split: "rev (doomed oldest xs es) = a @ b"
  shows "live version (fold om_remove a xs) = live version xs"
  using split
proof (induction a arbitrary: b rule: rev_induct)
  case (snoc k a)
  have sub: "set es \<subseteq> set xs" using es by (simp add: whole_keys_def)
  have "k \<in> set (doomed oldest xs es)" using arg_cong [OF snoc.prems, of set] by auto
  then obtain sl where "(k, sl) \<in> set es" "garbage oldest xs (k, sl)" by (auto simp: doomed_def)
  from remove_next_invisible [OF ok(1) es this v] removes_removed_after [OF ok sub, of oldest a k b] snoc.prems
    snoc.IH [of "k # b"]
  show ?case by simp
qed simp

lemma removes_all:
  assumes ok: "om_ok xs" and es: "set es \<subseteq> set xs"
  shows "fold om_remove (rev (doomed oldest xs es)) xs = filter (\<lambda>e. \<not> (e \<in> set es \<and> garbage oldest xs e)) xs"
  using doomed_mem [OF assms] by (auto simp: om_removes intro!: filter_cong)

section \<open>One scan of the collector\<close>

text \<open>After the entries \<open>pre\<close> of the scanned sequence \<open>es\<close>.\<close>

definition gc_scanned :: "u64 \<Rightarrow> ventry list \<Rightarrow> ventry list \<Rightarrow> nat \<Rightarrow> gc_scan \<Rightarrow> bool" where
  "gc_scanned oldest es pre base s \<longleftrightarrow>
     gs_doomed s = doomed oldest es pre \<and> gs_scanned s = base + length pre \<and> gs_resume s = None \<and>
     (if pre = [] then \<forall>e\<in>set es. gs_current s \<noteq> Some (vk_key (fst e))
      else gs_current s = Some (vk_key (fst (last pre))) \<and>
        (gs_kept s \<longleftrightarrow> (\<exists>x\<in>set pre. vk_key (fst x) = vk_key (fst (last pre)) \<and> vk_version (fst x) \<le> oldest)))"

definition gc_stopped :: "u64 \<Rightarrow> nat \<Rightarrow> ventry list \<Rightarrow> nat \<Rightarrow> gc_scan \<Rightarrow> ventry list \<Rightarrow> ventry list \<Rightarrow> bool" where
  "gc_stopped oldest budget es base s pre post \<longleftrightarrow> es = pre @ post \<and>
     gc_scanned oldest es pre base (s\<lparr>gs_resume := None\<rparr>) \<and>
     (case post of
        [] \<Rightarrow> gs_resume s = None
      | e # _ \<Rightarrow> gs_resume s = Some (first_of (vk_key (fst e)))
          \<and> (pre \<noteq> [] \<longrightarrow> vk_key (fst (last pre)) \<noteq> vk_key (fst e))
          \<and> (gs_budget_spent s \<longleftrightarrow> budget \<le> base + length pre)
          \<and> (CHUNK \<le> length (doomed oldest es pre) \<or> budget \<le> base + length pre))"

lemma superseded_prefix:
  assumes "om_ok (pre @ (k, sl) # post)"
  shows "superseded oldest (pre @ (k, sl) # post) (k, sl) \<longleftrightarrow>
    (\<exists>x\<in>set pre. vk_key (fst x) = vk_key k \<and> vk_version (fst x) \<le> oldest)"
proof -
  have pre: "fst x < k" if "x \<in> set pre" for x using assms that by (simp add: om_ok_append)
  have after: "k < fst x" if "x \<in> set post" for x using assms that by (simp add: om_ok_append om_ok_Cons)
  have post: "\<not> vk_version k < vk_version (fst x)" if "x \<in> set post" "vk_key (fst x) = vk_key k" for x
    using after [OF that(1)] that(2) by (auto simp: vk_less_iff)
  have "vk_version k < vk_version (fst x)" if "x \<in> set pre" "vk_key (fst x) = vk_key k" for x
    using pre [OF that(1)] that(2) by (simp add: vk_less_iff)
  with post show ?thesis unfolding superseded_def by auto
qed

lemma garbage_head:
  assumes "om_ok (pre @ (k, sl) # post)"
  shows "garbage oldest (pre @ (k, sl) # post) (k, sl) \<longleftrightarrow> vk_version k \<le> oldest \<and>
    (sl = None \<or> (\<exists>x\<in>set pre. vk_key (fst x) = vk_key k \<and> vk_version (fst x) \<le> oldest))"
  by (simp add: garbage_def superseded_prefix [OF assms])

text \<open>Keys are contiguous: before an entry, its key is the last one scanned or was not scanned.\<close>

lemma prefix_key:
  assumes ok: "om_ok (pre @ (k, sl) # post)" and x: "x \<in> set pre" "vk_key (fst x) = vk_key k"
  shows "vk_key (fst (last pre)) = vk_key k"
proof -
  have ne: "pre \<noteq> []" using x by auto
  have "fst x \<le> fst (last pre)"
  proof -
    obtain p y where p: "pre = p @ [y]" using ne by (cases pre rule: rev_cases) auto
    with ok x(1) show ?thesis by (auto simp: om_ok_append intro: less_imp_le)
  qed
  moreover have "fst (last pre) < k" using ok ne by (simp add: om_ok_append)
  ultimately have "vk_key (fst x) \<le> vk_key (fst (last pre))" "vk_key (fst (last pre)) \<le> vk_key k"
    by (auto intro: vk_key_mono less_imp_le)
  with x(2) show ?thesis by simp
qed

lemma gc_visit_step:
  assumes ok: "om_ok (pre @ (k, sl) # post)" and s: "gc_scanned oldest (pre @ (k, sl) # post) pre base s"
    and v: "gc_visit oldest budget (k, sl) s = (s', r)"
  shows "r = None \<Longrightarrow> gc_scanned oldest (pre @ (k, sl) # post) (pre @ [(k, sl)]) base s'"
    and "r \<noteq> None \<Longrightarrow> gc_stopped oldest budget (pre @ (k, sl) # post) base s' pre ((k, sl) # post)"
proof -
  let ?es = "pre @ (k, sl) # post"
  let ?seen = "\<exists>x\<in>set pre. vk_key (fst x) = vk_key k \<and> vk_version (fst x) \<le> oldest"
  have fresh: "\<not> ?seen" if "gs_current s \<noteq> Some (vk_key k)"
    using s that prefix_key [OF ok] by (auto simp: gc_scanned_def split: if_splits)
  have kept: "gs_kept s \<longleftrightarrow> ?seen" if "gs_current s = Some (vk_key k)"
    using s that by (cases "pre = []") (auto simp: gc_scanned_def)
  have d: "doomed oldest ?es (pre @ [(k, sl)]) = doomed oldest ?es pre @ (if garbage oldest ?es (k, sl) then [k] else [])"
    by (simp add: doomed_def)
  show "gc_scanned oldest ?es (pre @ [(k, sl)]) base s'" if "r = None"
    using v that fresh kept s
    by (auto simp: gc_scanned_def gc_visit_def d garbage_head [OF ok] Let_def not_less split: if_splits)
  show "gc_stopped oldest budget ?es base s' pre ((k, sl) # post)" if "r \<noteq> None"
    using v that s by (auto simp: gc_stopped_def gc_scanned_def gc_visit_def Let_def split: if_splits)
qed

lemma gc_scan_correct:
  assumes "om_ok (pre @ post)" "gc_scanned oldest (pre @ post) pre base s"
  shows "\<exists>pre' post'. gc_stopped oldest budget (pre @ post) base (fst (scan_fold (gc_visit oldest budget) post s)) pre' post'
    \<and> (pre \<noteq> [] \<longrightarrow> pre' \<noteq> [])"
  using assms
proof (induction post arbitrary: pre s)
  case Nil
  then show ?case by (intro exI [of _ pre] exI [of _ "[]"]) (simp add: gc_stopped_def gc_scanned_def)
next
  case (Cons e post)
  obtain k sl where e: "e = (k, sl)" by fastforce
  obtain s' r where v: "gc_visit oldest budget (k, sl) s = (s', r)" by fastforce
  note step = gc_visit_step [OF Cons.prems [unfolded e] v]
  show ?case
  proof (cases r)
    case None
    have "gc_scanned oldest ((pre @ [e]) @ post) (pre @ [e]) base s'" using step(1) [OF None] e by simp
    from Cons.IH [OF _ this] Cons.prems(1) obtain pre' post' where
      "gc_stopped oldest budget (pre @ e # post) base (fst (scan_fold (gc_visit oldest budget) post s')) pre' post'"
      "pre' \<noteq> []" by auto
    with v None e show ?thesis by (intro exI [of _ pre'] exI [of _ post']) simp
  next
    case (Some u)
    with step(2) v e show ?thesis by (intro exI [of _ pre] exI [of _ "(k, sl) # post"]) simp
  qed
qed

section \<open>One round\<close>

definition cursor_ok :: "gc_cursor \<Rightarrow> bool" where
  "cursor_ok c \<longleftrightarrow> gc_cf c < length cf_all \<and>
     (case gc_resume c of
        None \<Rightarrow> gc_current c = None
      | Some r \<Rightarrow> r = first_of (vk_key r) \<and> (\<forall>key. gc_current c = Some key \<longrightarrow> key < vk_key r))"

text \<open>The entries a cursor has still to see in its column family.\<close>

definition ahead :: "gc_cursor \<Rightarrow> ventry list \<Rightarrow> ventry list" where
  "ahead c xs = filter (\<lambda>e. case gc_resume c of None \<Rightarrow> True | Some r \<Rightarrow> r \<le> fst e) xs"

definition cursor_family :: "gc_cursor \<Rightarrow> column_family" where
  "cursor_family c = cf_all ! gc_cf c"

definition swept :: "u64 \<Rightarrow> ventry list \<Rightarrow> ventry list \<Rightarrow> ventry list" where
  "swept oldest pre xs = filter (\<lambda>e. \<not> (e \<in> set pre \<and> garbage oldest xs e)) xs"

lemma ahead_ok: "om_ok xs \<Longrightarrow> om_ok (ahead c xs)"
  by (simp add: ahead_def)

lemma ahead_whole:
  assumes "cursor_ok c"
  shows "whole_keys (ahead c xs) xs"
proof (cases "gc_resume c")
  case (Some r)
  then obtain key where "r = first_of key" using assms by (auto simp: cursor_ok_def)
  with Some show ?thesis by (auto simp: whole_keys_def ahead_def)
qed (auto simp: whole_keys_def ahead_def)

lemma split_keys:
  assumes ok: "om_ok (pre @ e # post)" and ne: "pre \<noteq> [] \<Longrightarrow> vk_key (fst (last pre)) \<noteq> vk_key (fst e)"
    and x: "x \<in> set pre" and y: "y \<in> set (e # post)"
  shows "vk_key (fst x) < vk_key (fst y)"
proof -
  obtain k sl where e: "e = (k, sl)" by fastforce
  have "pre \<noteq> []" using x by auto
  from prefix_key [OF ok [unfolded e] x] ne [OF this] e have "vk_key (fst x) \<noteq> vk_key k" by auto
  moreover have "fst x < k" using ok x e by (simp add: om_ok_append)
  ultimately have "vk_key (fst x) < vk_key k" by (auto simp: vk_less_iff)
  moreover have "vk_key k \<le> vk_key (fst y)"
    using ok y e by (auto simp: om_ok_append om_ok_Cons intro: vk_key_mono less_imp_le)
  ultimately show ?thesis by simp
qed

lemma whole_keys_prefix:
  assumes es: "whole_keys es xs" and ok: "om_ok es" and split: "es = pre @ post"
    and ne: "\<And>e p. post = e # p \<Longrightarrow> pre \<noteq> [] \<Longrightarrow> vk_key (fst (last pre)) \<noteq> vk_key (fst e)"
  shows "whole_keys pre xs"
proof -
  have "x \<in> set pre" if x: "x \<in> set xs" "e \<in> set pre" "vk_key (fst e) = vk_key (fst x)" for x e
  proof (rule ccontr)
    assume "x \<notin> set pre"
    moreover have "x \<in> set es" using es x split by (force simp: whole_keys_def)
    ultimately have "x \<in> set post" using split by auto
    then obtain f p where p: "post = f # p" by (cases post) auto
    have "vk_key (fst e) < vk_key (fst x)"
      using ok split p ne [OF p] x(2) \<open>x \<in> set post\<close> by (intro split_keys [of pre f p]) auto
    with x(3) show False by simp
  qed
  moreover have "set pre \<subseteq> set xs" using es split by (auto simp: whole_keys_def)
  ultimately show ?thesis by (auto simp: whole_keys_def)
qed

lemma garbage_whole:
  assumes "whole_keys es xs" "e \<in> set es"
  shows "garbage oldest es e \<longleftrightarrow> garbage oldest xs e"
proof -
  have "x \<in> set es \<longleftrightarrow> x \<in> set xs" if "vk_key (fst x) = vk_key (fst e)" for x
    using assms that by (force simp: whole_keys_def)
  then show ?thesis by (auto simp: garbage_def superseded_def)
qed

definition gc_start :: "gc_cursor \<Rightarrow> garbage_report \<Rightarrow> gc_scan" where
  "gc_start c rep = \<lparr>gs_current = gc_current c, gs_kept = gc_kept c, gs_scanned = gr_scanned rep,
    gs_doomed = [], gs_resume = None, gs_budget_spent = False\<rparr>"

text \<open>Where a round leaves the cursor and the report.\<close>

definition gc_outcome :: "nat \<Rightarrow> ventry list \<Rightarrow> ventry list \<Rightarrow> gc_cursor \<Rightarrow> garbage_report
    \<Rightarrow> gc_cursor \<Rightarrow> garbage_report \<Rightarrow> bool \<Rightarrow> bool" where
  "gc_outcome budget pre post c rep c' rep' stop \<longleftrightarrow>
     gr_scanned rep' = gr_scanned rep + length pre \<and> gr_oldest_live_version rep' = gr_oldest_live_version rep \<and>
     (case post of
        [] \<Rightarrow> gc_resume c' = None \<and> gc_current c' = None
          \<and> (if Suc (gc_cf c) = length cf_all
             then gc_cf c' = 0 \<and> stop \<and> gr_cycle_complete rep'
             else gc_cf c' = Suc (gc_cf c) \<and> (stop \<longleftrightarrow> budget \<le> gr_scanned rep')
               \<and> gr_cycle_complete rep' = gr_cycle_complete rep)
      | e # _ \<Rightarrow> pre \<noteq> [] \<and> gc_cf c' = gc_cf c \<and> gc_resume c' = Some (first_of (vk_key (fst e)))
          \<and> gc_current c' = Some (vk_key (fst (last pre))) \<and> vk_key (fst (last pre)) < vk_key (fst e)
          \<and> (stop \<longleftrightarrow> budget \<le> gr_scanned rep') \<and> gr_cycle_complete rep' = gr_cycle_complete rep)"

context bbtree_laws
begin

lemma gc_removes:
  assumes "brep t xs" "fold (gc_remove B) ks (t, n) = (t', n')"
  shows "brep t' (fold om_remove ks xs) \<and> n' + length (fold om_remove ks xs) = n + length xs"
  using assms
proof (induction ks arbitrary: t xs n)
  case (Cons k ks)
  obtain t1 r where t1: "bb_remove B t k = (t1, r)" by fastforce
  note rm = bb_remove [OF Cons.prems(1) t1]
  have ok: "om_ok xs" by (rule bb_sorted [OF Cons.prems(1)])
  define n1 where "n1 = (if r = None then n else n + 1)"
  have "gc_remove B k (t, n) = (t1, n1)" by (simp add: gc_remove_def t1 n1_def split: option.split)
  with Cons.prems(2) have "fold (gc_remove B) ks (t1, n1) = (t', n')" by simp
  from Cons.IH [OF conjunct1 [OF rm] this]
  have IH: "brep t' (fold om_remove ks (om_remove k xs))" "n' + length (fold om_remove ks (om_remove k xs)) = n1 + length (om_remove k xs)"
    by simp_all
  have "n1 + length (om_remove k xs) = n + length xs"
  proof (cases "map_of xs k")
    case None
    then have "om_remove k xs = xs" by (auto simp: om_remove_def map_of_eq_None_iff filter_id_conv)
    with None rm show ?thesis by (simp add: n1_def)
  next
    case (Some sl)
    have "om_insert k sl (om_remove k xs) = xs" using ok Some by (intro om_ext) auto
    with om_length_insert [of "om_remove k xs" k sl] ok have "length xs = Suc (length (om_remove k xs))" by simp
    with Some rm show ?thesis by (simp add: n1_def)
  qed
  with IH show ?case by simp
qed simp

text \<open>The scan of a round and the removals it causes.\<close>

lemma gc_range:
  "brep t xs \<Longrightarrow> bb_range B t (case gc_resume c of None \<Rightarrow> Unbounded | Some from \<Rightarrow> Included from) Unbounded = ahead c xs"
  by (cases "gc_resume c") (simp_all add: ahead_def bb_range)

lemma gc_leg:
  assumes t: "brep t xs" and c: "cursor_ok c"
    and s_def: "s = fst (scan_fold (gc_visit oldest budget) (ahead c xs) (gc_start c rep))"
  shows "\<exists>pre post. gc_stopped oldest budget (ahead c xs) (gr_scanned rep) s pre post \<and> om_ok pre \<and> whole_keys pre xs
    \<and> gs_doomed s = doomed oldest xs pre"
proof -
  have ok: "om_ok (ahead c xs)" using bb_sorted [OF t] by (rule ahead_ok)
  have "gc_scanned oldest (ahead c xs) [] (gr_scanned rep) (gc_start c rep)"
    using c by (auto simp: gc_scanned_def gc_start_def doomed_def cursor_ok_def ahead_def split: option.splits)
      (metis first_of_le not_le)
  then obtain pre post where p: "gc_stopped oldest budget (ahead c xs) (gr_scanned rep) s pre post"
    using gc_scan_correct [of "[]" "ahead c xs" oldest "gr_scanned rep" "gc_start c rep" budget] ok unfolding s_def by auto
  have split: "ahead c xs = pre @ post" using p by (simp add: gc_stopped_def)
  have ne: "vk_key (fst (last pre)) \<noteq> vk_key (fst e)" if "post = e # q" "pre \<noteq> []" for e q
    using p that by (simp add: gc_stopped_def)
  have whole: "whole_keys pre xs" by (rule whole_keys_prefix [OF ahead_whole [OF c] ok split ne])
  have "garbage oldest (ahead c xs) e \<longleftrightarrow> garbage oldest xs e" if "e \<in> set pre" for e
    using that by (intro garbage_whole [OF ahead_whole [OF c]]) (simp add: split)
  then have "doomed oldest (ahead c xs) pre = doomed oldest xs pre"
    by (auto simp: doomed_def intro!: arg_cong [of _ _ "map fst"] filter_cong)
  then have "gs_doomed s = doomed oldest xs pre" using p by (simp add: gc_stopped_def gc_scanned_def)
  moreover have "om_ok pre" using ok split by (simp add: om_ok_append)
  ultimately show ?thesis using p whole by blast
qed

text \<open>
  A round scans a run \<open>pre\<close> of whole keys ahead of the cursor and removes the garbage among them; the
  cursor then stands before the rest, or before the next column family.
\<close>

lemma gc_round_correct:
  assumes h: "holds brep sh X" and c: "cursor_ok c" and b: "gr_scanned rep < budget"
    and r: "gc_round B oldest budget (sh, c, rep) = ((sh', c', rep'), stop)"
  defines "cf \<equiv> cursor_family c"
  shows "\<exists>pre post. ahead c (X cf) = pre @ post \<and> whole_keys pre (X cf) \<and> om_ok pre
    \<and> holds brep sh' (X(cf := swept oldest pre (X cf))) \<and> sh' = sh\<lparr>sh_trees := sh_trees sh'\<rparr>
    \<and> gr_removed rep' + length (swept oldest pre (X cf)) = gr_removed rep + length (X cf)
    \<and> gc_outcome budget pre post c rep c' rep' stop"
proof -
  let ?xs = "X cf"
  define s where "s = fst (scan_fold (gc_visit oldest budget) (ahead c ?xs) (gc_start c rep))"
  have t: "brep (sh_trees sh cf) ?xs" using h by (simp add: holds_def)
  obtain pre post where p: "gc_stopped oldest budget (ahead c ?xs) (gr_scanned rep) s pre post"
    and pre: "om_ok pre" "whole_keys pre ?xs" and doom: "gs_doomed s = doomed oldest ?xs pre"
    using gc_leg [OF t c s_def] by blast
  have split: "ahead c ?xs = pre @ post" using p by (simp add: gc_stopped_def)
  obtain t' n' where rm: "fold (gc_remove B) (rev (gs_doomed s)) (sh_trees sh cf, gr_removed rep) = (t', n')" by fastforce
  have rem: "brep t' (swept oldest pre ?xs)" "n' + length (swept oldest pre ?xs) = gr_removed rep + length ?xs"
    using gc_removes [OF t rm] removes_all [OF bb_sorted [OF t], of pre oldest] pre(2)
    by (auto simp: doom swept_def whole_keys_def)
  let ?sh = "sh\<lparr>sh_trees := (sh_trees sh)(cf := t')\<rparr>"
  let ?rep = "rep\<lparr>gr_removed := n', gr_scanned := gs_scanned s\<rparr>"
  let ?c = "c\<lparr>gc_current := gs_current s, gc_kept := gs_kept s\<rparr>"
  have round: "gc_round B oldest budget (sh, c, rep) =
      (case gs_resume s of
         Some nk \<Rightarrow> ((?sh, ?c\<lparr>gc_resume := Some nk\<rparr>, ?rep), gs_budget_spent s)
       | None \<Rightarrow>
           let c2 = \<lparr>gc_cf = gc_cf ?c + 1, gc_resume = None, gc_current = None, gc_kept = False\<rparr>
           in if gc_cf c2 = length cf_all then ((?sh, c2\<lparr>gc_cf := 0\<rparr>, ?rep\<lparr>gr_cycle_complete := True\<rparr>), True)
              else ((?sh, c2, ?rep), budget \<le> gr_scanned ?rep))"
    unfolding gc_round_def using rm
    by (simp only: split_conv Let_def cf_def [unfolded cursor_family_def, symmetric] gc_range [OF t]
        gc_start_def [symmetric] s_def [symmetric])
  have hold: "holds brep ?sh (X(cf := swept oldest pre ?xs))" using h rem(1) by (simp add: holds_def)
  have scanned: "gs_scanned s = gr_scanned rep + length pre" using p by (simp add: gc_stopped_def gc_scanned_def)
  have "gc_outcome budget pre post c rep c' rep' stop \<and> sh' = ?sh \<and> gr_removed rep' = n'"
  proof (cases post)
    case Nil
    then have "gs_resume s = None" using p by (simp add: gc_stopped_def)
    with r round Nil scanned show ?thesis by (auto simp: gc_outcome_def Let_def split: if_splits)
  next
    case (Cons e q)
    have pe: "gs_resume s = Some (first_of (vk_key (fst e)))" "gs_budget_spent s \<longleftrightarrow> budget \<le> gr_scanned rep + length pre"
      and cut: "CHUNK \<le> length (doomed oldest (ahead c ?xs) pre) \<or> budget \<le> gr_scanned rep + length pre"
      and ne: "pre \<noteq> [] \<Longrightarrow> vk_key (fst (last pre)) \<noteq> vk_key (fst e)"
      using p unfolding gc_stopped_def Cons list.case by blast+
    have nonempty: "pre \<noteq> []" using cut b by (auto simp: doomed_def CHUNK_def)
    have cur: "gs_current s = Some (vk_key (fst (last pre)))" using p nonempty by (simp add: gc_stopped_def gc_scanned_def)
    have "om_ok (pre @ e # q)" using ahead_ok [OF bb_sorted [OF t], of c] split Cons by simp
    then have "vk_key (fst (last pre)) < vk_key (fst e)"
      using nonempty ne by (intro split_keys [of pre e q]) auto
    with r round pe cur nonempty Cons scanned show ?thesis by (auto simp: gc_outcome_def)
  qed
  then have "holds brep sh' (X(cf := swept oldest pre ?xs))" "sh' = sh\<lparr>sh_trees := sh_trees sh'\<rparr>"
    "gr_removed rep' + length (swept oldest pre ?xs) = gr_removed rep + length ?xs"
    "gc_outcome budget pre post c rep c' rep' stop"
    using hold rem(2) by auto
  with split pre show ?thesis by blast
qed

end

section \<open>What a round keeps\<close>

text \<open>No reader at \<open>oldest\<close> or later sees a difference, nothing is added, and the same garbage is left to find.\<close>

definition gc_keeps :: "u64 \<Rightarrow> contents \<Rightarrow> contents \<Rightarrow> bool" where
  "gc_keeps oldest X X' \<longleftrightarrow> (\<forall>cf. set (X' cf) \<subseteq> set (X cf) \<and> clean oldest (X' cf) = clean oldest (X cf)
     \<and> (\<forall>version. oldest \<le> version \<longrightarrow> live version (X' cf) = live version (X cf)))"

lemma gc_keeps_refl: "gc_keeps oldest X X"
  by (simp add: gc_keeps_def)

lemma gc_keeps_trans: "gc_keeps oldest X Y \<Longrightarrow> gc_keeps oldest Y Z \<Longrightarrow> gc_keeps oldest X Z"
  by (simp add: gc_keeps_def subset_eq)

lemma swept_garbage:
  assumes "whole_keys pre xs" "e \<in> set (swept oldest pre xs)"
  shows "garbage oldest (swept oldest pre xs) e \<longleftrightarrow> garbage oldest xs e"
proof
  have "set (swept oldest pre xs) \<subseteq> set xs" by (auto simp: swept_def)
  then show "garbage oldest xs e" if "garbage oldest (swept oldest pre xs) e"
    using that unfolding garbage_def superseded_def by blast
  assume g: "garbage oldest xs e"
  have e: "e \<in> set xs" "e \<notin> set pre" using assms(2) g by (auto simp: swept_def)
  have "x \<in> set (swept oldest pre xs)" if "x \<in> set xs" "vk_key (fst x) = vk_key (fst e)" for x
    using assms(1) e that by (force simp: swept_def whole_keys_def)
  with g show "garbage oldest (swept oldest pre xs) e" unfolding garbage_def superseded_def by blast
qed

lemma clean_swept:
  assumes "whole_keys pre xs"
  shows "clean oldest (swept oldest pre xs) = clean oldest xs"
proof -
  have "clean oldest (swept oldest pre xs) = filter (\<lambda>e. \<not> garbage oldest xs e) (swept oldest pre xs)"
    using swept_garbage [OF assms] by (auto simp: clean_def intro!: filter_cong)
  then show ?thesis by (auto simp: clean_def swept_def intro!: filter_cong)
qed

lemma live_swept:
  assumes "om_ok xs" "om_ok pre" "whole_keys pre xs" "oldest \<le> version"
  shows "live version (swept oldest pre xs) = live version xs"
  using removes_invisible [OF assms, of "rev (doomed oldest xs pre)" "[]"] removes_all [OF assms(1), of pre oldest] assms(3)
  by (simp add: swept_def whole_keys_def)

lemma gc_keeps_swept:
  assumes "contents_ok X" "om_ok pre" "whole_keys pre (X cf)"
  shows "gc_keeps oldest X (X(cf := swept oldest pre (X cf)))"
  using assms clean_swept [OF assms(3)] live_swept [OF _ assms(2,3)]
  by (auto simp: gc_keeps_def contents_ok_def swept_def)

text \<open>The families and keys the cursor has passed hold no garbage.\<close>

definition passed_tidy :: "u64 \<Rightarrow> gc_cursor \<Rightarrow> contents \<Rightarrow> bool" where
  "passed_tidy oldest c X \<longleftrightarrow>
     (\<forall>cf\<in>set (take (gc_cf c) cf_all). \<forall>e\<in>set (X cf). \<not> garbage oldest (X cf) e) \<and>
     (\<forall>e\<in>set (X (cursor_family c)). e \<notin> set (ahead c (X (cursor_family c))) \<longrightarrow>
        \<not> garbage oldest (X (cursor_family c)) e)"

text \<open>What is still ahead, over all column families.\<close>

definition remaining :: "gc_cursor \<Rightarrow> contents \<Rightarrow> nat" where
  "remaining c X = length (ahead c (X (cursor_family c)))
     + sum_list (map (\<lambda>cf. length (X cf)) (drop (Suc (gc_cf c)) cf_all))"

lemma cf_all_distinct: "distinct cf_all" "set cf_all = UNIV" "length cf_all = 3"
  by (auto simp: cf_all_def) (metis column_family.exhaust)

lemma cursor_family_notin:
  assumes "gc_cf c < length cf_all"
  shows "cursor_family c \<notin> set (take (gc_cf c) cf_all)" "cursor_family c \<notin> set (drop (Suc (gc_cf c)) cf_all)"
proof -
  have "cf_all = take (gc_cf c) cf_all @ cursor_family c # drop (Suc (gc_cf c)) cf_all"
    using assms by (simp add: cursor_family_def id_take_nth_drop [symmetric])
  then have "distinct (take (gc_cf c) cf_all @ cursor_family c # drop (Suc (gc_cf c)) cf_all)"
    using cf_all_distinct(1) by simp
  then show "cursor_family c \<notin> set (take (gc_cf c) cf_all)" "cursor_family c \<notin> set (drop (Suc (gc_cf c)) cf_all)"
    by simp_all
qed

text \<open>The three facts about the cursor after a round.\<close>

lemma outcome_cursor_ok:
  assumes "cursor_ok c" "gc_outcome budget pre post c rep c' rep' stop"
  shows "cursor_ok c'"
  using assms by (auto simp: gc_outcome_def cursor_ok_def cf_all_distinct(3) split: list.splits if_splits)

lemma ahead_next:
  assumes "gc_outcome budget pre post c rep c' rep' stop" "post = e # q" "ahead c xs = pre @ post" "om_ok xs"
    and resume: "cursor_ok c"
  shows "set (ahead c' (swept oldest pre xs)) \<subseteq> set post" "x \<in> set post \<Longrightarrow> x \<in> set (swept oldest pre xs) \<Longrightarrow> x \<in> set (ahead c' (swept oldest pre xs))"
proof -
  have r: "gc_resume c' = Some (first_of (vk_key (fst e)))" and key: "vk_key (fst (last pre)) < vk_key (fst e)" "pre \<noteq> []"
    using assms(1,2) by (simp_all add: gc_outcome_def)
  have ok: "om_ok (pre @ e # q)" using ahead_ok [OF assms(4), of c] assms(2,3) by simp
  have after: "vk_key (fst e) \<le> vk_key (fst x)" if "x \<in> set post" for x
    using ok that assms(2) by (auto simp: om_ok_append om_ok_Cons intro: vk_key_mono less_imp_le)
  have before: "vk_key (fst x) < vk_key (fst e)" if "x \<in> set pre" for x
    using ok key that by (intro split_keys [of pre e q]) auto
  have behind: "vk_key (fst x) < vk_key (fst e)" if "x \<in> set xs" "x \<notin> set (ahead c xs)" for x
  proof -
    have "fst x < fst e"
    proof (cases "gc_resume c")
      case None
      with that show ?thesis by (simp add: ahead_def)
    next
      case (Some r0)
      have "e \<in> set (ahead c xs)" using assms(2,3) by simp
      with that Some show ?thesis by (auto simp: ahead_def)
    qed
    moreover have "vk_key (fst x) \<noteq> vk_key (fst e)"
    proof
      assume "vk_key (fst x) = vk_key (fst e)"
      moreover have "e \<in> set (ahead c xs)" using assms(2,3) by simp
      ultimately have "x \<in> set (ahead c xs)" using ahead_whole [OF resume, of xs] that(1) by (force simp: whole_keys_def)
      with that(2) show False by simp
    qed
    ultimately show ?thesis by (auto simp: vk_less_iff)
  qed
  show "set (ahead c' (swept oldest pre xs)) \<subseteq> set post"
  proof
    fix x assume x: "x \<in> set (ahead c' (swept oldest pre xs))"
    then have "x \<in> set xs" "vk_key (fst e) \<le> vk_key (fst x)" by (auto simp: ahead_def swept_def r)
    with before behind have "x \<in> set (ahead c xs)" "x \<notin> set pre" by (meson leD)+
    with assms(3) show "x \<in> set post" by simp
  qed
  show "x \<in> set (ahead c' (swept oldest pre xs))" if "x \<in> set post" "x \<in> set (swept oldest pre xs)"
    using that after by (simp add: ahead_def r)
qed

lemma outcome_passed_tidy:
  assumes c: "cursor_ok c" and o: "gc_outcome budget pre post c rep c' rep' stop"
    and split: "ahead c (X (cursor_family c)) = pre @ post" and ok: "contents_ok X"
    and whole: "whole_keys pre (X (cursor_family c))" and tidy: "passed_tidy oldest c X"
  defines "X' \<equiv> X(cursor_family c := swept oldest pre (X (cursor_family c)))"
  shows "if gr_cycle_complete rep' \<and> \<not> gr_cycle_complete rep then \<forall>cf. \<forall>e\<in>set (X' cf). \<not> garbage oldest (X' cf) e
    else passed_tidy oldest c' X'"
proof -
  let ?cf = "cursor_family c"
  have other: "\<forall>cf\<in>set (take (gc_cf c) cf_all). \<forall>e\<in>set (X' cf). \<not> garbage oldest (X' cf) e"
    using tidy cursor_family_notin(1) [of c] c by (auto simp: passed_tidy_def X'_def cursor_ok_def)
  have swept_tidy: "\<not> garbage oldest (X' ?cf) e" if e: "e \<in> set (X' ?cf)" "e \<notin> set post" for e
  proof -
    have "e \<in> set (swept oldest pre (X ?cf))" using e(1) by (simp add: X'_def)
    moreover from this have "\<not> garbage oldest (X ?cf) e"
      using tidy e(2) split by (cases "e \<in> set pre") (auto simp: swept_def passed_tidy_def)
    ultimately show ?thesis using swept_garbage [OF whole] by (simp add: X'_def)
  qed
  show ?thesis
  proof (cases post)
    case (Cons e q)
    have xs: "om_ok (X ?cf)" using ok by (simp add: contents_ok_def)
    have same: "gc_cf c' = gc_cf c" "cursor_family c' = ?cf" "gr_cycle_complete rep' = gr_cycle_complete rep"
      using o Cons by (simp_all add: gc_outcome_def cursor_family_def)
    have "e \<notin> set post" if "e \<in> set (X' ?cf)" "e \<notin> set (ahead c' (X' ?cf))" for e
      using ahead_next(2) [OF o Cons split xs c, of e oldest] that by (auto simp: X'_def)
    with other swept_tidy same show ?thesis by (auto simp: passed_tidy_def)
  next
    case Nil
    have all: "\<forall>cf\<in>set (take (Suc (gc_cf c)) cf_all). \<forall>e\<in>set (X' cf). \<not> garbage oldest (X' cf) e"
      using other swept_tidy Nil c by (auto simp: take_Suc_conv_app_nth cursor_ok_def cursor_family_def)
    show ?thesis
    proof (cases "Suc (gc_cf c) = length cf_all")
      case True
      with all cf_all_distinct(2) have clean: "\<forall>cf. \<forall>e\<in>set (X' cf). \<not> garbage oldest (X' cf) e" by simp
      then have "passed_tidy oldest c' X'" by (simp add: passed_tidy_def)
      with clean show ?thesis by simp
    next
      case False
      with o Nil have "gc_cf c' = Suc (gc_cf c)" "gc_resume c' = None" "gr_cycle_complete rep' = gr_cycle_complete rep"
        by (simp_all add: gc_outcome_def)
      with all show ?thesis by (auto simp: passed_tidy_def ahead_def)
    qed
  qed
qed

lemma om_ok_length_mono: "om_ok xs \<Longrightarrow> om_ok ys \<Longrightarrow> set xs \<subseteq> set ys \<Longrightarrow> length xs \<le> length ys"
  by (metis card_mono distinct_card distinct_map finite_set om_ok_distinct)

lemma outcome_remaining:
  fixes oldest :: u64
  assumes c: "cursor_ok c" and o: "gc_outcome budget pre post c rep c' rep' stop"
    and split: "ahead c (X (cursor_family c)) = pre @ post" and ok: "contents_ok X"
    and more: "\<not> (post = [] \<and> Suc (gc_cf c) = length cf_all)"
  defines "X' \<equiv> X(cursor_family c := swept oldest pre (X (cursor_family c)))"
  shows "remaining c' X' + length pre \<le> remaining c X"
proof -
  let ?cf = "cursor_family c"
  have cf: "gc_cf c < length cf_all" using c by (simp add: cursor_ok_def)
  have later: "map (\<lambda>cf. length (X' cf)) (drop (Suc (gc_cf c)) cf_all) = map (\<lambda>cf. length (X cf)) (drop (Suc (gc_cf c)) cf_all)"
    using cursor_family_notin(2) [OF cf] by (auto simp: X'_def)
  show ?thesis
  proof (cases post)
    case (Cons e q)
    have xs: "om_ok (X ?cf)" using ok by (simp add: contents_ok_def)
    have "om_ok post" using ahead_ok [OF xs, of c] split by (simp add: om_ok_append)
    moreover have "om_ok (ahead c' (swept oldest pre (X ?cf)))" using xs by (simp add: ahead_def swept_def)
    ultimately have "length (ahead c' (swept oldest pre (X ?cf))) \<le> length post"
      using ahead_next(1) [OF o Cons split xs c] by (intro om_ok_length_mono)
    moreover have "gc_cf c' = gc_cf c" "cursor_family c' = ?cf"
      using o Cons by (simp_all add: gc_outcome_def cursor_family_def)
    moreover have "X' ?cf = swept oldest pre (X ?cf)" by (simp add: X'_def)
    ultimately show ?thesis using split by (simp add: remaining_def later)
  next
    case Nil
    with more o have c': "gc_cf c' = Suc (gc_cf c)" "gc_resume c' = None" by (simp_all add: gc_outcome_def)
    have "Suc (gc_cf c) < length cf_all" using cf more Nil by simp
    then have "drop (Suc (gc_cf c)) cf_all = cursor_family c' # drop (Suc (gc_cf c')) cf_all"
      by (simp add: c' cursor_family_def Cons_nth_drop_Suc)
    then have "remaining c' X' = sum_list (map (\<lambda>cf. length (X' cf)) (drop (Suc (gc_cf c)) cf_all))"
      by (simp add: remaining_def ahead_def c')
    then show ?thesis unfolding later using split Nil by (simp add: remaining_def)
  qed
qed

definition gc_measure :: "gc_cursor \<Rightarrow> contents \<Rightarrow> nat" where
  "gc_measure c X = remaining c X + (length cf_all - gc_cf c)"

lemma outcome_measure:
  assumes c: "cursor_ok c" and o: "gc_outcome budget pre post c rep c' rep' stop" and go: "\<not> stop"
    and split: "ahead c (X (cursor_family c)) = pre @ post" and ok: "contents_ok X"
  shows "gc_measure c' (X(cursor_family c := swept oldest pre (X (cursor_family c)))) < gc_measure c X"
    and "gr_scanned rep' < budget"
proof -
  have more: "\<not> (post = [] \<and> Suc (gc_cf c) = length cf_all)" using o go by (auto simp: gc_outcome_def)
  note rem = outcome_remaining [OF c o split ok more, of oldest]
  have cf: "gc_cf c < length cf_all" using c by (simp add: cursor_ok_def)
  show "gc_measure c' (X(cursor_family c := swept oldest pre (X (cursor_family c)))) < gc_measure c X"
  proof (cases post)
    case (Cons e q)
    then have "0 < length pre" "gc_cf c' = gc_cf c" using o by (simp_all add: gc_outcome_def)
    with rem show ?thesis unfolding gc_measure_def by linarith
  next
    case Nil
    with more o have "gc_cf c' = Suc (gc_cf c)" by (simp add: gc_outcome_def)
    with rem cf show ?thesis unfolding gc_measure_def by linarith
  qed
  show "gr_scanned rep' < budget" using o go more by (auto simp: gc_outcome_def split: list.splits if_splits)
qed

section \<open>The loop\<close>

definition total_entries :: "contents \<Rightarrow> nat" where
  "total_entries X = sum_list (map (\<lambda>cf. length (X cf)) cf_all)"

lemma total_entries_update:
  "total_entries (X(cf := ys)) + length (X cf) = total_entries X + length ys"
  by (cases cf) (simp_all add: total_entries_def cf_all_def)

context bbtree_laws
begin

lemma gc_loop_correct:
  assumes "holds brep sh X" "cursor_ok c" "gr_scanned rep < budget" "\<not> gr_cycle_complete rep"
  shows "\<exists>sh' c' rep' X'. gc_loop B oldest budget (sh, c, rep) = Some (sh', c', rep')
    \<and> holds brep sh' X' \<and> sh' = sh\<lparr>sh_trees := sh_trees sh'\<rparr> \<and> cursor_ok c' \<and> gc_keeps oldest X X'
    \<and> gr_removed rep' + total_entries X' = gr_removed rep + total_entries X
    \<and> gr_oldest_live_version rep' = gr_oldest_live_version rep
    \<and> (passed_tidy oldest c X \<longrightarrow>
        (if gr_cycle_complete rep' then \<forall>cf. \<forall>e\<in>set (X' cf). \<not> garbage oldest (X' cf) e else passed_tidy oldest c' X'))
    \<and> (gr_scanned rep + remaining c X < budget \<longrightarrow> gr_cycle_complete rep')"
  using assms
proof (induction "gc_measure c X" arbitrary: sh c rep X rule: less_induct)
  case less
  obtain sh1 c1 rep1 stop where r: "gc_round B oldest budget (sh, c, rep) = ((sh1, c1, rep1), stop)" by (metis prod_cases3 surj_pair)
  let ?cf = "cursor_family c"
  obtain pre post where split: "ahead c (X ?cf) = pre @ post" and pre: "whole_keys pre (X ?cf)" "om_ok pre"
    and h1: "holds brep sh1 (X(?cf := swept oldest pre (X ?cf)))" and sh1: "sh1 = sh\<lparr>sh_trees := sh_trees sh1\<rparr>"
    and rem: "gr_removed rep1 + length (swept oldest pre (X ?cf)) = gr_removed rep + length (X ?cf)"
    and o: "gc_outcome budget pre post c rep c1 rep1 stop"
    using gc_round_correct [OF less.prems(1-3) r] by blast
  define X1 where "X1 = X(?cf := swept oldest pre (X ?cf))"
  have ok: "contents_ok X" by (rule holds_contents_ok [OF less.prems(1)])
  have c1: "cursor_ok c1" by (rule outcome_cursor_ok [OF less.prems(2) o])
  have keeps: "gc_keeps oldest X X1" unfolding X1_def by (rule gc_keeps_swept [OF ok pre(2,1)])
  have removed: "gr_removed rep1 + total_entries X1 = gr_removed rep + total_entries X"
    using rem total_entries_update [of X ?cf "swept oldest pre (X ?cf)"] by (simp add: X1_def)
  have oldest1: "gr_oldest_live_version rep1 = gr_oldest_live_version rep" and scanned: "gr_scanned rep1 = gr_scanned rep + length pre"
    using o by (simp_all add: gc_outcome_def)
  have tidy: "if gr_cycle_complete rep1 then \<forall>cf. \<forall>e\<in>set (X1 cf). \<not> garbage oldest (X1 cf) e else passed_tidy oldest c1 X1"
    if "passed_tidy oldest c X"
    using outcome_passed_tidy [OF less.prems(2) o split ok pre(1) that, folded X1_def] less.prems(4) by simp
  show ?case
  proof (cases stop)
    case True
    have "gc_loop B oldest budget (sh, c, rep) = Some (sh1, c1, rep1)" using r True by (subst gc_loop.simps) simp
    moreover have "gr_cycle_complete rep1" if "gr_scanned rep + remaining c X < budget"
    proof (cases "post = [] \<and> Suc (gc_cf c) = length cf_all")
      case False
      with outcome_remaining [OF less.prems(2) o split ok False, of oldest] that scanned have "gr_scanned rep1 < budget" by simp
      with o True False show ?thesis by (auto simp: gc_outcome_def split: list.splits if_splits)
    qed (use o in \<open>simp add: gc_outcome_def\<close>)
    ultimately show ?thesis using h1 sh1 c1 keeps removed oldest1 tidy unfolding X1_def [symmetric] by blast
  next
    case False
    note m = outcome_measure(1) [OF less.prems(2) o False split ok, of oldest, folded X1_def]
      outcome_measure(2) [OF less.prems(2) o False split ok]
    have more: "\<not> (post = [] \<and> Suc (gc_cf c) = length cf_all)" using o False by (auto simp: gc_outcome_def)
    have nc: "\<not> gr_cycle_complete rep1" using o less.prems(4) more by (auto simp: gc_outcome_def split: list.splits)
    have step: "gc_loop B oldest budget (sh, c, rep) = gc_loop B oldest budget (sh1, c1, rep1)"
      using r False by (subst gc_loop.simps) simp
    have left: "gr_scanned rep1 + remaining c1 X1 \<le> gr_scanned rep + remaining c X"
      using outcome_remaining [OF less.prems(2) o split ok more, of oldest] scanned by (simp add: X1_def)
    obtain sh' c' rep' X' where IH: "gc_loop B oldest budget (sh1, c1, rep1) = Some (sh', c', rep')"
      "holds brep sh' X'" "sh' = sh1\<lparr>sh_trees := sh_trees sh'\<rparr>" "cursor_ok c'" "gc_keeps oldest X1 X'"
      "gr_removed rep' + total_entries X' = gr_removed rep1 + total_entries X1"
      "gr_oldest_live_version rep' = gr_oldest_live_version rep1"
      "passed_tidy oldest c1 X1 \<longrightarrow>
        (if gr_cycle_complete rep' then \<forall>cf. \<forall>e\<in>set (X' cf). \<not> garbage oldest (X' cf) e else passed_tidy oldest c' X')"
      "gr_scanned rep1 + remaining c1 X1 < budget \<longrightarrow> gr_cycle_complete rep'"
      using less.hyps [OF m(1) h1 [folded X1_def] c1 m(2) nc] by blast
    have "sh' = sh\<lparr>sh_trees := sh_trees sh'\<rparr>" by (subst IH(3), subst sh1) simp
    moreover have "gc_keeps oldest X X'" by (rule gc_keeps_trans [OF keeps IH(5)])
    ultimately show ?thesis
      using IH(1,2,4,6-9) step removed oldest1 tidy nc left
      by (intro exI [of _ sh'], intro exI [of _ c'], intro exI [of _ rep'], intro exI [of _ X']) simp
  qed
qed

lemma gc_step_correct:
  assumes h: "holds brep sh X" and c: "cursor_ok c"
  shows "\<exists>sh' c' rep X'. gc_step B sh c budget = Some (sh', c', rep) \<and> holds brep sh' X'
    \<and> sh' = sh\<lparr>sh_trees := sh_trees sh'\<rparr> \<and> cursor_ok c' \<and> gc_keeps (oldest_live_version sh) X X'
    \<and> gr_removed rep + total_entries X' = total_entries X \<and> gr_oldest_live_version rep = oldest_live_version sh
    \<and> (passed_tidy (oldest_live_version sh) c X \<longrightarrow> gr_cycle_complete rep \<longrightarrow>
        (\<forall>cf. \<forall>e\<in>set (X' cf). \<not> garbage (oldest_live_version sh) (X' cf) e))
    \<and> (remaining c X < max budget 1 \<longrightarrow> gr_cycle_complete rep)"
proof -
  let ?rep = "\<lparr>gr_oldest_live_version = oldest_live_version sh, gr_removed = 0, gr_scanned = 0, gr_cycle_complete = False\<rparr>"
  have "gr_scanned ?rep < max budget 1" "\<not> gr_cycle_complete ?rep" by simp_all
  from gc_loop_correct [OF h c this, of "oldest_live_version sh"] obtain sh' c' rep X' where
    "gc_loop B (oldest_live_version sh) (max budget 1) (sh, c, ?rep) = Some (sh', c', rep)" "holds brep sh' X'"
    "sh' = sh\<lparr>sh_trees := sh_trees sh'\<rparr>" "cursor_ok c'" "gc_keeps (oldest_live_version sh) X X'"
    "gr_removed rep + total_entries X' = gr_removed ?rep + total_entries X"
    "gr_oldest_live_version rep = gr_oldest_live_version ?rep"
    "passed_tidy (oldest_live_version sh) c X \<longrightarrow> (if gr_cycle_complete rep
        then \<forall>cf. \<forall>e\<in>set (X' cf). \<not> garbage (oldest_live_version sh) (X' cf) e
        else passed_tidy (oldest_live_version sh) c' X')"
    "gr_scanned ?rep + remaining c X < max budget 1 \<longrightarrow> gr_cycle_complete rep" by blast
  then show ?thesis
    by (intro exI [of _ sh'], intro exI [of _ c'], intro exI [of _ rep], intro exI [of _ X'])
      (simp add: gc_step_def Let_def split: if_splits)
qed

end

section \<open>A full collection\<close>

lemma clean_id: "\<forall>e\<in>set xs. \<not> garbage oldest xs e \<Longrightarrow> clean oldest xs = xs"
  by (simp add: clean_def filter_id_conv)

lemma default_cursor: "cursor_ok gc_cursor_default" "passed_tidy oldest gc_cursor_default X"
  "remaining gc_cursor_default X = total_entries X"
  by (simp_all add: cursor_ok_def gc_cursor_default_def passed_tidy_def ahead_def remaining_def cursor_family_def
      total_entries_def cf_all_def)

lemma live_from_full:
  assumes "distinct (map (vk_key \<circ> fst) es)" "\<forall>e\<in>set es. snd e \<noteq> None \<and> vk_version (fst e) \<le> version"
    and "\<forall>e\<in>set es. c \<noteq> Some (vk_key (fst e))"
  shows "length (live_from version c es) = length es"
  using assms by (induction version c es rule: live_from.induct) (auto simp: not_less image_iff)

text \<open>Without newer versions, what is left after cleaning is one entry per live key.\<close>

lemma clean_length:
  assumes ok: "om_ok xs" and upto: "\<forall>e\<in>set xs. vk_version (fst e) \<le> oldest"
    and live: "live oldest (clean oldest xs) = live oldest xs"
  shows "length (clean oldest xs) = length (live oldest xs)"
proof -
  have no: "snd e \<noteq> None \<and> \<not> superseded oldest xs e" if "e \<in> set (clean oldest xs)" for e
    using that upto by (auto simp: clean_def garbage_def)
  have "inj_on (vk_key \<circ> fst) (set (clean oldest xs))"
  proof (rule inj_onI, rule ccontr)
    fix x y assume x: "x \<in> set (clean oldest xs)" and y: "y \<in> set (clean oldest xs)"
      and key: "(vk_key \<circ> fst) x = (vk_key \<circ> fst) y" and ne: "x \<noteq> y"
    have mem: "x \<in> set xs" "y \<in> set xs" using x y by (auto simp: clean_def)
    then have "fst x \<noteq> fst y" using ne om_mem_iff [OF ok, of "fst x" "snd x"] om_mem_iff [OF ok, of "fst y" "snd y"]
      by (auto simp: prod_eq_iff)
    then have "vk_version (fst x) < vk_version (fst y) \<or> vk_version (fst y) < vk_version (fst x)"
      using key by (auto simp: vk_eq_iff)
    then have "superseded oldest xs x \<or> superseded oldest xs y"
      using mem key upto unfolding superseded_def by (metis comp_apply)
    with no x y show False by blast
  qed
  moreover have "distinct (clean oldest xs)" using om_ok_distinct [OF ok] by (simp add: clean_def distinct_map)
  ultimately have "distinct (map (vk_key \<circ> fst) (clean oldest xs))" by (simp add: distinct_map)
  moreover have "\<forall>e\<in>set (clean oldest xs). snd e \<noteq> None \<and> vk_version (fst e) \<le> oldest"
    using no upto by (auto simp: clean_def)
  ultimately have "length (live oldest (clean oldest xs)) = length (clean oldest xs)"
    by (intro live_from_full) simp_all
  with live show ?thesis by simp
qed

lemma scan_fold_count: "scan_fold (\<lambda>e n. (Suc n, None :: unit option)) es n = (n + length es, None)"
  by (induction es arbitrary: n) simp_all

context bbtree_laws
begin

lemma stored_entries_eq: "brep (sh_trees sh cf) xs \<Longrightarrow> stored_entries B sh cf = length xs"
  by (simp add: stored_entries_def bb_range scan_fold_count)

lemma collect_garbage_correct:
  assumes h: "holds brep sh X" and room: "total_entries X < USIZE_MAX"
  defines "oldest \<equiv> oldest_live_version sh"
  shows "\<exists>sh' rep. collect_garbage B sh = Some (sh', rep) \<and> holds brep sh' (\<lambda>cf. clean oldest (X cf))
    \<and> sh' = sh\<lparr>sh_trees := sh_trees sh'\<rparr> \<and> gr_cycle_complete rep \<and> gr_oldest_live_version rep = oldest
    \<and> gr_removed rep + total_entries (\<lambda>cf. clean oldest (X cf)) = total_entries X
    \<and> gc_keeps oldest X (\<lambda>cf. clean oldest (X cf))"
proof -
  have "total_entries X < max USIZE_MAX 1" using room by simp
  with gc_step_correct [OF h default_cursor(1), of USIZE_MAX] default_cursor(2,3) obtain sh' c' rep X' where
    step: "gc_step B sh gc_cursor_default USIZE_MAX = Some (sh', c', rep)" "gr_cycle_complete rep"
    and X': "holds brep sh' X'" "gc_keeps oldest X X'" "\<forall>cf. \<forall>e\<in>set (X' cf). \<not> garbage oldest (X' cf) e"
    and rest: "sh' = sh\<lparr>sh_trees := sh_trees sh'\<rparr>" "gr_removed rep + total_entries X' = total_entries X"
      "gr_oldest_live_version rep = oldest"
    unfolding oldest_def by metis
  have "X' = (\<lambda>cf. clean oldest (X cf))"
  proof
    fix cf
    have "X' cf = clean oldest (X' cf)" using X'(3) by (simp add: clean_id)
    with X'(2) show "X' cf = clean oldest (X cf)" by (simp add: gc_keeps_def)
  qed
  with X' rest step show ?thesis
    unfolding collect_garbage_def by (subst collect_loop.simps) simp
qed

end

text \<open>
  C34. Removal order. A collector leg removes what its scan doomed, last entry first. After any number of
  these removals, a reader at the oldest live version or later reads every key as before the leg: a
  deleted key does not come back, because an older value always goes before its tombstone.
\<close>

theorem gc_never_resurrects:
  assumes B: "bbtree_laws B brep" and t: "brep tree xs" and c: "cursor_ok c"
    and s: "s = fst (scan_fold (gc_visit oldest budget)
      (bb_range B tree (case gc_resume c of None \<Rightarrow> Unbounded | Some from \<Rightarrow> Included from) Unbounded) (gc_start c rep))"
    and part: "rev (gs_doomed s) = gone @ todo" and rm: "fold (gc_remove B) gone (tree, n) = (tree', n')"
    and v: "oldest \<le> vw_version v"
  shows "option_flatten (newest_slot B v tree' key) = option_flatten (newest_slot B v tree key)"
proof -
  have s': "s = fst (scan_fold (gc_visit oldest budget) (ahead c xs) (gc_start c rep))"
    by (simp only: s bbtree_laws.gc_range [OF B t])
  obtain pre post where pre: "om_ok pre" "whole_keys pre xs" "gs_doomed s = doomed oldest xs pre"
    using bbtree_laws.gc_leg [OF B t c s'] by blast
  have ok: "om_ok xs" by (rule bbtree_laws.bb_sorted [OF B t])
  have t': "brep tree' (fold om_remove gone xs)" using bbtree_laws.gc_removes [OF B t rm] by blast
  have "live (vw_version v) (fold om_remove gone xs) = live (vw_version v) xs"
    using part by (intro removes_invisible [OF ok pre(1,2) v]) (simp add: pre(3))
  moreover have "option_flatten (slot_at (vw_version v) ys key) = map_of (live (vw_version v) ys) key" if "om_ok ys" for ys
    using live_get [OF that decided_below_None, of key] by simp
  ultimately show ?thesis
    using ok bbtree_laws.bb_sorted [OF B t']
    by (simp add: bbtree_laws.newest_slot_correct [OF B t] bbtree_laws.newest_slot_correct [OF B t'])
qed

text \<open>
  C33. A full garbage collection returns, reports the exact number of removed entries, and leaves in each
  column family exactly the entries a reader at a live version can still use: no reader at the
  oldest live version or later sees a difference, and when no version is newer than that, one stored
  entry remains per live key and no tombstone.
\<close>

theorem collect_garbage_exact:
  assumes B: "bbtree_laws B brep" and h: "holds brep sh X" and room: "total_entries X < USIZE_MAX"
    and oldest: "oldest = oldest_live_version sh"
  shows "\<exists>sh' rep. collect_garbage B sh = Some (sh', rep) \<and> holds brep sh' (\<lambda>cf. clean oldest (X cf))
    \<and> gr_cycle_complete rep \<and> gr_removed rep + total_entries (\<lambda>cf. clean oldest (X cf)) = total_entries X
    \<and> (\<forall>cf version. oldest \<le> version \<longrightarrow> live version (clean oldest (X cf)) = live version (X cf))
    \<and> (versions_upto oldest X \<longrightarrow> (\<forall>cf. stored_entries B sh' cf = length (live oldest (X cf))))"
proof -
  obtain sh' rep where c: "collect_garbage B sh = Some (sh', rep)" "holds brep sh' (\<lambda>cf. clean oldest (X cf))"
    "gr_cycle_complete rep" "gr_removed rep + total_entries (\<lambda>cf. clean oldest (X cf)) = total_entries X"
    and keeps: "gc_keeps oldest X (\<lambda>cf. clean oldest (X cf))"
    using bbtree_laws.collect_garbage_correct [OF B h room] unfolding oldest by blast
  have live: "live version (clean oldest (X cf)) = live version (X cf)" if "oldest \<le> version" for cf version
    using keeps that by (simp add: gc_keeps_def)
  have "stored_entries B sh' cf = length (live oldest (X cf))" if "versions_upto oldest X" for cf
  proof -
    have "om_ok (X cf)" using bbtree_laws.holds_contents_ok [OF B h] by (simp add: contents_ok_def)
    from clean_length [OF this _ live [OF order_refl]] that
    have "length (clean oldest (X cf)) = length (live oldest (X cf))" by (simp add: versions_upto_def)
    with bbtree_laws.stored_entries_eq [OF B, of sh' cf "clean oldest (X cf)"] c(2) show ?thesis by (simp add: holds_def)
  qed
  with c live show ?thesis by (intro exI [of _ sh'], intro exI [of _ rep]) simp
qed

text \<open>Three versions of a key and a deleted key: two entries stay of six, none of them a tombstone.\<close>

definition gc_sample :: contents where
  "gc_sample = (\<lambda>cf. if cf = Default then
     [(vk_new [1] 3, Some [7]), (vk_new [1] 2, None), (vk_new [1] 1, Some [5]),
      (vk_new [2] 3, None), (vk_new [2] 1, Some [6]), (vk_new [3] 2, Some [8])] else [])"

definition gc_sample_state :: "(versioned_key, slot) omap shared" where
  "gc_sample_state = (vm_new om_bbtree)\<lparr>sh_trees := gc_sample, sh_visible := 3\<rparr>"

theorem collect_garbage_exact_witness:
  "\<exists>sh' rep. collect_garbage om_bbtree gc_sample_state = Some (sh', rep) \<and> stored_entries om_bbtree sh' Default = 2"
proof -
  have oldest: "(3 :: u64) = oldest_live_version gc_sample_state"
    by (simp add: oldest_live_version_def gc_sample_state_def vm_new_def REGISTRY_SHARDS_def List.map_filter_def Let_def)
  have h: "holds om_brep gc_sample_state gc_sample"
    by (auto simp: holds_def om_brep_def gc_sample_state_def gc_sample_def om_ok_Cons vk_less_iff)
  have room: "total_entries gc_sample < USIZE_MAX" by (simp add: total_entries_def cf_all_def gc_sample_def USIZE_MAX_def)
  have "versions_upto 3 gc_sample" by (auto simp: versions_upto_def gc_sample_def)
  moreover have "live 3 (gc_sample Default) = [([1], [7]), ([3], [8])]" by (simp add: gc_sample_def)
  ultimately show ?thesis
    using collect_garbage_exact [OF roomy.bbtree_laws_axioms h room oldest] by auto
qed

theorem gc_never_resurrects_witness:
  "option_flatten (newest_slot om_bbtree \<lparr>vw_version = 3, vw_shard = 0, vw_registered = 3\<rparr>
     (om_remove (vk_new [2] 1) (gc_sample Default)) [2]) = None"
proof -
  let ?v = "\<lparr>vw_version = 3, vw_shard = 0, vw_registered = 3\<rparr> :: view"
  let ?rep = "\<lparr>gr_oldest_live_version = 3, gr_removed = 0, gr_scanned = 0, gr_cycle_complete = False\<rparr>"
  have t: "om_brep (gc_sample Default) (gc_sample Default)"
    by (auto simp: om_brep_def gc_sample_def om_ok_Cons vk_less_iff)
  define s where "s = fst (scan_fold (gc_visit 3 100)
    (bb_range om_bbtree (gc_sample Default) (case gc_resume gc_cursor_default of None \<Rightarrow> Unbounded | Some from \<Rightarrow> Included from) Unbounded)
    (gc_start gc_cursor_default ?rep))"
  have part: "rev (gs_doomed s) = [vk_new [2] 1] @ [vk_new [2] 3, vk_new [1] 1, vk_new [1] 2]"
    by (simp add: s_def gc_start_def gc_cursor_default_def om_bbtree_def gc_sample_def gc_visit_def CHUNK_def Let_def)
  have rm: "fold (gc_remove om_bbtree) [vk_new [2] 1] (gc_sample Default, 0) = (om_remove (vk_new [2] 1) (gc_sample Default), 1)"
    by (simp add: gc_remove_def om_bbtree_def gc_sample_def vk_eq_iff)
  have "option_flatten (newest_slot om_bbtree ?v (om_remove (vk_new [2] 1) (gc_sample Default)) [2])
      = option_flatten (newest_slot om_bbtree ?v (gc_sample Default) [2])"
    by (rule gc_never_resurrects [OF roomy.bbtree_laws_axioms t default_cursor(1) s_def part rm]) simp
  also have "\<dots> = None"
    unfolding roomy.newest_slot_correct [OF t] by (simp add: gc_sample_def slot_at_Cons option_flatten_def)
  finally show ?thesis .
qed

end
