(* ===== verification/VersionedViews.thy ===== *)
theory VersionedViews
  imports VersionedGc
begin

text \<open>
  Views of \<open>VersionedMemEngine\<close> over time: writes, range deletions, opening and dropping views, and
  collector legs in any order. An open view keeps reading what it read when it was opened, whether or
  not the writes in between succeeded. Also the failure mode of a batch that runs out of memory.
\<close>

section \<open>The engine with its open views\<close>

text \<open>Each open view carries what draining it returned when it was opened.\<close>

type_synonym open_view = "view \<times> (column_family \<Rightarrow> scan_entry result list option)"

record 't vm_system =
  sy_shared :: "'t shared"
  sy_cursor :: gc_cursor
  sy_views :: "open_view list"

datatype vm_event =
    EvWrite write_batch "applied_position option"
  | EvDeleteRange nat column_family bytes bytes
  | EvOpen nat
  | EvFreeze nat
  | EvDrop nat
  | EvGc nat

definition open_view :: "'t bbtree_ops \<Rightarrow> 't vm_system \<Rightarrow> 't shared \<times> view \<Rightarrow> 't vm_system" where
  "open_view B sy = (\<lambda>(sh, v). sy\<lparr>sy_shared := sh,
     sy_views := sy_views sy @ [(v, \<lambda>cf. pages_drain B sh (view_iter_all v cf))]\<rparr>)"

fun vm_event_step :: "'t bbtree_ops \<Rightarrow> 't vm_system \<Rightarrow> vm_event \<Rightarrow> 't vm_system option" where
  "vm_event_step B sy (EvWrite b at) = Some (sy\<lparr>sy_shared := fst (vm_apply B (sy_shared sy) b at)\<rparr>)"
| "vm_event_step B sy (EvDeleteRange shard cf start fin) =
     map_option (\<lambda>r. sy\<lparr>sy_shared := fst r\<rparr>) (vm_delete_range B shard (sy_shared sy) cf start fin)"
| "vm_event_step B sy (EvOpen shard) = Some (open_view B sy (view_current (sy_shared sy) shard))"
| "vm_event_step B sy (EvFreeze shard) =
     (let (sh, v, position, revision) = freeze_parts (sy_shared sy) shard in Some (open_view B sy (sh, v)))"
| "vm_event_step B sy (EvDrop i) =
     Some (if i < length (sy_views sy)
           then sy\<lparr>sy_shared := view_drop (sy_shared sy) (fst (sy_views sy ! i)),
                   sy_views := take i (sy_views sy) @ drop (Suc i) (sy_views sy)\<rparr>
           else sy)"
| "vm_event_step B sy (EvGc budget) =
     map_option (\<lambda>(sh, c, rep). sy\<lparr>sy_shared := sh, sy_cursor := c\<rparr>)
       (gc_step B (sy_shared sy) (sy_cursor sy) budget)"

fun vm_run :: "'t bbtree_ops \<Rightarrow> 't vm_system \<Rightarrow> vm_event list \<Rightarrow> 't vm_system option" where
  "vm_run B sy [] = Some sy"
| "vm_run B sy (ev # evs) = Option.bind (vm_event_step B sy ev) (\<lambda>sy'. vm_run B sy' evs)"

definition vm_system_new :: "'t bbtree_ops \<Rightarrow> 't vm_system" where
  "vm_system_new B = \<lparr>sy_shared = vm_new B, sy_cursor = gc_cursor_default, sy_views = []\<rparr>"

text \<open>How many views are open after an event, and histories that never hold more than a counter can count.\<close>

fun views_after :: "vm_event \<Rightarrow> nat \<Rightarrow> nat" where
  "views_after (EvOpen shard) n = Suc n"
| "views_after (EvFreeze shard) n = Suc n"
| "views_after (EvDrop i) n = (if i < n then n - 1 else n)"
| "views_after _ n = n"

fun views_fit :: "nat \<Rightarrow> vm_event list \<Rightarrow> bool" where
  "views_fit n [] = True"
| "views_fit n (ev # evs) = (views_after ev n < 2 ^ 32 \<and> views_fit (views_after ev n) evs)"

fun event_ok :: "vm_event \<Rightarrow> bool" where
  "event_ok (EvDeleteRange shard cf start fin) \<longleftrightarrow> shard < REGISTRY_SHARDS"
| "event_ok (EvOpen shard) \<longleftrightarrow> shard < REGISTRY_SHARDS"
| "event_ok (EvFreeze shard) \<longleftrightarrow> shard < REGISTRY_SHARDS"
| "event_ok _ \<longleftrightarrow> True"

section \<open>The registry counts the open views\<close>

definition registered_count :: "open_view list \<Rightarrow> nat \<Rightarrow> u64 \<Rightarrow> nat" where
  "registered_count vs shard version =
     length (filter (\<lambda>v. vw_shard (fst v) = shard \<and> vw_registered (fst v) = version) vs)"

definition counted :: "(u64, u32) omap \<Rightarrow> u64 \<Rightarrow> u32" where
  "counted m version = (case map_of m version of None \<Rightarrow> 0 | Some c \<Rightarrow> c)"

definition registry_counts :: "(u64, u32) omap list \<Rightarrow> open_view list \<Rightarrow> bool" where
  "registry_counts reg vs \<longleftrightarrow> registry_ok reg \<and>
     (\<forall>shard < REGISTRY_SHARDS. \<forall>version. unat (counted (reg ! shard) version) = registered_count vs shard version)"

definition count_up :: "(u64, u32) omap list \<Rightarrow> nat \<Rightarrow> u64 \<Rightarrow> (u64, u32) omap list" where
  "count_up reg shard version = reg[shard := om_insert version (counted (reg ! shard) version + 1) (reg ! shard)]"

definition count_down :: "(u64, u32) omap list \<Rightarrow> nat \<Rightarrow> u64 \<Rightarrow> (u64, u32) omap list" where
  "count_down reg shard version =
     (let m = reg ! shard; n = counted m version in
      if n = 0 then reg
      else reg[shard := (if n - 1 = 0 then om_remove version m else om_insert version (n - 1) m)])"

lemma register_count_up: "register sh shard version = sh\<lparr>sh_registry := count_up (sh_registry sh) shard version\<rparr>"
  by (simp add: register_def count_up_def counted_def Let_def)

lemma registry_ok_nth:
  assumes "registry_ok reg" "shard < REGISTRY_SHARDS"
  shows "om_ok (reg ! shard)" "e \<in> set (reg ! shard) \<Longrightarrow> snd e \<noteq> 0" "shard < length reg"
proof -
  show "shard < length reg" using assms by (simp add: registry_ok_def)
  then have "reg ! shard \<in> set reg" by simp
  with assms(1) show "om_ok (reg ! shard)" "e \<in> set (reg ! shard) \<Longrightarrow> snd e \<noteq> 0" by (auto simp: registry_ok_def)
qed

lemma unregister_count_down:
  assumes "registry_ok (sh_registry sh)" "shard < REGISTRY_SHARDS"
  shows "unregister sh shard version = sh\<lparr>sh_registry := count_down (sh_registry sh) shard version\<rparr>"
proof (cases "map_of (sh_registry sh ! shard) version")
  case (Some c)
  then have "c \<noteq> 0" using registry_ok_nth(2) [OF assms map_of_SomeD [OF Some]] by simp
  with Some show ?thesis by (simp add: unregister_def count_down_def counted_def Let_def)
qed (simp add: unregister_def count_down_def counted_def Let_def)

lemma registry_ok_update:
  "registry_ok reg \<Longrightarrow> om_ok m \<Longrightarrow> \<forall>e\<in>set m. snd e \<noteq> 0 \<Longrightarrow> registry_ok (reg[shard := m])"
  by (auto simp: registry_ok_def dest!: set_update_subset_insert [THEN subsetD])

text \<open>Below the width of a counter, counting up and down is exact.\<close>

lemma count_up_ok:
  assumes "registry_ok reg" "shard < REGISTRY_SHARDS" and room: "Suc (unat (counted (reg ! shard) version)) < 2 ^ 32"
  shows "registry_ok (count_up reg shard version)"
    and "shard' < REGISTRY_SHARDS \<Longrightarrow> unat (counted (count_up reg shard version ! shard') version') =
      unat (counted (reg ! shard') version') + (if shard' = shard \<and> version' = version then 1 else 0)"
proof -
  note m = registry_ok_nth [OF assms(1,2)]
  let ?c = "counted (reg ! shard) version + 1"
  have c: "unat ?c = Suc (unat (counted (reg ! shard) version))" using room by (subst unat_add_exact) auto
  then have "?c \<noteq> 0" by (metis unat_0 nat.distinct(1))
  then have "\<forall>e\<in>set (om_insert version ?c (reg ! shard)). snd e \<noteq> 0"
    using om_set_insert_subset [of version ?c "reg ! shard"] m(2) by fastforce
  then show "registry_ok (count_up reg shard version)"
    unfolding count_up_def using assms(1) m(1) by (intro registry_ok_update) auto
  have "counted (count_up reg shard version ! shard') version' =
      (if shard' = shard \<and> version' = version then ?c else counted (reg ! shard') version')"
    if "shard' < REGISTRY_SHARDS"
    using m by (cases "shard' = shard") (simp_all add: count_up_def counted_def)
  with c show "unat (counted (count_up reg shard version ! shard') version') =
      unat (counted (reg ! shard') version') + (if shard' = shard \<and> version' = version then 1 else 0)"
    if "shard' < REGISTRY_SHARDS"
    using that by simp
qed

lemma count_down_ok:
  assumes "registry_ok reg" "shard < REGISTRY_SHARDS"
  shows "registry_ok (count_down reg shard version)"
    and "shard' < REGISTRY_SHARDS \<Longrightarrow> unat (counted (count_down reg shard version ! shard') version') =
      unat (counted (reg ! shard') version') - (if shard' = shard \<and> version' = version then 1 else 0)"
proof -
  note m = registry_ok_nth [OF assms]
  let ?n = "counted (reg ! shard) version"
  let ?m = "if ?n - 1 = 0 then om_remove version (reg ! shard) else om_insert version (?n - 1) (reg ! shard)"
  have "snd e \<noteq> 0" if "e \<in> set (om_insert version (?n - 1) (reg ! shard))" "?n - 1 \<noteq> 0" for e
    using subsetD [OF om_set_insert_subset that(1)] that(2) m(2) [of e] by auto
  moreover have "snd e \<noteq> 0" if "e \<in> set (om_remove version (reg ! shard))" for e
    using that m(2) by (simp add: om_remove_def)
  ultimately have "\<forall>e\<in>set ?m. snd e \<noteq> 0" by simp
  then have "registry_ok (reg[shard := ?m])" using assms(1) m(1) by (intro registry_ok_update) auto
  then show "registry_ok (count_down reg shard version)" using assms(1) by (simp add: count_down_def Let_def)
  have "counted (count_down reg shard version ! shard') version' =
      (if shard' = shard \<and> version' = version \<and> ?n \<noteq> 0 then ?n - 1 else counted (reg ! shard') version')"
    if "shard' < REGISTRY_SHARDS"
    using m(1,3) by (cases "shard' = shard") (auto simp: count_down_def counted_def Let_def)
  moreover have "unat (?n - 1) = unat ?n - 1" if "?n \<noteq> 0" using that by (rule unat_minus_one)
  ultimately show "unat (counted (count_down reg shard version ! shard') version') =
      unat (counted (reg ! shard') version') - (if shard' = shard \<and> version' = version then 1 else 0)"
    if "shard' < REGISTRY_SHARDS"
    using that by auto
qed

text \<open>The collector's bound is below the registration of every open view and below the watermark.\<close>

lemma fold_min_le: "fold min vs (v :: u64) \<le> v \<and> (\<forall>w\<in>set vs. fold min vs v \<le> w)"
proof (induction vs arbitrary: v)
  case (Cons a vs)
  from Cons.IH [of "min a v"] show ?case by simp
qed simp

lemma oldest_le_first:
  assumes "m \<in> set (sh_registry sh)" "m = e # es"
  shows "oldest_live_version sh \<le> fst e" "oldest_live_version sh \<le> sh_visible sh"
proof -
  define firsts where "firsts = List.map_filter (\<lambda>m. case m of [] \<Rightarrow> None | e # _ \<Rightarrow> Some (fst e)) (sh_registry sh)"
  have "fst e \<in> the ` {x \<in> (\<lambda>m. case m of [] \<Rightarrow> None | e # _ \<Rightarrow> Some (fst e)) ` set (sh_registry sh). x \<noteq> None}"
    using assms by (intro image_eqI [of _ _ "Some (fst e)"]) (auto intro!: image_eqI [of _ _ m])
  then have "fst e \<in> set firsts" by (auto simp: firsts_def List.map_filter_def)
  then obtain v vs where f: "firsts = v # vs" by (cases firsts) auto
  have old: "oldest_live_version sh = min (fold min vs v) (sh_visible sh)"
    by (simp add: oldest_live_version_def Let_def firsts_def [symmetric] f)
  have "fold min vs v \<le> fst e" using \<open>fst e \<in> set firsts\<close> f fold_min_le [of vs v] by auto
  with old show "oldest_live_version sh \<le> fst e" "oldest_live_version sh \<le> sh_visible sh"
    by (simp_all add: min.coboundedI1)
qed

lemma oldest_le_registered:
  assumes reg: "registry_counts (sh_registry sh) vs" and v: "v \<in> set vs" "vw_shard (fst v) < REGISTRY_SHARDS"
  shows "oldest_live_version sh \<le> vw_registered (fst v)"
proof -
  let ?m = "sh_registry sh ! vw_shard (fst v)"
  have ok: "registry_ok (sh_registry sh)" using reg by (simp add: registry_counts_def)
  note m = registry_ok_nth [OF ok v(2)]
  have "0 < registered_count vs (vw_shard (fst v)) (vw_registered (fst v))"
    using v(1) by (auto simp: registered_count_def length_greater_0_conv filter_empty_conv)
  then have "0 < unat (counted ?m (vw_registered (fst v)))" using reg v(2) by (simp add: registry_counts_def)
  then have "counted ?m (vw_registered (fst v)) \<noteq> 0" by auto
  then obtain c where c: "(vw_registered (fst v), c) \<in> set ?m"
    by (auto simp: counted_def split: option.splits dest: map_of_SomeD)
  then obtain e es where e: "?m = e # es" by (cases ?m) auto
  have "fst e \<le> vw_registered (fst v)" using c e m(1) by (auto simp: om_ok_Cons intro: less_imp_le)
  moreover have "oldest_live_version sh \<le> fst e" by (rule oldest_le_first(1) [OF nth_mem [OF m(3)] e])
  ultimately show ?thesis by simp
qed

section \<open>The invariant\<close>

definition view_ok :: "u64 \<Rightarrow> contents \<Rightarrow> open_view \<Rightarrow> bool" where
  "view_ok visible X v \<longleftrightarrow> vw_shard (fst v) < REGISTRY_SHARDS \<and> vw_registered (fst v) \<le> vw_version (fst v)
     \<and> vw_version (fst v) \<le> visible \<and> (\<forall>cf. snd v cf = Some (map Inr (live (vw_version (fst v)) (X cf))))"

definition system_inv :: "('t \<Rightarrow> (versioned_key, slot) omap \<Rightarrow> bool) \<Rightarrow> nat \<Rightarrow> 't vm_system \<Rightarrow> bool" where
  "system_inv brep n sy \<longleftrightarrow> (let sh = sy_shared sy in
     pb_version (sh_published sh) = sh_visible sh \<and> sh_writer sh = sh_visible sh \<and> unat (sh_visible sh) \<le> n \<and>
     cursor_ok (sy_cursor sy) \<and> registry_counts (sh_registry sh) (sy_views sy) \<and>
     (\<exists>X. holds brep sh X \<and> (\<forall>v\<in>set (sy_views sy). view_ok (sh_visible sh) X v)))"

lemma view_ok_keeps:
  assumes "view_ok visible X v" "visible \<le> visible'"
    and "\<And>cf. live (vw_version (fst v)) (X' cf) = live (vw_version (fst v)) (X cf)"
  shows "view_ok visible' X' v"
  using assms by (auto simp: view_ok_def intro: order_trans)

definition aligned :: "'t shared \<Rightarrow> bool" where
  "aligned sh \<longleftrightarrow> pb_version (sh_published sh) = sh_visible sh \<and> sh_writer sh = sh_visible sh"

lemma registry_counts_open:
  assumes "registry_counts reg vs" "vw_shard v < REGISTRY_SHARDS" "Suc (length vs) < 2 ^ 32"
  shows "registry_counts (count_up reg (vw_shard v) (vw_registered v)) (vs @ [(v, g)])"
proof -
  have "registered_count vs (vw_shard v) (vw_registered v) \<le> length vs" by (simp add: registered_count_def)
  then have "Suc (unat (counted (reg ! vw_shard v) (vw_registered v))) < 2 ^ 32"
    using assms by (simp add: registry_counts_def)
  with assms count_up_ok [of reg "vw_shard v" "vw_registered v"] show ?thesis
    by (auto simp: registry_counts_def registered_count_def)
qed

lemma registry_counts_drop:
  assumes "registry_counts reg vs" "i < length vs" "vw_shard (fst (vs ! i)) < REGISTRY_SHARDS"
  shows "registry_counts (count_down reg (vw_shard (fst (vs ! i))) (vw_registered (fst (vs ! i))))
    (take i vs @ drop (Suc i) vs)"
proof -
  let ?v = "fst (vs ! i)"
  have split: "vs = take i vs @ vs ! i # drop (Suc i) vs" using assms(2) by (rule id_take_nth_drop)
  have "registered_count vs shard version = registered_count (take i vs @ drop (Suc i) vs) shard version
      + (if shard = vw_shard ?v \<and> version = vw_registered ?v then 1 else 0)" for shard version
  proof -
    have "filter P vs = filter P (take i vs) @ filter P (vs ! i # drop (Suc i) vs)" for P
      by (metis split filter_append)
    then show ?thesis by (simp add: registered_count_def)
  qed
  then show ?thesis
    using assms count_down_ok [of reg "vw_shard ?v"] by (auto simp: registry_counts_def)
qed

context bbtree_laws
begin

lemma vm_apply_contents:
  assumes h: "holds brep sh X" and a: "aligned sh" and ap: "vm_apply B sh b at = (sh', r)"
  shows "\<exists>j. holds brep sh' (fold (stamp (sh_visible sh + 1)) (take j b) X) \<and> aligned sh'
    \<and> sh_registry sh' = sh_registry sh \<and> (sh_visible sh' = sh_visible sh \<or> sh_visible sh' = sh_visible sh + 1)"
proof -
  have w: "sh_writer sh = sh_visible sh" using a by (simp add: aligned_def)
  obtain sh1 r1 where loop: "apply_mutations B (sh_visible sh + 1) b False sh = (sh1, r1)" by fastforce
  from apply_mutations_stamps [OF h loop] obtain j where
    j: "holds brep sh1 (fold (stamp (sh_visible sh + 1)) (take j b) X)" and sh1: "sh1 = sh\<lparr>sh_trees := sh_trees sh1\<rparr>" by blast
  have fields: "sh_registry sh1 = sh_registry sh" "sh_visible sh1 = sh_visible sh" "sh_writer sh1 = sh_writer sh"
    "sh_published sh1 = sh_published sh" by (subst sh1, simp)+
  consider "sh' = sh" | "sh' = sh1" | changes where "sh' = publish (sh_visible sh + 1) at changes sh1"
    using ap loop w by (auto simp: vm_apply_def Let_def split: if_splits sum.splits)
  then show ?thesis
  proof cases
    case 1
    with h a show ?thesis by (intro exI [of _ 0]) simp
  next
    case 2
    with j fields a show ?thesis by (intro exI [of _ j]) (simp add: aligned_def)
  next
    case 3
    with j fields show ?thesis by (intro exI [of _ j]) (simp add: aligned_def publish_def Let_def holds_def)
  qed
qed

lemma apply_event_inv:
  assumes inv: "system_inv brep n sy" and n: "Suc n < 2 ^ 64" and ap: "vm_apply B (sy_shared sy) b at = (sh', r)"
  shows "system_inv brep (Suc n) (sy\<lparr>sy_shared := sh'\<rparr>)"
proof -
  let ?sh = "sy_shared sy"
  from inv obtain X where h: "holds brep ?sh X" and vs: "\<forall>v\<in>set (sy_views sy). view_ok (sh_visible ?sh) X v"
    and a: "aligned ?sh" "unat (sh_visible ?sh) \<le> n" and rest: "cursor_ok (sy_cursor sy)" "registry_counts (sh_registry ?sh) (sy_views sy)"
    by (auto simp: system_inv_def Let_def aligned_def)
  note w = next_version [OF a(2) n]
  obtain j where j: "holds brep sh' (fold (stamp (sh_visible ?sh + 1)) (take j b) X)" "aligned sh'"
    "sh_registry sh' = sh_registry ?sh" "sh_visible sh' = sh_visible ?sh \<or> sh_visible sh' = sh_visible ?sh + 1"
    using vm_apply_contents [OF h a(1) ap] by blast
  have mono: "sh_visible ?sh \<le> sh_visible sh'" "unat (sh_visible sh') \<le> Suc n" using j(4) w a(2) by auto
  have "view_ok (sh_visible sh') (fold (stamp (sh_visible ?sh + 1)) (take j b) X) v" if "v \<in> set (sy_views sy)" for v
  proof (rule view_ok_keeps [OF _ mono(1)])
    show v: "view_ok (sh_visible ?sh) X v" using vs that by blast
    then have "vw_version (fst v) < sh_visible ?sh + 1" using w(1) by (auto simp: view_ok_def)
    then show "live (vw_version (fst v)) (fold (stamp (sh_visible ?sh + 1)) (take j b) X cf) = live (vw_version (fst v)) (X cf)" for cf
      by (rule stamps_live_older [OF holds_contents_ok [OF h]])
  qed
  with j mono rest show ?thesis by (auto simp: system_inv_def Let_def aligned_def)
qed

lemma open_event_inv:
  assumes inv: "system_inv brep n sy" and v: "vw_shard v < REGISTRY_SHARDS" "vw_version v = sh_visible (sy_shared sy)"
    "vw_registered v = sh_visible (sy_shared sy)" and room: "Suc (length (sy_views sy)) < 2 ^ 32"
  shows "system_inv brep n (open_view B sy (register (sy_shared sy) (vw_shard v) (vw_registered v), v))"
proof -
  let ?sh = "sy_shared sy" and ?sh' = "register (sy_shared sy) (vw_shard v) (vw_registered v)"
  from inv obtain X where h: "holds brep ?sh X" and vs: "\<forall>v\<in>set (sy_views sy). view_ok (sh_visible ?sh) X v"
    and rest: "cursor_ok (sy_cursor sy)" "registry_counts (sh_registry ?sh) (sy_views sy)"
      "aligned ?sh" "unat (sh_visible ?sh) \<le> n"
    by (auto simp: system_inv_def Let_def aligned_def)
  have h': "holds brep ?sh' X" using h by (simp add: holds_def)
  have "pages_drain B ?sh' (view_iter_all v cf) = Some (map Inr (live (vw_version v) (X cf)))" for cf
    using view_iters_correct(3) [of ?sh' cf "X cf" v] h' by (simp add: holds_def)
  then have "view_ok (sh_visible ?sh) X (v, \<lambda>cf. pages_drain B ?sh' (view_iter_all v cf))"
    using v by (simp add: view_ok_def)
  moreover have "registry_counts (sh_registry ?sh') (sy_views sy @ [(v, \<lambda>cf. pages_drain B ?sh' (view_iter_all v cf))])"
    using registry_counts_open [OF rest(2) v(1) room] by (simp add: register_count_up)
  ultimately show ?thesis
    using h' vs rest by (auto simp: system_inv_def Let_def aligned_def open_view_def)
qed

lemma drop_event_inv:
  assumes inv: "system_inv brep n sy" and i: "i < length (sy_views sy)"
  shows "system_inv brep n (sy\<lparr>sy_shared := view_drop (sy_shared sy) (fst (sy_views sy ! i)),
    sy_views := take i (sy_views sy) @ drop (Suc i) (sy_views sy)\<rparr>)"
proof -
  let ?sh = "sy_shared sy" and ?v = "fst (sy_views sy ! i)"
  from inv obtain X where h: "holds brep ?sh X" and vs: "\<forall>v\<in>set (sy_views sy). view_ok (sh_visible ?sh) X v"
    and rest: "cursor_ok (sy_cursor sy)" "registry_counts (sh_registry ?sh) (sy_views sy)"
      "aligned ?sh" "unat (sh_visible ?sh) \<le> n"
    by (auto simp: system_inv_def Let_def aligned_def)
  have shard: "vw_shard ?v < REGISTRY_SHARDS" using vs nth_mem [OF i] by (auto simp: view_ok_def)
  have "registry_ok (sh_registry ?sh)" using rest(2) by (simp add: registry_counts_def)
  note drop = unregister_count_down [OF this shard]
  have "\<forall>v\<in>set (take i (sy_views sy) @ drop (Suc i) (sy_views sy)). view_ok (sh_visible ?sh) X v"
    using vs by (auto dest: in_set_takeD in_set_dropD)
  with h rest registry_counts_drop [OF rest(2) i shard] show ?thesis
    by (auto simp: system_inv_def Let_def aligned_def view_drop_def drop holds_def)
qed

lemma gc_event_inv:
  assumes inv: "system_inv brep n sy"
  shows "\<exists>sh' c' rep. gc_step B (sy_shared sy) (sy_cursor sy) budget = Some (sh', c', rep)
    \<and> system_inv brep n (sy\<lparr>sy_shared := sh', sy_cursor := c'\<rparr>)"
proof -
  let ?sh = "sy_shared sy"
  from inv obtain X where h: "holds brep ?sh X" and vs: "\<forall>v\<in>set (sy_views sy). view_ok (sh_visible ?sh) X v"
    and rest: "cursor_ok (sy_cursor sy)" "registry_counts (sh_registry ?sh) (sy_views sy)"
      "aligned ?sh" "unat (sh_visible ?sh) \<le> n"
    by (auto simp: system_inv_def Let_def aligned_def)
  obtain sh' c' rep X' where g: "gc_step B ?sh (sy_cursor sy) budget = Some (sh', c', rep)" "holds brep sh' X'"
    "cursor_ok c'" and sh': "sh' = ?sh\<lparr>sh_trees := sh_trees sh'\<rparr>" and keeps: "gc_keeps (oldest_live_version ?sh) X X'"
    using gc_step_correct [OF h rest(1), of budget] by (elim exE conjE) (rule that)
  have fields: "sh_registry sh' = sh_registry ?sh" "sh_visible sh' = sh_visible ?sh" "sh_writer sh' = sh_writer ?sh"
    "sh_published sh' = sh_published ?sh" by (subst sh', simp)+
  have "view_ok (sh_visible ?sh) X' v" if "v \<in> set (sy_views sy)" for v
  proof (rule view_ok_keeps [OF _ order_refl])
    show v: "view_ok (sh_visible ?sh) X v" using vs that by blast
    then have "oldest_live_version ?sh \<le> vw_version (fst v)"
      using oldest_le_registered [OF rest(2) that] by (auto simp: view_ok_def intro: order_trans)
    then show "live (vw_version (fst v)) (X' cf) = live (vw_version (fst v)) (X cf)" for cf
      using keeps by (simp add: gc_keeps_def)
  qed
  with g fields rest show ?thesis by (auto simp: system_inv_def Let_def aligned_def)
qed

lemma event_inv:
  assumes inv: "system_inv brep n sy" and n: "Suc n < 2 ^ 64" and ok: "event_ok ev"
    and room: "views_after ev (length (sy_views sy)) < 2 ^ 32"
  shows "\<exists>sy'. vm_event_step B sy ev = Some sy' \<and> system_inv brep (Suc n) sy'
    \<and> length (sy_views sy') = views_after ev (length (sy_views sy))"
proof -
  have later: "system_inv brep (Suc n) sy'" if "system_inv brep n sy'" for sy'
    using that by (auto simp: system_inv_def Let_def)
  have a: "aligned (sy_shared sy)" "registry_ok (sh_registry (sy_shared sy))"
    using inv by (auto simp: system_inv_def Let_def aligned_def registry_counts_def)
  show ?thesis
  proof (cases ev)
    case (EvWrite b at)
    with apply_event_inv [OF inv n, of b at] show ?thesis by (cases "vm_apply B (sy_shared sy) b at") simp
  next
    case (EvDeleteRange shard cf start fin)
    with ok have "versioned_engine B brep shard"
      by (intro versioned_engine.intro) (simp_all add: bbtree_laws_axioms versioned_engine_axioms_def)
    moreover obtain X where "holds brep (sy_shared sy) X" using inv by (auto simp: system_inv_def Let_def)
    ultimately obtain b where
      "vm_delete_range B shard (sy_shared sy) cf start fin = Some (sy_shared sy, Inr ()) \<or>
       vm_delete_range B shard (sy_shared sy) cf start fin = Some (vm_apply B (sy_shared sy) b None)"
      using versioned_engine.delete_range_returns a(2) by blast
    then show ?thesis
      using EvDeleteRange later [OF inv] apply_event_inv [OF inv n, of b None]
      by (cases "vm_apply B (sy_shared sy) b None") auto
  next
    case (EvOpen shard)
    let ?v = "\<lparr>vw_version = sh_visible (sy_shared sy), vw_shard = shard, vw_registered = sh_visible (sy_shared sy)\<rparr>"
    from EvOpen ok room later [OF open_event_inv [OF inv, of ?v]] show ?thesis
      by (simp add: view_current_def open_view_def Let_def)
  next
    case (EvFreeze shard)
    let ?v = "\<lparr>vw_version = sh_visible (sy_shared sy), vw_shard = shard, vw_registered = sh_visible (sy_shared sy)\<rparr>"
    from EvFreeze ok room a(1) later [OF open_event_inv [OF inv, of ?v]] show ?thesis
      by (simp add: freeze_parts_def view_new_def open_view_def aligned_def Let_def)
  next
    case (EvDrop i)
    with later [OF drop_event_inv [OF inv, of i]] later [OF inv] show ?thesis by simp
  next
    case (EvGc budget)
    obtain sh' c' rep where "gc_step B (sy_shared sy) (sy_cursor sy) budget = Some (sh', c', rep)"
      "system_inv brep n (sy\<lparr>sy_shared := sh', sy_cursor := c'\<rparr>)"
      using gc_event_inv [OF inv] by blast
    with EvGc later show ?thesis by simp
  qed
qed

lemma run_inv:
  assumes "system_inv brep n sy" "n + length evs < 2 ^ 64" "\<forall>ev\<in>set evs. event_ok ev"
    and "views_fit (length (sy_views sy)) evs"
  shows "\<exists>sy'. vm_run B sy evs = Some sy' \<and> system_inv brep (n + length evs) sy'"
  using assms
proof (induction evs arbitrary: n sy)
  case (Cons ev evs)
  obtain sy1 where sy1: "vm_event_step B sy ev = Some sy1" "system_inv brep (Suc n) sy1"
      "length (sy_views sy1) = views_after ev (length (sy_views sy))"
    using event_inv [OF Cons.prems(1), of ev] Cons.prems(2-4) by auto
  from Cons.IH [OF sy1(2)] Cons.prems(2-4) sy1(3) obtain sy' where "vm_run B sy1 evs = Some sy'" "system_inv brep (Suc n + length evs) sy'"
    by auto
  with sy1(1) show ?case by simp
qed simp

lemma new_inv: "system_inv brep n (vm_system_new B)"
proof -
  have "holds brep (vm_new B) (\<lambda>_. [])" by (simp add: holds_def vm_new_def bb_new)
  then show ?thesis
    by (auto simp: system_inv_def Let_def vm_system_new_def vm_new_def registry_counts_def registry_ok_def
        registered_count_def counted_def default_cursor(1))
qed

text \<open>What an open view returns now is what it returned when it was opened, whichever way it is read.\<close>

lemma view_reads:
  assumes "system_inv brep n sy" "(v, opened) \<in> set (sy_views sy)"
  shows "pages_drain B (sy_shared sy) (view_iter_all v cf) = opened cf
    \<and> (\<exists>m. opened cf = Some (map Inr m)
      \<and> (\<forall>key. view_get B (sy_shared sy) v cf key = Inr (map_of m key))
      \<and> (\<forall>start fin limit. view_scan B (sy_shared sy) v cf start fin limit = Some (Inr (take limit (om_range start fin m))))
      \<and> (\<forall>start fin. pages_drain B (sy_shared sy) (view_iter_rev v cf start fin) = Some (map Inr (rev (om_range start fin m)))))"
proof -
  from assms obtain X where h: "holds brep (sy_shared sy) X" and v: "view_ok (sh_visible (sy_shared sy)) X (v, opened)"
    by (auto simp: system_inv_def Let_def)
  have xs: "brep (sh_trees (sy_shared sy) cf) (X cf)" using h by (simp add: holds_def)
  have o: "opened cf = Some (map Inr (live (vw_version v) (X cf)))" using v by (simp add: view_ok_def)
  show ?thesis
    using view_iters_correct [OF xs] view_get_correct(1) [OF xs] view_scan_correct [OF xs]
    by (intro conjI exI [of _ "live (vw_version v) (X cf)"]) (simp_all add: o)
qed

end

text \<open>
  C3. Snapshot isolation. From the empty engine, whatever batches are written - positioned or not,
  accepted, refused or cut short by an allocation failure - whatever ranges are deleted, views opened,
  frozen or dropped, and collector legs run, every step returns; and every open view still reads
  exactly what it read when it was opened, by point reads, bounded scans and iteration in both
  directions. The engine counts views in 32 bits, so the history never holds \<open>2 ^ 32\<close> views open at once.
\<close>

theorem snapshot_isolation:
  assumes B: "bbtree_laws B brep" and evs: "length evs < 2 ^ 64" "\<forall>ev\<in>set evs. event_ok ev" "views_fit 0 evs"
  shows "\<exists>sy. vm_run B (vm_system_new B) evs = Some sy \<and>
    (\<forall>(v, opened)\<in>set (sy_views sy). \<forall>cf.
       pages_drain B (sy_shared sy) (view_iter_all v cf) = opened cf
     \<and> (\<exists>m. opened cf = Some (map Inr m)
        \<and> (\<forall>key. view_get B (sy_shared sy) v cf key = Inr (map_of m key))
        \<and> (\<forall>start fin limit. view_scan B (sy_shared sy) v cf start fin limit = Some (Inr (take limit (om_range start fin m))))
        \<and> (\<forall>start fin. pages_drain B (sy_shared sy) (view_iter_rev v cf start fin) = Some (map Inr (rev (om_range start fin m))))))"
proof -
  obtain sy where run: "vm_run B (vm_system_new B) evs = Some sy" and inv: "system_inv brep (0 + length evs) sy"
    using bbtree_laws.run_inv [OF B bbtree_laws.new_inv [OF B], of 0 evs] evs by (auto simp: vm_system_new_def)
  show ?thesis
    by (intro exI [of _ sy] conjI run) (use bbtree_laws.view_reads [OF B inv] in blast)
qed

definition sample_events :: "vm_event list" where
  "sample_events = [EvWrite [Put Default [1] [5]] None, EvOpen 0, EvWrite [Delete Default [1]] None]"

lemmas vm_eval = vm_apply_def apply_mutations.simps publish_def view_current_def register_count_up count_up_def counted_def
  vm_new_def REGISTRY_SHARDS_def Let_def

theorem snapshot_isolation_witness:
  "\<exists>sy v opened. vm_run om_bbtree (vm_system_new om_bbtree) sample_events = Some sy \<and> sy_views sy = [(v, opened)]
     \<and> vw_version v = 1 \<and> sh_visible (sy_shared sy) = 2
     \<and> pages_drain om_bbtree (sy_shared sy) (view_iter_all v Default) = opened Default"
proof -
  have ok: "length sample_events < 2 ^ 64" "\<forall>ev\<in>set sample_events. event_ok ev" "views_fit 0 sample_events"
    by (simp_all add: sample_events_def REGISTRY_SHARDS_def)
  obtain sy where run: "vm_run om_bbtree (vm_system_new om_bbtree) sample_events = Some sy"
    and reads: "\<forall>(v, opened)\<in>set (sy_views sy). \<forall>cf. pages_drain om_bbtree (sy_shared sy) (view_iter_all v cf) = opened cf"
    using snapshot_isolation [OF roomy.bbtree_laws_axioms ok] by fastforce
  from run obtain v opened where v: "sy_views sy = [(v, opened)]" "vw_version v = 1" "sh_visible (sy_shared sy) = 2"
    by (auto simp: sample_events_def vm_system_new_def om_bbtree_def open_view_def vm_eval)
  with run reads show ?thesis by auto
qed

section \<open>A batch that runs out of memory\<close>

lemma apply_mutations_append:
  "apply_mutations B version (b @ b') changes sh =
     (case apply_mutations B version b changes sh of
        (sh1, Inl e) \<Rightarrow> (sh1, Inl e)
      | (sh1, Inr c) \<Rightarrow> apply_mutations B version b' c sh1)"
  by (induction b arbitrary: changes sh) (auto simp: Let_def split: option.splits)


lemma apply_mutations_flag:
  "apply_mutations B version b changes sh = (sh1, Inr c) \<Longrightarrow> \<exists>c'. apply_mutations B version b changes' sh = (sh1, Inr c')"
  by (induction b arbitrary: changes changes' sh) (auto simp: Let_def split: option.splits)

lemma publish_flag: "vm_rep brep n (publish version at c sh) a = vm_rep brep n (publish version at c' sh) a"
  by (cases c; cases c'; cases at) (simp_all add: publish_def Let_def vm_rep_def quiescent_def holds_def)

context versioned_engine
begin

text \<open>What the failed batch left is invisible: it is stamped with a version no reader uses yet.\<close>

lemma cut_short_reads:
  assumes rep: "vm_rep brep n sh a" and n: "Suc n < 2 ^ 64"
    and cut: "apply_mutations B (sh_writer sh + 1) b False sh = (sh1, r)"
  shows "snd (vm_get B shard sh1 cf key) = Inr (kv_get a cf key)"
proof -
  from rep obtain X where X: "holds brep sh X" "\<forall>cf. kv_data a cf = live (sh_visible sh) (X cf)"
    and q: "sh_writer sh = sh_visible sh" "registry_ok (sh_registry sh)" "unat (sh_visible sh) \<le> n"
    by (auto simp: vm_rep_def quiescent_def)
  from apply_mutations_stamps [OF X(1) cut] obtain j where
    j: "holds brep sh1 (fold (stamp (sh_visible sh + 1)) (take j b) X)" and sh1: "sh1 = sh\<lparr>sh_trees := sh_trees sh1\<rparr>"
    unfolding q(1) by blast
  have fields: "sh_registry sh1 = sh_registry sh" "sh_visible sh1 = sh_visible sh" by (subst sh1, simp)+
  obtain s v where view: "view_current sh1 shard = (s, v)" by fastforce
  have reg: "registry_ok (sh_registry sh1)" using q(2) fields by simp
  note v = view_current_drop [OF reg shard view]
  have "brep (sh_trees s cf) (fold (stamp (sh_visible sh + 1)) (take j b) X cf)" using j v(2) by (simp add: holds_def)
  moreover have "live (sh_visible sh) (fold (stamp (sh_visible sh + 1)) (take j b) X cf) = live (sh_visible sh) (X cf)"
    using next_version(1) [OF q(3) n] by (intro stamps_live_older [OF holds_contents_ok [OF X(1)]])
  ultimately show ?thesis using v(3) fields X(2) view by (simp add: vm_get_def view_get_correct kv_get_def)
qed

lemma cut_short_resurfaces:
  assumes rep: "vm_rep brep n sh a" and n: "n + Suc (length (b1 @ b2)) < 2 ^ 64"
    and one: "apply_mutations B (sh_writer sh + 1) b1 False sh = (sh1, Inr c)"
    and two: "vm_apply B sh1 b2 at = (sh2, Inr ())"
  shows "snd (vm_get B shard sh2 cf key) = Inr (kv_get (kv_write (b1 @ b2) a) cf key)"
proof -
  from rep obtain X where "holds brep sh X" by (auto simp: vm_rep_def)
  from apply_mutations_stamps [OF this one] have sh1: "sh1 = sh\<lparr>sh_trees := sh_trees sh1\<rparr>" by blast
  have fields: "sh_writer sh1 = sh_writer sh" "sh_published sh1 = sh_published sh" by (subst sh1, simp)+
  from two obtain sh3 c2 where loop: "apply_mutations B (sh_writer sh + 1) b2 False sh1 = (sh3, Inr c2)"
    and sh2: "sh2 = publish (sh_writer sh + 1) at c2 sh3"
    and adv: "\<not> (case (at, pb_applied (sh_published sh)) of (Some p, Some previous) \<Rightarrow> ap_index p \<le> ap_index previous | _ \<Rightarrow> False)"
    by (auto simp: vm_apply_def fields Let_def split: if_splits prod.splits sum.splits)
  from apply_mutations_flag [OF loop] obtain c3 where "apply_mutations B (sh_writer sh + 1) b2 c sh1 = (sh3, Inr c3)" by blast
  then have both: "vm_apply B sh (b1 @ b2) at = (publish (sh_writer sh + 1) at c3 sh3, Inr ())"
    using one adv by (simp add: vm_apply_def apply_mutations_append Let_def)
  have len: "\<forall>cf. length (fold kv_mutate (b1 @ b2) (kv_data a) cf) \<le> n + Suc (length (b1 @ b2))"
    using rep kv_mutates_length [of "b1 @ b2" "kv_data a"]
    by (auto simp: vm_rep_def simp del: fold_append intro: le_SucI order_trans [OF _ add_le_mono])
  have "vm_rep brep (n + Suc (length (b1 @ b2))) (publish (sh_writer sh + 1) at c3 sh3)
      (case at of None \<Rightarrow> kv_write (b1 @ b2) a | Some p \<Rightarrow> kv_apply (b1 @ b2) p a)"
    using apply_advances [OF rep _ _ len both] n by simp
  then have "vm_rep brep (n + Suc (length (b1 @ b2))) sh2
      (case at of None \<Rightarrow> kv_write (b1 @ b2) a | Some p \<Rightarrow> kv_apply (b1 @ b2) p a)"
    by (simp add: sh2 publish_flag [of brep _ _ at c2 sh3 _ c3])
  from reads_rep(1) [OF this] show ?thesis by (simp add: kv_get_def kv_apply_def kv_write_def split: option.splits)
qed

end



section \<open>A range deletion and a writer\<close>

text \<open>
  A batch that comes between the walk of a range deletion and its tombstones is half deleted: a key the
  walk had seen goes, a key of the same batch and the same range stays. No order of the two
  operations gives that.
\<close>

interpretation roomy_views: versioned_engine om_bbtree om_brep 0
  by unfold_locales (simp add: REGISTRY_SHARDS_def)

lemma delete_range_not_atomic:
  "\<exists>sh0 b sh1 sh2. vm_write om_bbtree (vm_new om_bbtree) [Put Default [1] [5]] = (sh0, Inr ())
     \<and> delete_range_walk om_bbtree 0 sh0 Default [0] [9] = Some (sh0, Inr b)
     \<and> vm_write om_bbtree sh0 [Put Default [1] [6], Put Default [2] [6]] = (sh1, Inr ())
     \<and> delete_range_commit om_bbtree sh1 b = (sh2, Inr ())
     \<and> snd (vm_get om_bbtree 0 sh2 Default [1]) = Inr None \<and> snd (vm_get om_bbtree 0 sh2 Default [2]) = Inr (Some [6])"
proof -
  let ?a0 = "kv_write [Put Default [1] [5]] kv_empty" and ?w = "[Put Default [1] [6], Put Default [2] [6]]"
  let ?b = "[Delete Default [1]]"
  have step: "\<exists>sh'. vm_apply om_bbtree sh b None = (sh', Inr ()) \<and> vm_rep om_brep (n + Suc (length b)) sh' (kv_write b a)"
    if "vm_rep om_brep n sh a" "n + Suc (length b) < 2 ^ 64" for n sh a b
  proof -
    obtain sh' r where ap: "vm_apply om_bbtree sh b None = (sh', r)" by fastforce
    then have "settled r" by (intro vm_apply_roomy [of om_bbtree]) (simp_all add: om_bbtree_def)
    with roomy.apply_not_refused [OF that(1), of None b sh'] ap have "r = Inr ()" by (auto simp: settled_def)
    with roomy_views.vm.rep_write [OF that, of sh'] ap show ?thesis by (simp add: vm_write_def)
  qed
  obtain sh0 where s0: "vm_apply om_bbtree (vm_new om_bbtree) [Put Default [1] [5]] None = (sh0, Inr ())"
    "vm_rep om_brep (0 + Suc (length [Put Default [1] [5]])) sh0 ?a0"
    using step [OF roomy_views.vm_new_rep [of 0], of "[Put Default [1] [5]]"] by auto
  have "delete_range_walk om_bbtree 0 sh0 Default [0] [9] = Some (sh0, Inr ?b)"
    using roomy_views.delete_walk_eq [OF s0(2), of Default "[0]" "[9]"] by (simp add: kv_write_def kv_empty_def om_range_def)
  moreover obtain sh1 where s1: "vm_apply om_bbtree sh0 ?w None = (sh1, Inr ())" "vm_rep om_brep (0 + Suc (length [Put Default [1] [5]]) + Suc (length ?w)) sh1 (kv_write ?w ?a0)"
    using step [OF s0(2), of ?w] by auto
  moreover obtain sh2 where s2: "vm_apply om_bbtree sh1 ?b None = (sh2, Inr ())" 
      "vm_rep om_brep (0 + Suc (length [Put Default [1] [5]]) + Suc (length ?w) + Suc (length ?b)) sh2 (kv_write ?b (kv_write ?w ?a0))"
    using step [OF s1(2), of ?b] by auto
  moreover have "snd (vm_get om_bbtree 0 sh2 Default [1]) = Inr None" "snd (vm_get om_bbtree 0 sh2 Default [2]) = Inr (Some [6])"
    using roomy_views.reads_rep(1) [OF s2(2)] by (simp_all add: kv_get_def kv_write_def kv_empty_def om_remove_def)
  ultimately show ?thesis using s0(1) by (auto simp: vm_write_def delete_range_commit_def)
qed

end
