(* ===== verification/Crc.thy ===== *)
theory Crc
  imports Prelude
begin

text \<open>
  CRC-32 (IEEE). \<open>wal.rs\<close> computes it with eight slicing tables, eight bytes at a time, over a
  list of parts; \<open>sst.rs\<close> computes it bit by bit. Both are modelled as written and proved
  equal. The compile-time tables are lists indexed as the arrays are.
\<close>

unbundle bit_operations_syntax

section \<open>The routines\<close>

text \<open>One reflected polynomial step, the loop body of both files.\<close>

definition crc_bit :: "u32 \<Rightarrow> u32" where
  "crc_bit crc = (let mask = - (crc AND 1) in drop_bit 1 crc XOR (0xEDB88320 AND mask))"

definition CRC32_TABLE :: "u32 list" where
  "CRC32_TABLE = map (\<lambda>byte. (crc_bit ^^ 8) (of_nat byte)) [0..<256]"

fun CRC32_SLICING :: "nat \<Rightarrow> u32 list" where
  "CRC32_SLICING 0 = CRC32_TABLE"
| "CRC32_SLICING (Suc n) =
     map (\<lambda>prior. drop_bit 8 prior XOR CRC32_TABLE ! unat (prior AND 0xff)) (CRC32_SLICING n)"

definition crc_chunk :: "u32 \<Rightarrow> bytes \<Rightarrow> u32" where
  "crc_chunk crc chunk =
     (let low = crc XOR from_le [chunk ! 0, chunk ! 1, chunk ! 2, chunk ! 3] in
      CRC32_SLICING 7 ! unat (low AND 0xff)
      XOR CRC32_SLICING 6 ! unat (drop_bit 8 low AND 0xff)
      XOR CRC32_SLICING 5 ! unat (drop_bit 16 low AND 0xff)
      XOR CRC32_SLICING 4 ! unat (drop_bit 24 low)
      XOR CRC32_SLICING 3 ! unat (chunk ! 4)
      XOR CRC32_SLICING 2 ! unat (chunk ! 5)
      XOR CRC32_SLICING 1 ! unat (chunk ! 6)
      XOR CRC32_SLICING 0 ! unat (chunk ! 7))"

definition crc_byte :: "u32 \<Rightarrow> byte \<Rightarrow> u32" where
  "crc_byte crc b = drop_bit 8 crc XOR CRC32_TABLE ! unat ((crc XOR ucast b) AND 0xff)"

definition crc_part :: "u32 \<Rightarrow> bytes \<Rightarrow> u32" where
  "crc_part crc part = foldl crc_byte (foldl crc_chunk crc (chunks_exact 8 part)) (chunks_remainder 8 part)"

definition crc32_parts :: "bytes list \<Rightarrow> u32" where
  "crc32_parts parts = NOT (foldl crc_part 0xFFFFFFFF parts)"

definition crc32 :: "bytes \<Rightarrow> u32" where
  "crc32 bs = crc32_parts [bs]"

definition crc32_bitwise :: "bytes \<Rightarrow> u32" where
  "crc32_bitwise bs = NOT (foldl (\<lambda>crc b. (crc_bit ^^ 8) (crc XOR ucast b)) 0xFFFFFFFF bs)"

section \<open>Linearity\<close>

definition crc8 :: "u32 \<Rightarrow> u32" where
  "crc8 = crc_bit ^^ 8"

lemma crc_bit_cases: "crc_bit c = drop_bit 1 c XOR (if bit c 0 then 0xEDB88320 else 0)"
proof -
  have "c AND 1 = (if bit c 0 then 1 else 0)" by (simp add: and_one_eq bit_0 odd_iff_mod_2_eq_one)
  then show ?thesis by (simp add: crc_bit_def)
qed

lemma crc_bit_xor: "crc_bit (a XOR b) = crc_bit a XOR crc_bit b"
  by (simp add: crc_bit_cases bit_xor_iff ac_simps)

lemma crc_pow_xor: "(crc_bit ^^ n) (a XOR b) = (crc_bit ^^ n) a XOR (crc_bit ^^ n) b"
  by (induction n) (simp_all add: crc_bit_xor)

lemma crc8_xor: "crc8 (a XOR b) = crc8 a XOR crc8 b"
  by (simp add: crc8_def crc_pow_xor)

lemma crc8_pow_xor: "(crc8 ^^ n) (a XOR b) = (crc8 ^^ n) a XOR (crc8 ^^ n) b"
  by (induction n) (simp_all add: crc8_xor)

text \<open>A word whose low bits are zero is only shifted.\<close>

lemma crc_pow_shift: "(\<And>i. i < n \<Longrightarrow> \<not> bit c i) \<Longrightarrow> (crc_bit ^^ n) c = drop_bit n c"
proof (induction n)
  case (Suc n)
  then have "(crc_bit ^^ n) c = drop_bit n c" by simp
  moreover have "\<not> bit (drop_bit n c) 0" using Suc.prems [of n] by (simp add: bit_drop_bit_eq)
  ultimately show ?case by (simp add: crc_bit_cases [of "drop_bit n c"])
qed simp

lemma split_low: "c = (c AND NOT 0xff) XOR (c AND (0xff :: u32))"
  by (rule bit_word_eqI) (auto simp: bit_simps)

lemma bit_ff: "bit (0xff :: u32) n \<longleftrightarrow> n < 8"
proof -
  have "(0xff :: u32) = mask 8" by (simp add: mask_eq_exp_minus_1)
  then show ?thesis by (simp only: bit_mask_iff) auto
qed

lemma and_ff_lt: "unat (x AND (0xff :: u32)) < 256"
proof -
  have "(0xff :: u32) = mask 8" by (simp add: mask_eq_exp_minus_1)
  then have "x AND 0xff = take_bit 8 x" by (simp add: take_bit_eq_mask)
  also have "\<dots> = x mod 256" by (simp add: take_bit_eq_mod)
  finally show ?thesis by (simp add: unat_mod)
qed

lemma table_lookup: "i < 256 \<Longrightarrow> CRC32_TABLE ! i = crc8 (of_nat i)"
  by (simp add: CRC32_TABLE_def crc8_def)

lemma crc8_split: "crc8 c = drop_bit 8 c XOR CRC32_TABLE ! unat (c AND 0xff)"
proof -
  have "crc8 (c AND NOT 0xff) = drop_bit 8 (c AND NOT 0xff)"
    unfolding crc8_def by (rule crc_pow_shift) (simp only: bit_and_iff bit_not_iff bit_ff, simp)
  also have "\<dots> = drop_bit 8 c"
    by (rule bit_word_eqI) (auto simp only: bit_drop_bit_eq bit_and_iff bit_not_iff bit_ff comp_apply dest: bit_imp_le_length bit_imp_possible_bit)
  finally have "crc8 ((c AND NOT 0xff) XOR (c AND 0xff)) = drop_bit 8 c XOR crc8 (c AND 0xff)"
    by (simp add: crc8_xor)
  then have "crc8 c = drop_bit 8 c XOR crc8 (c AND 0xff)" by (simp only: split_low [symmetric])
  then show ?thesis using table_lookup [OF and_ff_lt [of c]] by simp
qed

lemma crc_byte_crc8: "crc_byte c b = crc8 (c XOR ucast b)"
proof -
  have "drop_bit 8 (ucast b :: u32) = 0"
    by (rule bit_word_eqI) (auto simp: bit_simps dest: bit_imp_le_length)
  then show ?thesis by (simp add: crc8_split [of "c XOR ucast b"] crc_byte_def drop_bit_xor)
qed

lemma length_slicing [simp]: "length (CRC32_SLICING n) = 256"
  by (induction n) (simp_all add: CRC32_TABLE_def)

lemma slicing_lookup: "i < 256 \<Longrightarrow> CRC32_SLICING n ! i = (crc8 ^^ Suc n) (of_nat i)"
  by (induction n) (simp_all add: table_lookup flip: crc8_split)

lemma slicing_word: "unat w < 256 \<Longrightarrow> CRC32_SLICING n ! unat (w :: u32) = (crc8 ^^ Suc n) w"
  by (simp add: slicing_lookup del: funpow.simps)

lemma slicing_byte: "CRC32_SLICING n ! unat (b :: byte) = (crc8 ^^ Suc n) (ucast b)"
  using slicing_lookup [of "unat b" n] unat_byte_lt [of b] by (simp add: of_nat_unat del: funpow.simps)

lemma crc8_pow_split: "(crc8 ^^ Suc n) c = (crc8 ^^ n) (drop_bit 8 c) XOR (crc8 ^^ Suc n) (c AND 0xff)"
proof -
  have "crc8 (c AND 0xff) = CRC32_TABLE ! unat (c AND 0xff)"
    using table_lookup [OF and_ff_lt [of c]] by simp
  then have "crc8 c = drop_bit 8 c XOR crc8 (c AND 0xff)" using crc8_split [of c] by simp
  then show ?thesis by (simp only: funpow_Suc_right comp_apply crc8_pow_xor [symmetric])
qed

lemma crc8_push:
  assumes "\<And>i. 24 \<le> i \<Longrightarrow> \<not> bit (x :: u32) i" and m: "m = Suc n"
  shows "(crc8 ^^ m) (push_bit 8 x) = (crc8 ^^ n) x"
proof -
  have "crc8 (push_bit 8 x) = drop_bit 8 (push_bit 8 x)"
    unfolding crc8_def by (rule crc_pow_shift) (simp add: bit_push_bit_iff)
  also have "\<dots> = x"
    using assms by (intro bit_word_eqI) (auto simp: bit_simps intro: ccontr)
  finally show ?thesis by (simp only: m funpow_Suc_right comp_apply)
qed

lemma byte_plus_push: "ucast (b :: byte) + push_bit 8 (y :: u32) = ucast b XOR push_bit 8 y"
  by (rule disjunctive_add_eq_xor, rule bit_word_eqI) (auto simp: bit_simps dest: bit_imp_le_length)

lemma le_word_bytes:
  "(from_le [b0, b1, b2, b3] :: u32)
     = ucast b0 XOR push_bit 8 (ucast b1 XOR push_bit 8 (ucast b2 XOR push_bit 8 (ucast b3)))"
proof -
  have "(from_le [b0, b1, b2, b3] :: u32)
      = ucast b0 + push_bit 8 (ucast b1 + push_bit 8 (ucast b2 + push_bit 8 (ucast b3)))"
    by (simp add: from_le_def from_be_def nat_of_be_def push_bit_eq_mult of_nat_unat algebra_simps)
  then show ?thesis by (simp only: byte_plus_push)
qed

lemma bit_byte_word: "bit (ucast (b :: byte) :: u32) i \<Longrightarrow> i < 8"
  by (auto simp: bit_simps dest: bit_imp_le_length)

lemma crc_chunk_crc8:
  assumes "length chunk = 8"
  shows "crc_chunk c chunk = foldl crc_byte c chunk"
proof -
  from assms obtain b0 b1 b2 b3 b4 b5 b6 b7 where ch: "chunk = [b0, b1, b2, b3, b4, b5, b6, b7]"
    by (auto simp: numeral_eq_Suc length_Suc_conv)
  define low :: u32 where "low = c XOR from_le [b0, b1, b2, b3]"
  have top: "unat (drop_bit 24 low) < 256"
    using unat_lt2p [of low] by (simp only: unsigned_drop_bit_eq) (simp add: drop_bit_eq_div take_bit_eq_mod)
  have tables: "crc_chunk c chunk =
      (crc8 ^^ 8) (low AND 0xff) XOR (crc8 ^^ 7) (drop_bit 8 low AND 0xff)
      XOR (crc8 ^^ 6) (drop_bit 16 low AND 0xff) XOR (crc8 ^^ 5) (drop_bit 24 low)
      XOR (crc8 ^^ 4) (ucast b4) XOR (crc8 ^^ 3) (ucast b5) XOR (crc8 ^^ 2) (ucast b6)
      XOR (crc8 ^^ 1) (ucast b7)"
    using slicing_word [OF and_ff_lt, of 7] slicing_word [OF and_ff_lt, of 6] slicing_word [OF and_ff_lt, of 5]
      slicing_word [OF top, of 4] slicing_byte [of 3] slicing_byte [of 2] slicing_byte [of 1] slicing_byte [of 0]
    by (simp add: crc_chunk_def ch Let_def low_def del: funpow.simps CRC32_SLICING.simps)
      (simp only: numeral_2_eq_2)
  have split: "(crc8 ^^ 8) low = (crc8 ^^ 7) (drop_bit 8 low) XOR (crc8 ^^ 8) (low AND 0xff)"
    "(crc8 ^^ 7) (drop_bit 8 low) = (crc8 ^^ 6) (drop_bit 16 low) XOR (crc8 ^^ 7) (drop_bit 8 low AND 0xff)"
    "(crc8 ^^ 6) (drop_bit 16 low) = (crc8 ^^ 5) (drop_bit 24 low) XOR (crc8 ^^ 6) (drop_bit 16 low AND 0xff)"
    using crc8_pow_split [of 7 low] crc8_pow_split [of 6 "drop_bit 8 low"] crc8_pow_split [of 5 "drop_bit 16 low"]
    by (simp_all del: funpow.simps)
  let ?x3 = "ucast b3 :: u32" and ?x2 = "ucast b2 XOR push_bit 8 (ucast b3) :: u32"
  let ?x1 = "ucast b1 XOR push_bit 8 ?x2"
  have push: "(crc8 ^^ 8) (push_bit 8 ?x1) = (crc8 ^^ 7) ?x1" "(crc8 ^^ 7) (push_bit 8 ?x2) = (crc8 ^^ 6) ?x2"
    "(crc8 ^^ 6) (push_bit 8 ?x3) = (crc8 ^^ 5) ?x3"
    by (rule crc8_push; auto simp: bit_xor_iff bit_push_bit_iff simp del: push_bit_of_0 dest!: bit_byte_word)+
  have "(crc8 ^^ 8) low = (crc8 ^^ 8) (c XOR ucast b0) XOR (crc8 ^^ 8) (push_bit 8 ?x1)"
    by (simp add: low_def le_word_bytes xor.assoc flip: crc8_pow_xor)
  also have "\<dots> = (crc8 ^^ 8) (c XOR ucast b0) XOR (crc8 ^^ 7) (ucast b1) XOR (crc8 ^^ 6) (ucast b2)
      XOR (crc8 ^^ 5) (ucast b3)"
    by (simp only: push crc8_pow_xor xor.assoc)
  finally have "(crc8 ^^ 8) low = \<dots>" .
  moreover have "foldl crc_byte c chunk = (crc8 ^^ 8) (c XOR ucast b0) XOR (crc8 ^^ 7) (ucast b1)
      XOR (crc8 ^^ 6) (ucast b2) XOR (crc8 ^^ 5) (ucast b3) XOR (crc8 ^^ 4) (ucast b4) XOR (crc8 ^^ 3) (ucast b5)
      XOR (crc8 ^^ 2) (ucast b6) XOR (crc8 ^^ 1) (ucast b7)"
    by (simp add: ch crc_byte_crc8 crc8_xor numeral_eq_Suc xor.assoc)
  ultimately show ?thesis unfolding tables using split by (simp add: ac_simps del: funpow.simps)
qed

section \<open>Properties\<close>

text \<open>
  C29. The table-driven, eight-bytes-at-a-time checksum over any split of the input into parts
  is the bit-at-a-time checksum of the whole input.
\<close>

theorem crc32_slicing_is_bitwise: "crc32_parts parts = crc32_bitwise (concat parts)"
proof -
  have part: "crc_part c p = foldl crc_byte c p" for c p
  proof -
    have "foldl crc_chunk c cs = foldl crc_byte c (concat cs)" if "\<forall>x\<in>set cs. length x = 8" for c cs
      using that by (induction cs arbitrary: c) (simp_all add: crc_chunk_crc8)
    moreover have "\<forall>x\<in>set (chunks_exact 8 p). length x = 8" using chunks_exact_lengths by blast
    ultimately have "crc_part c p = foldl crc_byte c (concat (chunks_exact 8 p) @ chunks_remainder 8 p)"
      by (simp add: crc_part_def)
    then show ?thesis by (simp add: concat_chunks_remainder)
  qed
  have "foldl crc_part c ps = foldl crc_byte c (concat ps)" for c ps
    by (induction ps arbitrary: c) (simp_all add: part)
  moreover have "crc_byte = (\<lambda>crc b. (crc_bit ^^ 8) (crc XOR ucast b))"
    by (intro ext) (simp add: crc_byte_crc8 crc8_def)
  ultimately show ?thesis by (simp add: crc32_parts_def crc32_bitwise_def)
qed

end
