(* ===== verification/Wal.thy ===== *)
theory Wal
  imports Batch Crc "HOL-Library.Sublist"
begin

text \<open>
  The append-only write-ahead log, \<open>crates/engine/src/wal.rs\<close> with the record layout of
  \<open>wal_v2.rs\<close>. The file is its content; an append carries the outcome of its write and sync,
  where a failure leaves any number of the record's bytes in the file. Reads of the file
  succeed. A reader step yields \<open>Inl None\<close> where the loop breaks and \<open>Inl (Some e)\<close> where it
  returns an error.
\<close>

section \<open>Record layout\<close>

definition WAL_MAGIC :: bytes where "WAL_MAGIC = [0x4b, 0x56, 0x39, 0x57]"

definition VERSION_V2 :: byte where "VERSION_V2 = 2"

definition VERSION_V1 :: byte where "VERSION_V1 = 1"

definition UNPOSITIONED :: byte where "UNPOSITIONED = 0"

definition POSITIONED :: byte where "POSITIONED = 1"

definition POSITION_LEN :: nat where "POSITION_LEN = 8 + 8"

definition PREAMBLE_LEN :: nat where "PREAMBLE_LEN = 4 + 1 + 1"

definition LEN_FIELD_LEN :: nat where "LEN_FIELD_LEN = 4"

definition CRC_LEN :: nat where "CRC_LEN = 4"

definition UNPOSITIONED_HEADER_LEN :: nat where
  "UNPOSITIONED_HEADER_LEN = PREAMBLE_LEN + LEN_FIELD_LEN"

definition POSITIONED_HEADER_LEN :: nat where
  "POSITIONED_HEADER_LEN = PREAMBLE_LEN + POSITION_LEN + LEN_FIELD_LEN"

definition MAX_RECORD_LEN :: nat where "MAX_RECORD_LEN = 64 * 1024 * 1024"

definition record_len :: "byte \<Rightarrow> nat \<Rightarrow> nat option" where
  "record_len kind payload_len =
     (if kind = UNPOSITIONED then Some (UNPOSITIONED_HEADER_LEN + payload_len + CRC_LEN)
      else if kind = POSITIONED then Some (POSITIONED_HEADER_LEN + payload_len + CRC_LEN)
      else None)"

lemmas wal_consts = VERSION_V2_def VERSION_V1_def UNPOSITIONED_def POSITIONED_def POSITION_LEN_def
  PREAMBLE_LEN_def LEN_FIELD_LEN_def CRC_LEN_def UNPOSITIONED_HEADER_LEN_def POSITIONED_HEADER_LEN_def

section \<open>Appending\<close>

record wal =
  wl_file :: bytes
  wl_applied :: "applied_position option"
  wl_poisoned :: bool

definition check_position :: "applied_position option \<Rightarrow> applied_position \<Rightarrow> unit result" where
  "check_position previous at =
     (if (case previous of None \<Rightarrow> False | Some p \<Rightarrow> ap_index at \<le> ap_index p)
      then Inl (EngineError ''wal: applied position must advance'') else Inr ())"

definition ensure_healthy :: "wal \<Rightarrow> unit result" where
  "ensure_healthy w =
     (if wl_poisoned w then Inl (EngineError ''wal: previous append failed; reopen required'') else Inr ())"

text \<open>The checked part of a record, and the whole record.\<close>

definition record_check :: "bytes \<Rightarrow> applied_position option \<Rightarrow> bytes" where
  "record_check payload at =
     [VERSION_V2, (if at \<noteq> None then POSITIONED else UNPOSITIONED)]
     @ (case at of None \<Rightarrow> [] | Some p \<Rightarrow> to_le 8 (ap_term p) @ to_le 8 (ap_index p))
     @ to_le 4 (of_nat (length payload) :: u32) @ payload"

definition record_bytes :: "bytes \<Rightarrow> applied_position option \<Rightarrow> bytes" where
  "record_bytes payload at =
     (let check = record_check payload at in WAL_MAGIC @ check @ to_le 4 (crc32 check))"

datatype io_outcome = IoOk | IoFailed nat

definition append_record ::
  "wal \<Rightarrow> write_batch \<Rightarrow> applied_position option \<Rightarrow> io_outcome \<Rightarrow> wal \<times> unit result" where
  "append_record w batch at io =
     (case ensure_healthy w of Inl e \<Rightarrow> (w, Inl e)
      | Inr _ \<Rightarrow>
          let payload = encode_batch batch in
          if length payload \<ge> 2 ^ 32 then (w, Inl (EngineError ''wal: batch exceeds u32 length''))
          else if length payload > MAX_RECORD_LEN
          then (w, Inl (EngineError ''wal: batch exceeds the byte record limit''))
          else
            let rec = record_bytes payload at in
            case io of
              IoFailed n \<Rightarrow>
                (w\<lparr>wl_file := wl_file w @ take n rec, wl_poisoned := True\<rparr>, Inl (EngineError ''wal io''))
            | IoOk \<Rightarrow>
                (w\<lparr>wl_file := wl_file w @ rec,
                   wl_applied := (if at \<noteq> None then at else wl_applied w)\<rparr>, Inr ()))"

definition wal_append :: "wal \<Rightarrow> write_batch \<Rightarrow> io_outcome \<Rightarrow> wal \<times> unit result" where
  "wal_append w batch io = append_record w batch None io"

definition append_applied ::
  "wal \<Rightarrow> write_batch \<Rightarrow> applied_position \<Rightarrow> io_outcome \<Rightarrow> wal \<times> unit result" where
  "append_applied w batch at io =
     (case check_position (wl_applied w) at of
        Inl e \<Rightarrow> (w, Inl e)
      | Inr _ \<Rightarrow> append_record w batch (Some at) io)"

section \<open>Replay\<close>

type_synonym 'a reader = "error option + 'a"

definition read_complete :: "nat \<Rightarrow> bytes \<Rightarrow> (bytes \<times> bytes) reader" where
  "read_complete n rest = (if n \<le> length rest then Inr (take n rest, drop n rest) else Inl None)"

definition strict_fail :: "bool \<Rightarrow> string \<Rightarrow> 'a reader" where
  "strict_fail strict msg = (if strict then Inl (Some (EngineError msg)) else Inl None)"

text \<open>After the preamble: the bytes added to the checked part, the position, and the rest.\<close>

definition read_position :: "byte \<Rightarrow> bytes \<Rightarrow> (bytes \<times> applied_position option \<times> bytes) reader" where
  "read_position version rest =
     (if version = VERSION_V1 then Inr ([], None, rest)
      else if version = VERSION_V2 then
        bind_res (read_complete 1 rest) (\<lambda>(tag, rest).
          if tag ! 0 = UNPOSITIONED then Inr (tag, None, rest)
          else if tag ! 0 = POSITIONED then
            bind_res (read_complete 16 rest) (\<lambda>(b, rest).
              Inr (tag @ b, Some \<lparr>ap_term = from_le (take 8 b), ap_index = from_le (drop 8 b)\<rparr>, rest))
          else Inl (Some (EngineError ''wal: unknown record kind'')))
      else Inl (Some (EngineError ''wal: unsupported record version'')))"

definition lift_res :: "'a result \<Rightarrow> 'a reader" where
  "lift_res r = (case r of Inl e \<Rightarrow> Inl (Some e) | Inr a \<Rightarrow> Inr a)"

text \<open>One turn of the loop: the batch, its position, the bytes consumed and the rest.\<close>

definition read_record ::
  "bool \<Rightarrow> applied_position option \<Rightarrow> bytes
     \<Rightarrow> (write_batch \<times> applied_position option \<times> nat \<times> bytes) reader" where
  "read_record strict previous rest =
     bind_res (read_complete 5 rest) (\<lambda>(preamble, rest).
     if take 4 preamble \<noteq> WAL_MAGIC then strict_fail strict ''wal: invalid complete record magic''
     else
     bind_res (read_position (preamble ! 4) rest) (\<lambda>(added, position, rest).
     bind_res (read_complete 4 rest) (\<lambda>(len_bytes, rest).
     let check = [preamble ! 4] @ added @ len_bytes; len = unat (from_le len_bytes :: u32) in
     if len > MAX_RECORD_LEN then strict_fail strict ''wal: record length exceeds limit''
     else
     bind_res (read_complete (len + CRC_LEN) rest) (\<lambda>(body, rest).
     let payload = take len body; check = check @ payload; want = from_le (drop len body) in
     if crc32 check \<noteq> want then strict_fail strict ''wal: complete record checksum mismatch''
     else
     bind_res (case position of None \<Rightarrow> Inr () | Some at \<Rightarrow> lift_res (check_position previous at)) (\<lambda>_.
     bind_res (lift_res (decode_batch payload)) (\<lambda>batch.
       Inr (batch, position, 4 + length check + CRC_LEN, rest)))))))"

definition next_previous :: "applied_position option \<Rightarrow> applied_position option \<Rightarrow> applied_position option" where
  "next_previous previous position = (case position of None \<Rightarrow> previous | Some at \<Rightarrow> Some at)"

lemma read_complete_Inr:
  "read_complete n rest = Inr (x, r) \<longleftrightarrow> n \<le> length rest \<and> x = take n rest \<and> r = drop n rest"
  by (auto simp: read_complete_def)

lemma read_position_rest: "read_position v rest = Inr (a, p, r) \<Longrightarrow> length r \<le> length rest"
  by (auto simp: read_position_def bind_res_Inr_iff read_complete_Inr split: if_splits)

lemma read_record_rest:
  "read_record strict prev rest = Inr (b, p, n, r) \<Longrightarrow> length r < length rest"
  by (auto simp: read_record_def bind_res_Inr_iff read_complete_Inr strict_fail_def Let_def
      dest!: read_position_rest split: if_splits)

function visit_records ::
  "bool \<Rightarrow> applied_position option \<Rightarrow> bytes
     \<Rightarrow> ((write_batch \<times> applied_position option) list \<times> nat) result" where
  "visit_records strict previous rest =
     (case read_record strict previous rest of
        Inl None \<Rightarrow> Inr ([], 0)
      | Inl (Some e) \<Rightarrow> Inl e
      | Inr (batch, position, n, rest') \<Rightarrow>
          bind_res (visit_records strict (next_previous previous position) rest') (\<lambda>(rs, good_end).
            Inr ((batch, position) # rs, n + good_end)))"
  by auto
termination
  by (relation "measure (\<lambda>(_, _, rest). length rest)") (auto dest: read_record_rest)

declare visit_records.simps [simp del]

record replay =
  rp_batches :: "write_batch list"
  rp_positions :: "applied_position option list"
  rp_discarded :: nat

definition wal_replay :: "bool \<Rightarrow> bytes \<Rightarrow> (replay \<times> nat) result" where
  "wal_replay strict file =
     bind_res (visit_records strict None file) (\<lambda>(rs, good_end).
       Inr (\<lparr>rp_batches = map fst rs, rp_positions = map snd rs, rp_discarded = length file - good_end\<rparr>,
            good_end))"

fun last_position :: "applied_position option list \<Rightarrow> applied_position option" where
  "last_position [] = None"
| "last_position (p # ps) = (case last_position ps of None \<Rightarrow> p | Some q \<Rightarrow> Some q)"

definition wal_open :: "bool \<Rightarrow> bytes \<Rightarrow> (wal \<times> replay) result" where
  "wal_open strict file =
     bind_res (wal_replay strict file) (\<lambda>(replay, valid_len).
       Inr (\<lparr>wl_file = (if rp_discarded replay > 0 then take valid_len file else file),
             wl_applied = last_position (rp_positions replay), wl_poisoned = False\<rparr>, replay))"

definition visit_strict :: "bytes \<Rightarrow> (write_batch \<times> applied_position option) list result" where
  "visit_strict file =
     bind_res (visit_records True None file) (\<lambda>(rs, good_end).
       if length file - good_end \<noteq> 0 then Inl (EngineError ''wal: incomplete legacy migration source'')
       else Inr rs)"

section \<open>Reading back what was appended\<close>

type_synonym wal_entry = "write_batch \<times> applied_position option"

definition rec_ok :: "wal_entry \<Rightarrow> bool" where
  "rec_ok r \<longleftrightarrow> length (encode_batch (fst r)) \<le> MAX_RECORD_LEN"

definition frame :: "wal_entry \<Rightarrow> bytes" where
  "frame r = record_bytes (encode_batch (fst r)) (snd r)"

text \<open>The kind byte and position of a record.\<close>

definition position_part :: "applied_position option \<Rightarrow> bytes" where
  "position_part at = (case at of None \<Rightarrow> [UNPOSITIONED]
     | Some p \<Rightarrow> POSITIONED # to_le 8 (ap_term p) @ to_le 8 (ap_index p))"

lemma length_wal_magic [simp]: "length WAL_MAGIC = 4"
  by (simp add: WAL_MAGIC_def)

lemma record_check_parts:
  "record_check payload at = VERSION_V2 # position_part at @ to_le 4 (of_nat (length payload) :: u32) @ payload"
  by (simp add: record_check_def position_part_def split: option.split)

lemma read_complete_take:
  assumes "length x = k"
  shows "read_complete k (take n (x @ y)) = (if k \<le> n then Inr (x, take (n - k) y) else Inl None)"
  using assms by (auto simp: read_complete_def)

lemma read_position_take:
  "read_position VERSION_V2 (take n (position_part at @ y)) =
     (if length (position_part at) \<le> n then Inr (position_part at, at, take (n - length (position_part at)) y)
      else Inl None)"
proof (cases at)
  case None
  then show ?thesis using read_complete_take [of "[UNPOSITIONED]" 1 n y]
    by (simp add: read_position_def position_part_def wal_consts)
next
  case (Some p)
  let ?b = "to_le 8 (ap_term p) @ to_le 8 (ap_index p)"
  have "read_complete 1 (take n (position_part at @ y))
      = (if 1 \<le> n then Inr ([POSITIONED], take (n - 1) (?b @ y)) else Inl None)"
    using read_complete_take [of "[POSITIONED]" 1 n "?b @ y"] Some by (simp add: position_part_def)
  moreover have "read_complete 16 (take (n - 1) (?b @ y))
      = (if 16 \<le> n - 1 then Inr (?b, take (n - 1 - 16) y) else Inl None)"
    using read_complete_take [of ?b 16 "n - 1" y] by simp
  moreover have "\<lparr>ap_term = ap_term p, ap_index = ap_index p\<rparr> = p" by simp
  ultimately show ?thesis using Some
    by (auto simp: read_position_def position_part_def wal_consts)
qed

text \<open>A turn of the reader on any prefix of a record followed by anything.\<close>

definition position_next :: "applied_position option \<Rightarrow> applied_position option \<Rightarrow> unit reader" where
  "position_next prev at = (case at of None \<Rightarrow> Inr () | Some a \<Rightarrow> lift_res (check_position prev a))"

lemma read_record_take:
  assumes ok: "rec_ok r"
  shows "read_record strict prev (take n (frame r @ rest)) =
    (if length (frame r) \<le> n
     then bind_res (position_next prev (snd r)) (\<lambda>_. Inr (fst r, snd r, length (frame r), take (n - length (frame r)) rest))
     else Inl None)"
proof -
  let ?p = "encode_batch (fst r)" and ?at = "snd r"
  let ?l = "to_le 4 (of_nat (length ?p) :: u32)" and ?q = "position_part ?at"
  let ?c = "record_check ?p ?at" and ?k = "to_le 4 (crc32 (record_check ?p ?at))"
  have small: "length ?p \<le> 67108864" using ok by (simp add: rec_ok_def MAX_RECORD_LEN_def)
  have len: "unat (of_nat (length ?p) :: u32) = length ?p" using small by (intro unat_of_nat_u32) simp
  have dec: "decode_batch ?p = Inr (fst r)"
    using small by (intro decode_encode_batch batch_fits_small) simp
  define H where "H = WAL_MAGIC @ [VERSION_V2]"
  define Y3 where "Y3 = (?p @ ?k) @ rest"
  define Y2 where "Y2 = ?l @ Y3"
  define Y1 where "Y1 = ?q @ Y2"
  define Y0 where "Y0 = H @ Y1"
  have f: "frame r @ rest = Y0"
    by (simp add: frame_def record_bytes_def Let_def record_check_parts H_def Y0_def Y1_def Y2_def Y3_def)
  have lf: "length (frame r) = 13 + length ?q + length ?p"
    by (simp add: frame_def record_bytes_def Let_def record_check_parts)
  have H: "take 4 H = WAL_MAGIC" "H ! 4 = VERSION_V2" by (simp_all add: H_def nth_append)
  have r1: "read_complete 5 (take m Y0) = (if 5 \<le> m then Inr (H, take (m - 5) Y1) else Inl None)" for m
    unfolding Y0_def by (rule read_complete_take) (simp add: H_def)
  have r2: "read_position VERSION_V2 (take m Y1)
      = (if length ?q \<le> m then Inr (?q, ?at, take (m - length ?q) Y2) else Inl None)" for m
    unfolding Y1_def by (rule read_position_take)
  have r3: "read_complete 4 (take m Y2) = (if 4 \<le> m then Inr (?l, take (m - 4) Y3) else Inl None)" for m
    unfolding Y2_def by (rule read_complete_take) simp
  have r4: "read_complete (length ?p + 4) (take m Y3)
      = (if length ?p + 4 \<le> m then Inr (?p @ ?k, take (m - (length ?p + 4)) rest) else Inl None)" for m
    unfolding Y3_def by (rule read_complete_take) simp
  have crc: "crc32 (VERSION_V2 # ?q @ ?l @ ?p) = from_le ?k" by (simp add: record_check_parts)
  have lc: "length (VERSION_V2 # ?q @ ?l @ ?p) = 5 + length ?q + length ?p" by simp
  have sm: "\<not> MAX_RECORD_LEN < length ?p" using small by (simp add: MAX_RECORD_LEN_def)
  show ?thesis
  proof (cases "length (frame r) \<le> n")
    case True
    let ?m = "n - 5 - length ?q - 4"
    from True have n: "5 \<le> n" "length ?q \<le> n - 5" "4 \<le> n - 5 - length ?q" "length ?p + 4 \<le> ?m"
      and fin: "?m - (length ?p + 4) = n - length (frame r)"
      using lf by linarith+
    have s: "read_complete 5 (take n Y0) = Inr (H, take (n - 5) Y1)"
      "read_position VERSION_V2 (take (n - 5) Y1) = Inr (?q, ?at, take (n - 5 - length ?q) Y2)"
      "read_complete 4 (take (n - 5 - length ?q) Y2) = Inr (?l, take ?m Y3)"
      "read_complete (length ?p + CRC_LEN) (take ?m Y3) = Inr (?p @ ?k, take (n - length (frame r)) rest)"
      using n fin by (simp_all only: r1 r2 r3 r4 if_True CRC_LEN_def)
    have used: "4 + length (([VERSION_V2] @ ?q @ ?l) @ ?p) + CRC_LEN = length (frame r)"
      using lf by (simp add: CRC_LEN_def)
    have pl: "take (length ?p) (?p @ ?k) = ?p" "drop (length ?p) (?p @ ?k) = ?k" by simp_all
    have cr: "crc32 (([VERSION_V2] @ ?q @ ?l) @ ?p) = from_le ?k" using crc by simp
    show ?thesis
      unfolding f read_record_def position_next_def Let_def
      using True
      by (simp only: s bind_res_simps prod.case H not_True_eq_False simp_thms if_False if_True
          from_to_be_widths len sm pl cr dec lift_res_def sum.case used)
  next
    case False
    then have "n < 5 \<or> 5 \<le> n \<and> n < 5 + length ?q \<or> 5 + length ?q \<le> n \<and> n < 9 + length ?q
        \<or> 9 + length ?q \<le> n \<and> n < 13 + length ?q + length ?p"
      using lf by linarith
    then consider "\<not> 5 \<le> n" | "5 \<le> n" "\<not> length ?q \<le> n - 5"
      | "5 \<le> n" "length ?q \<le> n - 5" "\<not> 4 \<le> n - 5 - length ?q"
      | "5 \<le> n" "length ?q \<le> n - 5" "4 \<le> n - 5 - length ?q" "\<not> length ?p + 4 \<le> n - 5 - length ?q - 4"
      by (elim disjE) (simp_all add: not_le less_diff_conv le_diff_conv2)
    then have "read_record strict prev (take n Y0) = Inl None"
      unfolding read_record_def Let_def
      by cases (simp_all only: r1 r2 r3 r4 H len sm CRC_LEN_def bind_res_simps prod.case not_True_eq_False
          simp_thms if_False if_True from_to_be_widths)
    with False f show ?thesis by simp
  qed
qed

lemma read_record_frame:
  "rec_ok r \<Longrightarrow> read_record strict prev (frame r @ rest) =
     bind_res (position_next prev (snd r)) (\<lambda>_. Inr (fst r, snd r, length (frame r), rest))"
  using read_record_take [of r strict prev "length (frame r @ rest)" rest] by simp

lemma read_record_torn:
  "rec_ok r \<Longrightarrow> n < length (frame r) \<Longrightarrow> read_record strict prev (take n (frame r)) = Inl None"
  using read_record_take [of r strict prev n "[]"] by simp

lemma read_record_Nil: "read_record strict prev [] = Inl None"
  by (simp add: read_record_def read_complete_def)

text \<open>Positions advance along a list of records, starting after \<open>prev\<close>.\<close>

fun chain :: "applied_position option \<Rightarrow> wal_entry list \<Rightarrow> bool" where
  "chain prev [] = True"
| "chain prev (r # rs) = (position_next prev (snd r) = Inr () \<and> chain (next_previous prev (snd r)) rs)"

definition last_of :: "applied_position option \<Rightarrow> wal_entry list \<Rightarrow> applied_position option" where
  "last_of prev rs = foldl (\<lambda>p r. next_previous p (snd r)) prev rs"

lemma chain_append: "chain prev (rs @ ts) \<longleftrightarrow> chain prev rs \<and> chain (last_of prev rs) ts"
  by (induction rs arbitrary: prev) (auto simp: last_of_def)

lemma last_position_last_of: "last_position (map snd rs) = last_of None rs"
proof -
  have "last_of p rs = (case last_position (map snd rs) of None \<Rightarrow> p | Some q \<Rightarrow> Some q)" for p
  proof (induction rs arbitrary: p)
    case (Cons r rs)
    then show ?case by (auto simp: last_of_def next_previous_def split: option.splits)
  qed (simp add: last_of_def)
  then show ?thesis by (simp split: option.splits)
qed

text \<open>Replay of complete records followed by a tail on which the reader stops.\<close>

lemma visit_frames:
  assumes "list_all rec_ok rs" "chain prev rs"
  shows "visit_records strict prev (concat (map frame rs) @ rest) =
    bind_res (visit_records strict (last_of prev rs) rest) (\<lambda>(ts, n). Inr (rs @ ts, length (concat (map frame rs)) + n))"
  using assms
proof (induction rs arbitrary: prev)
  case Nil
  show ?case by (cases "visit_records strict prev rest") (auto simp: last_of_def)
next
  case (Cons r rs)
  let ?x = "concat (map frame rs) @ rest"
  from Cons.prems have "read_record strict prev (frame r @ ?x) = Inr (fst r, snd r, length (frame r), ?x)"
    by (simp add: read_record_frame)
  then have "visit_records strict prev (frame r @ ?x) =
      bind_res (visit_records strict (next_previous prev (snd r)) ?x) (\<lambda>(ts, n). Inr (r # ts, length (frame r) + n))"
    by (subst visit_records.simps) simp
  moreover have "visit_records strict (next_previous prev (snd r)) ?x =
      bind_res (visit_records strict (last_of prev (r # rs)) rest)
        (\<lambda>(ts, n). Inr (rs @ ts, length (concat (map frame rs)) + n))"
    using Cons.IH Cons.prems by (simp add: last_of_def)
  ultimately show ?case
    by (cases "visit_records strict (last_of prev (r # rs)) rest") (auto simp: add_ac)
qed

lemma visit_stop: "read_record strict prev rest = Inl None \<Longrightarrow> visit_records strict prev rest = Inr ([], 0)"
  by (subst visit_records.simps) simp

definition torn_tail :: "bytes \<Rightarrow> wal_entry list \<Rightarrow> wal_entry set \<Rightarrow> bool" where
  "torn_tail tail rs S \<longleftrightarrow>
     (\<exists>r\<in>S. \<exists>n. rec_ok r \<and> chain None (rs @ [r]) \<and> tail = take n (frame r))"

text \<open>The records of a file; \<open>S\<close> are the records whose append was ever attempted.\<close>

definition wal_inv :: "wal \<Rightarrow> wal_entry list \<Rightarrow> wal_entry set \<Rightarrow> bool" where
  "wal_inv w rs S \<longleftrightarrow> list_all rec_ok rs \<and> chain None rs \<and> set rs \<subseteq> S \<and> wl_applied w = last_of None rs \<and>
     (\<exists>tail. wl_file w = concat (map frame rs) @ tail \<and> (tail = [] \<or> wl_poisoned w \<and> torn_tail tail rs S))"

lemma wal_open_frames:
  assumes "list_all rec_ok rs" "chain None rs" "read_record strict (last_of None rs) tail = Inl None"
  shows "wal_open strict (concat (map frame rs) @ tail) =
    Inr (\<lparr>wl_file = concat (map frame rs), wl_applied = last_of None rs, wl_poisoned = False\<rparr>,
         \<lparr>rp_batches = map fst rs, rp_positions = map snd rs, rp_discarded = length tail\<rparr>)"
  using visit_frames [OF assms(1,2), of strict tail] visit_stop [OF assms(3)]
  by (simp add: wal_open_def wal_replay_def last_position_last_of)

lemma wal_inv_open:
  assumes "wal_inv w rs S"
  shows "\<exists>rs' w' rp. (rs' = rs \<or> (\<exists>r. rs' = rs @ [r])) \<and> wal_open strict (wl_file w) = Inr (w', rp)
    \<and> rp_batches rp = map fst rs' \<and> rp_positions rp = map snd rs' \<and> \<not> wl_poisoned w' \<and> wal_inv w' rs' S"
proof -
  from assms obtain tail where ok: "list_all rec_ok rs" "chain None rs" "set rs \<subseteq> S"
    and f: "wl_file w = concat (map frame rs) @ tail" and t: "tail = [] \<or> torn_tail tail rs S"
    by (auto simp: wal_inv_def)
  have opened: "\<exists>w' rp. wal_open strict (concat (map frame rs') @ tail') = Inr (w', rp)
      \<and> rp_batches rp = map fst rs' \<and> rp_positions rp = map snd rs' \<and> \<not> wl_poisoned w' \<and> wal_inv w' rs' S"
    if "list_all rec_ok rs'" "chain None rs'" "set rs' \<subseteq> S" "read_record strict (last_of None rs') tail' = Inl None"
    for rs' tail'
    using wal_open_frames [OF that(1,2,4)] that(1-3) by (simp add: wal_inv_def)
  from t consider "read_record strict (last_of None rs) tail = Inl None"
    | r where "r \<in> S" "rec_ok r" "chain None (rs @ [r])" "tail = frame r"
  proof (cases "tail = []")
    case True
    with that(1) show ?thesis by (simp add: read_record_Nil)
  next
    case False
    with t obtain r n where r: "r \<in> S" "rec_ok r" "chain None (rs @ [r])" "tail = take n (frame r)"
      by (auto simp: torn_tail_def)
    show ?thesis
    proof (cases "n < length (frame r)")
      case True
      with that(1) r read_record_torn show ?thesis by simp
    next
      case False
      with that(2) r show ?thesis by simp
    qed
  qed
  then show ?thesis
  proof cases
    case 1
    then show ?thesis using opened [OF ok] f by metis
  next
    case (2 r)
    have "\<exists>w' rp. wal_open strict (concat (map frame (rs @ [r])) @ []) = Inr (w', rp)
        \<and> rp_batches rp = map fst (rs @ [r]) \<and> rp_positions rp = map snd (rs @ [r])
        \<and> \<not> wl_poisoned w' \<and> wal_inv w' (rs @ [r]) S"
      using 2 ok by (intro opened) (simp_all add: read_record_Nil)
    with f 2 show ?thesis by (intro exI [of _ "rs @ [r]"]) simp
  qed
qed

definition refuses :: "wal \<Rightarrow> write_batch \<Rightarrow> bool" where
  "refuses w batch \<longleftrightarrow> wl_poisoned w \<or> length (encode_batch batch) > MAX_RECORD_LEN"

lemma append_record_cases:
  "refuses w batch \<Longrightarrow> \<exists>e. append_record w batch at io = (w, Inl e)"
  "\<not> refuses w batch \<Longrightarrow> append_record w batch at IoOk = (w\<lparr>wl_file := wl_file w @ frame (batch, at),
     wl_applied := (if at \<noteq> None then at else wl_applied w)\<rparr>, Inr ())"
  "\<not> refuses w batch \<Longrightarrow> append_record w batch at (IoFailed n) =
     (w\<lparr>wl_file := wl_file w @ take n (frame (batch, at)), wl_poisoned := True\<rparr>, Inl (EngineError ''wal io''))"
proof -
  have "MAX_RECORD_LEN < 2 ^ 32" by (simp add: MAX_RECORD_LEN_def)
  then show "refuses w batch \<Longrightarrow> \<exists>e. append_record w batch at io = (w, Inl e)"
    by (cases "wl_poisoned w") (simp_all add: append_record_def refuses_def ensure_healthy_def Let_def)
  assume r: "\<not> refuses w batch"
  then have h: "ensure_healthy w = Inr ()" "\<not> length (encode_batch batch) > MAX_RECORD_LEN"
    by (simp_all add: refuses_def ensure_healthy_def)
  then have l: "\<not> length (encode_batch batch) \<ge> 2 ^ 32" by (simp add: MAX_RECORD_LEN_def)
  show "append_record w batch at IoOk = (w\<lparr>wl_file := wl_file w @ frame (batch, at),
     wl_applied := (if at \<noteq> None then at else wl_applied w)\<rparr>, Inr ())"
    "append_record w batch at (IoFailed n) =
     (w\<lparr>wl_file := wl_file w @ take n (frame (batch, at)), wl_poisoned := True\<rparr>, Inl (EngineError ''wal io''))"
    using h l by (simp_all add: append_record_def frame_def Let_def)
qed

lemma wal_inv_append:
  assumes inv: "wal_inv w rs S" and n: "position_next (wl_applied w) at = Inr ()" and r: "(batch, at) \<in> S"
    and a: "append_record w batch at io = (w', res)"
  shows "wal_inv w' (if res = Inr () then rs @ [(batch, at)] else rs) S"
proof (cases "refuses w batch")
  case True
  then obtain e where "append_record w batch at io = (w, Inl e)" using append_record_cases(1) by blast
  with a inv show ?thesis by auto
next
  case False
  let ?r = "(batch, at)"
  from False have ok: "rec_ok ?r" by (simp add: rec_ok_def refuses_def)
  from inv have i: "list_all rec_ok rs" "chain None rs" "set rs \<subseteq> S" "wl_applied w = last_of None rs"
    "wl_file w = concat (map frame rs)" using False by (auto simp: wal_inv_def refuses_def)
  have ch: "chain None (rs @ [?r])" using i(2,4) n by (simp add: chain_append)
  show ?thesis
  proof (cases io)
    case IoOk
    with a append_record_cases(2) [OF False] have "res = Inr ()" "w' = w\<lparr>wl_file := wl_file w @ frame ?r,
        wl_applied := (if at \<noteq> None then at else wl_applied w)\<rparr>" by simp_all
    moreover have "last_of None (rs @ [?r]) = (if at \<noteq> None then at else wl_applied w)"
      using i(4) by (auto simp: last_of_def next_previous_def)
    ultimately show ?thesis using i ok ch r by (simp add: wal_inv_def)
  next
    case (IoFailed k)
    with a append_record_cases(3) [OF False]
    have "res \<noteq> Inr ()" "w' = w\<lparr>wl_file := wl_file w @ take k (frame ?r), wl_poisoned := True\<rparr>" by auto
    moreover have "torn_tail (take k (frame ?r)) rs S" using r ok ch by (auto simp: torn_tail_def)
    ultimately show ?thesis using i by (simp add: wal_inv_def)
  qed
qed

section \<open>Histories\<close>

text \<open>
  A history of one log file: appends with the outcome of their I/O, and reopens, each after a
  clean stop or a crash. The second component collects the acknowledged appends.
\<close>

datatype wal_op = OpAppend write_batch io_outcome | OpAppendApplied write_batch applied_position io_outcome
  | OpReopen bool

fun op_record :: "wal_op \<Rightarrow> wal_entry list" where
  "op_record (OpAppend b _) = [(b, None)]"
| "op_record (OpAppendApplied b at _) = [(b, Some at)]"
| "op_record (OpReopen _) = []"

definition acknowledged :: "wal_entry list \<Rightarrow> wal_op \<Rightarrow> wal \<times> unit result \<Rightarrow> wal \<times> wal_entry list" where
  "acknowledged acked op r = (fst r, if snd r = Inr () then acked @ op_record op else acked)"

fun wal_exec :: "wal \<times> wal_entry list \<Rightarrow> wal_op \<Rightarrow> wal \<times> wal_entry list" where
  "wal_exec (w, acked) (OpAppend b io) = acknowledged acked (OpAppend b io) (wal_append w b io)"
| "wal_exec (w, acked) (OpAppendApplied b at io) =
     acknowledged acked (OpAppendApplied b at io) (append_applied w b at io)"
| "wal_exec (w, acked) (OpReopen strict) =
     (case wal_open strict (wl_file w) of Inl _ \<Rightarrow> (w, acked) | Inr (w', _) \<Rightarrow> (w', acked))"

definition wal_empty :: wal where
  "wal_empty = \<lparr>wl_file = [], wl_applied = None, wl_poisoned = False\<rparr>"

definition wal_history :: "wal_op list \<Rightarrow> wal \<times> wal_entry list" where
  "wal_history ops = foldl wal_exec (wal_empty, []) ops"

definition attempted :: "wal_op list \<Rightarrow> wal_entry set" where
  "attempted ops = set (concat (map op_record ops))"

lemma wal_exec_inv:
  assumes inv: "wal_inv w rs S" "subseq acked rs" and S: "set (op_record op) \<subseteq> S"
    and x: "wal_exec (w, acked) op = (w', acked')"
  shows "\<exists>rs'. wal_inv w' rs' S \<and> subseq acked' rs'"
proof -
  have app: "\<exists>rs'. wal_inv w1 rs' S \<and> subseq (if res = Inr () then acked @ [(b, at)] else acked) rs'"
    if "position_next (wl_applied w) at = Inr ()" "(b, at) \<in> S" "append_record w b at io = (w1, res)"
    for b at io w1 res
    using wal_inv_append [OF inv(1) that] inv(2)
    by (cases "res = Inr ()") (auto intro: list_emb_append_mono)
  show ?thesis
  proof (cases op)
    case (OpAppend b io)
    obtain w1 res where "append_record w b None io = (w1, res)" by fastforce
    moreover from this have "\<exists>rs'. wal_inv w1 rs' S \<and> subseq (if res = Inr () then acked @ [(b, None)] else acked) rs'"
      using S OpAppend by (intro app) (simp_all add: position_next_def)
    moreover have "w' = w1" "acked' = (if res = Inr () then acked @ [(b, None)] else acked)"
      using calculation(1) OpAppend x by (auto simp: wal_append_def acknowledged_def)
    ultimately show ?thesis by (simp only:)
  next
    case (OpAppendApplied b at io)
    show ?thesis
    proof (cases "check_position (wl_applied w) at")
      case (Inl e)
      with OpAppendApplied x inv show ?thesis by (auto simp: append_applied_def acknowledged_def)
    next
      case (Inr u)
      obtain w1 res where "append_record w b (Some at) io = (w1, res)" by fastforce
      moreover from this have "\<exists>rs'. wal_inv w1 rs' S \<and> subseq (if res = Inr () then acked @ [(b, Some at)] else acked) rs'"
        using S OpAppendApplied Inr by (intro app) (simp_all add: position_next_def lift_res_def)
      moreover have "w' = w1" "acked' = (if res = Inr () then acked @ [(b, Some at)] else acked)"
        using calculation(1) OpAppendApplied x Inr by (auto simp: append_applied_def acknowledged_def)
      ultimately show ?thesis by (simp only:)
    qed
  next
    case (OpReopen strict)
    from wal_inv_open [OF inv(1), of strict] obtain rs' w1 rp where "rs' = rs \<or> (\<exists>r. rs' = rs @ [r])"
      "wal_open strict (wl_file w) = Inr (w1, rp)" "wal_inv w1 rs' S" by blast
    moreover from this(1) inv(2) have "subseq acked rs'" by (auto intro: subseq_order.order_trans)
    ultimately show ?thesis using OpReopen x by auto
  qed
qed

lemma wal_history_inv:
  "\<exists>rs. wal_inv (fst (wal_history ops)) rs (attempted ops) \<and> subseq (snd (wal_history ops)) rs"
proof -
  have "\<exists>rs. wal_inv (fst (foldl wal_exec p xs)) rs S \<and> subseq (snd (foldl wal_exec p xs)) rs"
    if "\<exists>rs. wal_inv (fst p) rs S \<and> subseq (snd p) rs" "attempted xs \<subseteq> S" for p xs S
    using that
  proof (induction xs arbitrary: p)
    case (Cons x xs)
    then obtain rs where "wal_inv (fst p) rs S" "subseq (snd p) rs" by blast
    with wal_exec_inv [of "fst p" rs S "snd p" x] Cons.prems(2)
    have "\<exists>rs. wal_inv (fst (wal_exec p x)) rs S \<and> subseq (snd (wal_exec p x)) rs"
      by (cases p; cases "wal_exec p x") (auto simp: attempted_def)
    with Cons show ?case by (simp add: attempted_def)
  qed simp
  moreover have "wal_inv wal_empty [] S" for S by (simp add: wal_inv_def wal_empty_def last_of_def)
  ultimately show ?thesis unfolding wal_history_def by (metis fst_conv snd_conv order_refl list_emb_Nil)
qed

section \<open>Properties\<close>

text \<open>
  C2. Durability of the log: after any history of appends with arbitrary I/O outcomes (a failed
  append may leave any prefix of its record) and reopens, opening the file succeeds, in strict
  and in tolerant mode; every acknowledged append is among the recovered records, in order, and
  every recovered record was appended.
\<close>

theorem wal_recovers_acknowledged:
  "\<exists>w rp. wal_open strict (wl_file (fst (wal_history ops))) = Inr (w, rp)
     \<and> subseq (snd (wal_history ops)) (zip (rp_batches rp) (rp_positions rp))
     \<and> set (zip (rp_batches rp) (rp_positions rp)) \<subseteq> attempted ops
     \<and> wl_applied w = last_position (rp_positions rp)"
proof -
  from wal_history_inv obtain rs where i: "wal_inv (fst (wal_history ops)) rs (attempted ops)"
    "subseq (snd (wal_history ops)) rs" by blast
  from wal_inv_open [OF i(1), of strict] obtain rs' w rp where
    r: "rs' = rs \<or> (\<exists>r. rs' = rs @ [r])" "wal_open strict (wl_file (fst (wal_history ops))) = Inr (w, rp)"
      "rp_batches rp = map fst rs'" "rp_positions rp = map snd rs'" "wal_inv w rs' (attempted ops)" by blast
  have "zip (rp_batches rp) (rp_positions rp) = rs'" using r(3,4) by (simp add: zip_map_fst_snd)
  moreover have "subseq (snd (wal_history ops)) rs'" using r(1) i(2) by (auto intro: subseq_order.order_trans)
  ultimately show ?thesis using r by (auto simp: wal_inv_def last_position_last_of)
qed

text \<open>
  C30. A complete, checksummed record whose position does not advance fails the whole open with
  an error, whatever follows it, in either mode: no usable prefix is returned.
\<close>

theorem position_regression_fails_open:
  assumes "list_all rec_ok rs" "chain None rs" "rec_ok (b, Some at)" "last_of None rs = Some p"
    and "ap_index at \<le> ap_index p"
  shows "wal_open strict (concat (map frame rs) @ frame (b, Some at) @ rest)
    = Inl (EngineError ''wal: applied position must advance'')"
proof -
  have "read_record strict (last_of None rs) (frame (b, Some at) @ rest)
      = Inl (Some (EngineError ''wal: applied position must advance''))"
    using assms by (simp add: read_record_frame position_next_def lift_res_def check_position_def)
  then have "visit_records strict (last_of None rs) (frame (b, Some at) @ rest)
      = Inl (EngineError ''wal: applied position must advance'')"
    by (subst visit_records.simps) simp
  with visit_frames [OF assms(1,2)] show ?thesis by (simp add: wal_open_def wal_replay_def)
qed

theorem position_regression_fails_open_witness:
  "wal_open False (frame ([], Some \<lparr>ap_term = 1, ap_index = 5\<rparr>) @ frame ([], Some \<lparr>ap_term = 2, ap_index = 5\<rparr>))
    = Inl (EngineError ''wal: applied position must advance'')"
proof -
  let ?a = "\<lparr>ap_term = 1, ap_index = 5\<rparr> :: applied_position" and ?b = "\<lparr>ap_term = 2, ap_index = 5\<rparr> :: applied_position"
  have r: "rec_ok ([], Some at)" for at by (simp add: rec_ok_def encode_batch_code MAX_RECORD_LEN_def)
  show ?thesis
    using position_regression_fails_open [of "[([], Some ?a)]" "[]" ?b ?a False "[]"] r
    by (simp add: last_of_def next_previous_def position_next_def lift_res_def check_position_def)
qed

text \<open>
  C31. The batch payload codec returns every batch whose lengths fit their fields, and the
  length a record occupies on disk is the one \<open>record_len\<close> computes.
\<close>

theorem batch_codec_roundtrip:
  "(batch_fits b \<longrightarrow> decode_batch (encode_batch b) = Inr b) \<and>
   record_len (if at \<noteq> None then POSITIONED else UNPOSITIONED) (length (encode_batch b))
     = Some (length (frame (b, at)))"
  using decode_encode_batch [of b]
  by (cases at) (simp_all add: record_len_def frame_def record_bytes_def Let_def record_check_parts
      position_part_def wal_consts)

theorem batch_codec_roundtrip_witness:
  "decode_batch (encode_batch [Put Default [1] [2, 3], Delete Lock []]) = Inr [Put Default [1] [2, 3], Delete Lock []]"
  using batch_codec_roundtrip [of "[Put Default [1] [2, 3], Delete Lock []]"]
  by (simp add: batch_fits_small encode_batch_code bytes_code_def)

end
