(* ===== verification/DurableEngine.thy ===== *)
theory DurableEngine
  imports GroupRun VersionedViews Wal
begin

text \<open>
  The durable engine, \<open>WalEngine\<close> of \<open>crates/engine/src/persist.rs\<close> on its single-file log: every batch
  is appended to the log of \<open>Wal\<close>, then written to the versioned index of \<open>Versioned\<close>; opening replays
  the log into a new index. A data group on this engine that stops at any point - after a failed
  append, a torn record, a failed allocation, or between two entries - is opened again from the bytes
  of the file, and resumes where its acknowledged entries end.
\<close>

section \<open>The log of the engine\<close>

text \<open>
  The legacy layout: \<open>None\<close> is the fence of a layout change under way. The segmented layout, the
  accounting of log bytes and the I/O counters are not modelled.

  \<open>io\<close> gives the outcome of the I/O of an append to a file with a given content. Two appends
  between two opens never see the same content, so any sequence of outcomes is such a function.
\<close>

record engine_wal =
  ew_backing :: "wal option"

definition LAYOUT_TRANSITION :: error where
  "LAYOUT_TRANSITION = EngineError ''WAL layout transition requires recovery''"

definition ew_ensure_available :: "engine_wal \<Rightarrow> unit result" where
  "ew_ensure_available ew =
     (case ew_backing ew of None \<Rightarrow> Inl LAYOUT_TRANSITION | Some w \<Rightarrow> ensure_healthy w)"

definition ew_append :: "(bytes \<Rightarrow> io_outcome) \<Rightarrow> engine_wal \<Rightarrow> write_batch \<Rightarrow> engine_wal \<times> unit result" where
  "ew_append io ew batch =
     (case ew_backing ew of
        None \<Rightarrow> (ew, Inl LAYOUT_TRANSITION)
      | Some w \<Rightarrow> (case wal_append w batch (io (wl_file w)) of (w', r) \<Rightarrow> (ew\<lparr>ew_backing := Some w'\<rparr>, r)))"

definition ew_append_applied ::
  "(bytes \<Rightarrow> io_outcome) \<Rightarrow> engine_wal \<Rightarrow> write_batch \<Rightarrow> applied_position \<Rightarrow> engine_wal \<times> unit result" where
  "ew_append_applied io ew batch at =
     (case ew_backing ew of
        None \<Rightarrow> (ew, Inl LAYOUT_TRANSITION)
      | Some w \<Rightarrow> (case append_applied w batch at (io (wl_file w)) of (w', r) \<Rightarrow> (ew\<lparr>ew_backing := Some w'\<rparr>, r)))"

section \<open>The engine\<close>

definition GC_EVERY_WRITES :: u64 where "GC_EVERY_WRITES = 128"

definition GC_SCAN_BUDGET :: nat where "GC_SCAN_BUDGET = 4096"

record 't wal_engine =
  we_index :: "'t shared"
  we_gc :: gc_cursor
  we_writes :: u64
  we_wal :: engine_wal

record engine_replay =
  er_replayed_records :: u64
  er_covered_records :: u64
  er_discarded_tail_bytes :: nat

text \<open>
  A collection leg after every \<open>GC_EVERY_WRITES\<close>th write. \<open>None\<close> is a leg that does not return; a tree
  that keeps its laws has none (\<open>gc_step_correct\<close>).
\<close>

definition after_write :: "'t bbtree_ops \<Rightarrow> 't wal_engine \<Rightarrow> 't wal_engine" where
  "after_write B we =
     (let we1 = we\<lparr>we_writes := we_writes we + 1\<rparr> in
      if we_writes we mod GC_EVERY_WRITES \<noteq> GC_EVERY_WRITES - 1 then we1
      else case gc_step B (we_index we1) (we_gc we1) GC_SCAN_BUDGET of
             None \<Rightarrow> we1
           | Some (sh, cursor, _) \<Rightarrow> we1\<lparr>we_index := sh, we_gc := cursor\<rparr>)"

definition we_get :: "'t bbtree_ops \<Rightarrow> nat \<Rightarrow> 't wal_engine \<Rightarrow> column_family \<Rightarrow> bytes \<Rightarrow> 't wal_engine \<times> bytes option result" where
  "we_get B shard we cf key = (case vm_get B shard (we_index we) cf key of (sh, r) \<Rightarrow> (we\<lparr>we_index := sh\<rparr>, r))"

definition we_write ::
  "(bytes \<Rightarrow> io_outcome) \<Rightarrow> 't bbtree_ops \<Rightarrow> 't wal_engine \<Rightarrow> write_batch \<Rightarrow> 't wal_engine \<times> unit result" where
  "we_write io B we batch =
     (case ew_append io (we_wal we) batch of
        (ew, Inl e) \<Rightarrow> (we\<lparr>we_wal := ew\<rparr>, Inl e)
      | (ew, Inr _) \<Rightarrow>
          (case vm_write B (we_index we) batch of
             (sh, Inl e) \<Rightarrow> (we\<lparr>we_wal := ew, we_index := sh\<rparr>, Inl e)
           | (sh, Inr _) \<Rightarrow> (after_write B (we\<lparr>we_wal := ew, we_index := sh\<rparr>), Inr ())))"

definition we_scan :: "'t bbtree_ops \<Rightarrow> nat \<Rightarrow> 't wal_engine \<Rightarrow> column_family \<Rightarrow> bytes \<Rightarrow> bytes \<Rightarrow> nat
    \<Rightarrow> ('t wal_engine \<times> scan_entry list result) option" where
  "we_scan B shard we cf start fin limit =
     map_option (\<lambda>(sh, r). (we\<lparr>we_index := sh\<rparr>, r)) (vm_scan B shard (we_index we) cf start fin limit)"

definition we_delete_range :: "(bytes \<Rightarrow> io_outcome) \<Rightarrow> 't bbtree_ops \<Rightarrow> nat \<Rightarrow> 't wal_engine \<Rightarrow> column_family \<Rightarrow> bytes \<Rightarrow> bytes
    \<Rightarrow> ('t wal_engine \<times> unit result) option" where
  "we_delete_range io B shard we cf start fin =
     map_option (\<lambda>(we1, r).
       case r of
         Inl e \<Rightarrow> (we1, Inl e)
       | Inr victims \<Rightarrow>
           if victims = [] then (we1, Inr ())
           else we_write io B we1 (fold (\<lambda>(k, _) b. batch_delete b cf k) victims []))
       (we_scan B shard we cf start fin USIZE_MAX)"

definition we_checksum :: "'t bbtree_ops \<Rightarrow> nat \<Rightarrow> 't wal_engine \<Rightarrow> column_family \<Rightarrow> bytes \<Rightarrow> bytes
    \<Rightarrow> ('t wal_engine \<times> u64 result) option" where
  "we_checksum B shard we cf start fin =
     map_option (\<lambda>(sh, r). (we\<lparr>we_index := sh\<rparr>, r)) (vm_checksum B shard (we_index we) cf start fin)"

definition we_snapshot :: "'t wal_engine \<Rightarrow> nat \<Rightarrow> 't wal_engine \<times> view result" where
  "we_snapshot we shard = (case vm_snapshot (we_index we) shard of (sh, r) \<Rightarrow> (we\<lparr>we_index := sh\<rparr>, r))"

definition we_durability :: "'t wal_engine \<Rightarrow> durability" where
  "we_durability we = DurableThroughLastWrite"

definition WAL_POSITION_REFUSED :: error where
  "WAL_POSITION_REFUSED = EngineError ''applied position must advance''"

definition we_write_applied ::
  "(bytes \<Rightarrow> io_outcome) \<Rightarrow> 't bbtree_ops \<Rightarrow> 't wal_engine \<Rightarrow> write_batch \<Rightarrow> applied_position
     \<Rightarrow> 't wal_engine \<times> unit result" where
  "we_write_applied io B we batch at =
     (if (case vm_volatile_applied_position (we_index we) of None \<Rightarrow> False | Some p \<Rightarrow> ap_index at \<le> ap_index p)
      then (we, Inl WAL_POSITION_REFUSED)
      else
        case ew_append_applied io (we_wal we) batch at of
          (ew, Inl e) \<Rightarrow> (we\<lparr>we_wal := ew\<rparr>, Inl e)
        | (ew, Inr _) \<Rightarrow>
            (case vm_write_applied B (we_index we) batch at of
               (sh, Inl e) \<Rightarrow> (we\<lparr>we_wal := ew, we_index := sh\<rparr>, Inl e)
             | (sh, Inr _) \<Rightarrow> (after_write B (we\<lparr>we_wal := ew, we_index := sh\<rparr>), Inr ())))"

definition we_applied_position :: "'t wal_engine \<Rightarrow> durable_applied_position result" where
  "we_applied_position we =
     bind_res (ew_ensure_available (we_wal we)) (\<lambda>_.
       Inr (case vm_volatile_applied_position (we_index we) of Some at \<Rightarrow> AppliedThrough at | None \<Rightarrow> AppliedNothing))"

definition we_data_revision :: "'t wal_engine \<Rightarrow> u64" where
  "we_data_revision we = vm_data_revision (we_index we)"

definition we_collect_garbage :: "'t bbtree_ops \<Rightarrow> 't wal_engine \<Rightarrow> ('t wal_engine \<times> garbage_report) option" where
  "we_collect_garbage B we = map_option (\<lambda>(sh, r). (we\<lparr>we_index := sh\<rparr>, r)) (collect_garbage B (we_index we))"

text \<open>The image cut of a checkpoint: the view, its position and its data revision, under the log lock.\<close>

definition we_freeze :: "'t wal_engine \<Rightarrow> nat \<Rightarrow> 't wal_engine \<times> (view \<times> applied_position \<times> u64) result" where
  "we_freeze we shard =
     (case ew_ensure_available (we_wal we) of
        Inl e \<Rightarrow> (we, Inl e)
      | Inr _ \<Rightarrow>
          (case freeze_parts (we_index we) shard of
             (sh, v, position, revision) \<Rightarrow>
               (case position of
                  None \<Rightarrow> (we\<lparr>we_index := view_drop sh v\<rparr>, Inl (EngineError ''nothing applied to freeze''))
                | Some at \<Rightarrow> (we\<lparr>we_index := sh\<rparr>, Inr (v, at, revision)))))"

section \<open>Opening\<close>

definition checkpoint_covers :: "applied_position \<Rightarrow> applied_position option \<Rightarrow> bool result" where
  "checkpoint_covers base at =
     (case at of
        None \<Rightarrow> Inl (EngineError ''unpositioned WAL record beside a remote checkpoint'')
      | Some at \<Rightarrow>
          if (if ap_index at < ap_index base then ap_term at \<le> ap_term base
              else if ap_index at = ap_index base then ap_term at = ap_term base
              else ap_term base \<le> ap_term at)
          then Inr (ap_index at \<le> ap_index base)
          else Inl (EngineError ''WAL record disagrees with checkpoint term''))"

text \<open>The replay loop: a record is skipped when the base covers it, and written to the index otherwise.\<close>

fun replay_index :: "'t bbtree_ops \<Rightarrow> applied_position option \<Rightarrow> wal_entry list \<Rightarrow> 't shared \<times> engine_replay
    \<Rightarrow> ('t shared \<times> engine_replay) result" where
  "replay_index B base [] st = Inr st"
| "replay_index B base ((batch, position) # rs) (sh, report) =
     bind_res (case base of None \<Rightarrow> Inr False | Some b \<Rightarrow> checkpoint_covers b position) (\<lambda>covered.
       if covered
       then replay_index B base rs (sh, report\<lparr>er_covered_records := er_covered_records report + 1\<rparr>)
       else
         case (case position of Some at \<Rightarrow> vm_write_applied B sh batch at | None \<Rightarrow> vm_write B sh batch) of
           (sh1, Inl e) \<Rightarrow> Inl e
         | (sh1, Inr _) \<Rightarrow>
             replay_index B base rs (sh1, report\<lparr>er_replayed_records := er_replayed_records report + 1\<rparr>))"

text \<open>
  \<open>restored\<close> is what the checkpoint reader gives for the checkpoint beside the log: the image and its
  position, nothing when there is no checkpoint. The result is \<open>None\<close> when the final
  collection does not return.
\<close>

definition we_open ::
  "'t bbtree_ops \<Rightarrow> ('t shared \<times> applied_position) option \<Rightarrow> bytes \<Rightarrow> ('t wal_engine \<times> engine_replay) result option" where
  "we_open B restored file =
     (let index = (case restored of None \<Rightarrow> vm_new B | Some (img, _) \<Rightarrow> img);
          base = map_option snd restored in
      case wal_open True file of
        Inl e \<Rightarrow> Some (Inl e)
      | Inr (w, replay) \<Rightarrow>
          (case replay_index B base (zip (rp_batches replay) (rp_positions replay))
                  (index, \<lparr>er_replayed_records = 0, er_covered_records = 0,
                           er_discarded_tail_bytes = rp_discarded replay\<rparr>) of
             Inl e \<Rightarrow> Some (Inl e)
           | Inr (sh, report) \<Rightarrow>
               map_option (\<lambda>(sh', _).
                   Inr (\<lparr>we_index = sh', we_gc = gc_cursor_default, we_writes = 0, we_wal = \<lparr>ew_backing = Some w\<rparr>\<rparr>, report))
                 (collect_garbage B sh)))"

definition we_store :: "(bytes \<Rightarrow> io_outcome) \<Rightarrow> 't bbtree_ops \<Rightarrow> nat \<Rightarrow> 't wal_engine apply_store" where
  "we_store io B shard = \<lparr>as_get = \<lambda>we cf key. snd (we_get B shard we cf key),
     as_write_applied = we_write_applied io B, as_applied_position = we_applied_position\<rparr>"

text \<open>The bytes a stopped process leaves.\<close>

definition we_file :: "'t wal_engine \<Rightarrow> bytes" where
  "we_file we = (case ew_backing (we_wal we) of None \<Rightarrow> [] | Some w \<Rightarrow> wl_file w)"

section \<open>The index under collection\<close>

lemma oldest_le_visible: "oldest_live_version sh \<le> sh_visible sh"
  by (simp add: oldest_live_version_def Let_def split: list.splits)

context bbtree_laws
begin

lemma gc_step_rep:
  assumes "vm_rep brep n sh a" "cursor_ok c"
  shows "\<exists>sh' c' rep. gc_step B sh c budget = Some (sh', c', rep) \<and> vm_rep brep n sh' a \<and> cursor_ok c'"
proof -
  from assms(1) obtain X where X: "holds brep sh X" "versions_upto (sh_visible sh) X"
      "\<forall>cf. kv_data a cf = live (sh_visible sh) (X cf)"
    and rest: "quiescent sh" "unat (sh_visible sh) \<le> n" "\<forall>cf. length (kv_data a cf) \<le> n"
      "pb_applied (sh_published sh) = kv_applied a"
    by (auto simp: vm_rep_def)
  obtain sh' c' rep X' where g: "gc_step B sh c budget = Some (sh', c', rep)" "holds brep sh' X'" "cursor_ok c'"
    and sh': "sh' = sh\<lparr>sh_trees := sh_trees sh'\<rparr>" and keeps: "gc_keeps (oldest_live_version sh) X X'"
    using gc_step_correct [OF X(1) assms(2), of budget] by (elim exE conjE) (rule that)
  have fields: "sh_registry sh' = sh_registry sh" "sh_visible sh' = sh_visible sh" "sh_writer sh' = sh_writer sh"
    "sh_published sh' = sh_published sh" by (subst sh', simp)+
  have "versions_upto (sh_visible sh) X'" "\<forall>cf. kv_data a cf = live (sh_visible sh) (X' cf)"
    using X(2,3) keeps oldest_le_visible [of sh] unfolding versions_upto_def gc_keeps_def by (blast, simp)
  with g rest fields show ?thesis by (auto simp: vm_rep_def quiescent_def)
qed

lemma collect_loop_rep:
  assumes "collect_loop B sh c tot = Some (sh', rep)" "vm_rep brep n sh a" "cursor_ok c"
  shows "vm_rep brep n sh' a"
proof -
  define P where "P B' sh c (tot :: garbage_report) r \<longleftrightarrow>
    (B' = B \<longrightarrow> vm_rep brep n sh a \<longrightarrow> cursor_ok c \<longrightarrow> vm_rep brep n (fst r) a)" for B' sh c tot and r :: "'t shared \<times> garbage_report"
  have "P B sh c tot (sh', rep)"
  proof (rule collect_loop.raw_induct [of P, OF _ assms(1)])
    fix loop B' sh c tot r
    assume IH: "\<And>B sh c tot r. loop B sh c tot = Some r \<Longrightarrow> P B sh c tot r"
      and step: "Option.bind (gc_step B' sh c USIZE_MAX)
          (\<lambda>(sh', cursor', step). let tot' = tot\<lparr>gr_oldest_live_version := gr_oldest_live_version step,
                gr_removed := gr_removed tot + gr_removed step, gr_scanned := gr_scanned tot + gr_scanned step\<rparr>
            in if gr_cycle_complete step then Some (sh', tot'\<lparr>gr_cycle_complete := True\<rparr>) else loop B' sh' cursor' tot') = Some r"
    show "P B' sh c tot r"
      unfolding P_def
    proof (intro impI)
      assume p: "B' = B" "vm_rep brep n sh a" "cursor_ok c"
      from gc_step_rep [OF p(2,3), of USIZE_MAX] obtain sh1 c1 rp where
        g: "gc_step B sh c USIZE_MAX = Some (sh1, c1, rp)" "vm_rep brep n sh1 a" "cursor_ok c1" by blast
      with step p(1) IH show "vm_rep brep n (fst r) a" by (auto simp: Let_def P_def split: if_splits)
    qed
  qed
  with assms(2,3) show ?thesis by (simp add: P_def)
qed

end

section \<open>What the log holds\<close>

definition replay_one :: "wal_entry \<Rightarrow> kv_state \<Rightarrow> kv_state" where
  "replay_one r a = (case snd r of None \<Rightarrow> kv_write (fst r) a | Some at \<Rightarrow> kv_apply (fst r) at a)"

lemma replay_one_pair: "replay_one (b, at) a = (case at of None \<Rightarrow> kv_write b a | Some p \<Rightarrow> kv_apply b p a)"
  by (simp add: replay_one_def split: option.split)

definition wal_weight :: "wal_entry list \<Rightarrow> nat" where
  "wal_weight rs = sum_list (map (\<lambda>r. Suc (length (fst r))) rs)"

lemma wal_weight_simps [simp]:
  "wal_weight [] = 0" "wal_weight (r # rs) = Suc (length (fst r)) + wal_weight rs"
  "wal_weight (rs @ rs') = wal_weight rs + wal_weight rs'"
  by (simp_all add: wal_weight_def)

text \<open>A file whose strict open gives the records \<open>rs\<close>, whatever torn bytes follow them.\<close>

definition file_holds :: "bytes \<Rightarrow> wal_entry list \<Rightarrow> bool" where
  "file_holds file rs \<longleftrightarrow> list_all rec_ok rs \<and> chain None rs \<and>
     (\<exists>tail. file = concat (map frame rs) @ tail \<and> read_record True (last_of None rs) tail = Inl None)"

lemma file_holds_open:
  assumes "file_holds file rs"
  obtains w rp where "wal_open True file = Inr (w, rp)" "rp_batches rp = map fst rs" "rp_positions rp = map snd rs"
    "\<not> wl_poisoned w" "wl_file w = concat (map frame rs)" "wl_applied w = last_of None rs"
proof -
  from assms obtain tail where "file = concat (map frame rs) @ tail" "list_all rec_ok rs" "chain None rs"
    "read_record True (last_of None rs) tail = Inl None" by (auto simp: file_holds_def)
  then have "wal_open True file = Inr (\<lparr>wl_file = concat (map frame rs), wl_applied = last_of None rs, wl_poisoned = False\<rparr>,
      \<lparr>rp_batches = map fst rs, rp_positions = map snd rs, rp_discarded = length tail\<rparr>)"
    using wal_open_frames [of rs True tail] by simp
  from that [OF this] show thesis by simp
qed

lemma file_holds_frames: "list_all rec_ok rs \<Longrightarrow> chain None rs \<Longrightarrow> file_holds (concat (map frame rs)) rs"
  by (auto simp: file_holds_def read_record_Nil)

lemma file_holds_torn:
  assumes "list_all rec_ok (rs @ [r])" "chain None (rs @ [r])"
  shows "file_holds (concat (map frame rs) @ take k (frame r)) (if k < length (frame r) then rs else rs @ [r])"
  using assms read_record_torn [of r k] file_holds_frames [OF assms]
  by (auto simp: file_holds_def chain_append read_record_Nil)

text \<open>The file of an engine holds the batches that make the contents \<open>a\<close>.\<close>

definition durable :: "nat \<Rightarrow> bytes \<Rightarrow> kv_state \<Rightarrow> bool" where
  "durable n file a \<longleftrightarrow> (\<exists>rs. file_holds file rs \<and> a = fold replay_one rs kv_empty \<and> wal_weight rs \<le> n)"

lemma durableI: "file_holds file rs \<Longrightarrow> wal_weight rs \<le> n \<Longrightarrow> durable n file (fold replay_one rs kv_empty)"
  by (auto simp: durable_def)

lemma durable_mono: "durable n file a \<Longrightarrow> n \<le> n' \<Longrightarrow> durable n' file a"
  by (auto simp: durable_def intro: order_trans)

definition we_rep ::
  "('t \<Rightarrow> (versioned_key, slot) omap \<Rightarrow> bool) \<Rightarrow> nat \<Rightarrow> 't wal_engine \<Rightarrow> kv_state \<Rightarrow> bool" where
  "we_rep brep n we a \<longleftrightarrow> vm_rep brep n (we_index we) a \<and> cursor_ok (we_gc we)
     \<and> (\<exists>w rs. ew_backing (we_wal we) = Some w \<and> \<not> wl_poisoned w \<and> wl_file w = concat (map frame rs)
        \<and> wl_applied w = last_of None rs \<and> list_all rec_ok rs \<and> chain None rs
        \<and> a = fold replay_one rs kv_empty \<and> wal_weight rs \<le> n)"

lemma we_rep_durable: "we_rep brep n we a \<Longrightarrow> durable n (we_file we) a"
  using file_holds_frames by (fastforce simp: we_rep_def durable_def we_file_def)

lemma we_rep_mono: "we_rep brep n we a \<Longrightarrow> n \<le> n' \<Longrightarrow> we_rep brep n' we a"
  by (auto simp: we_rep_def intro: vm_rep_mono order_trans)

lemma replayed_position: "kv_applied (fold replay_one rs a) = last_of (kv_applied a) rs"
  by (induction rs arbitrary: a)
    (auto simp: last_of_def next_previous_def replay_one_def kv_write_def split: option.splits)

lemma advances_next: "position_next (kv_applied a) at = Inr () \<longleftrightarrow> (case at of None \<Rightarrow> True | Some p \<Rightarrow> kv_advances p a)"
  by (auto simp: position_next_def lift_res_def check_position_def kv_advances_def split: option.splits)

section \<open>Writing\<close>

context versioned_engine
begin

lemma after_write_rep:
  assumes "we_rep brep n we a"
  shows "we_rep brep n (after_write B we) a" "we_file (after_write B we) = we_file we"
proof -
  have "vm_rep brep n (we_index we) a" "cursor_ok (we_gc we)" using assms by (auto simp: we_rep_def)
  from gc_step_rep [OF this, of GC_SCAN_BUDGET] obtain sh c rep where
    "gc_step B (we_index we) (we_gc we) GC_SCAN_BUDGET = Some (sh, c, rep)" "vm_rep brep n sh a" "cursor_ok c" by blast
  then show "we_rep brep n (after_write B we) a" "we_file (after_write B we) = we_file we"
    using assms by (auto simp: after_write_def Let_def we_rep_def we_file_def)
qed

text \<open>
  One positioned write. Acknowledged, it is in the index and in the file. Refused or failed, the file
  still holds the earlier batches, and perhaps the whole record of this one.
\<close>

lemma write_applied_rep:
  assumes rep: "we_rep brep n we a" and n: "n + Suc (length b) < 2 ^ 64" and adv: "kv_advances at a"
    and w: "we_write_applied io B we b at = (we', r)"
  shows "r = Inr () \<Longrightarrow> we_rep brep (n + Suc (length b)) we' (kv_apply b at a)"
    and "durable (n + Suc (length b)) (we_file we') (kv_apply b at a) \<or> (r \<noteq> Inr () \<and> durable n (we_file we') a)"
proof -
  from rep obtain w rs where w0: "ew_backing (we_wal we) = Some w" "\<not> wl_poisoned w" "wl_file w = concat (map frame rs)"
      "wl_applied w = last_of None rs" "list_all rec_ok rs" "chain None rs" "wal_weight rs \<le> n"
    and a: "a = fold replay_one rs kv_empty" and idx: "vm_rep brep n (we_index we) a" "cursor_ok (we_gc we)"
    by (auto simp: we_rep_def)
  let ?r = "(b, Some at)"
  have pos: "wl_applied w = kv_applied a" using w0(4) replayed_position [of rs kv_empty] by (simp add: a kv_empty_def)
  have "check_position (wl_applied w) at = Inr ()" using adv advances_next [of a "Some at"] pos
    by (auto simp: position_next_def lift_res_def split: sum.splits)
  then have ap: "append_applied w b at x = append_record w b (Some at) x" for x by (simp add: append_applied_def)
  have free: "\<not> (case vm_volatile_applied_position (we_index we) of None \<Rightarrow> False | Some p \<Rightarrow> ap_index at \<le> ap_index p)"
    using idx(1) adv by (auto simp: vm_rep_def vm_volatile_applied_position_def kv_advances_def split: option.splits)
  have nxt: "kv_apply b at a = fold replay_one (rs @ [?r]) kv_empty" by (simp add: a replay_one_def)
  have ch: "chain None (rs @ [?r])"
    using w0(4,6) pos adv advances_next [of a "Some at"] by (simp add: chain_append)
  have heavier: "wal_weight (rs @ [?r]) \<le> n + Suc (length b)" using w0(7) by simp
  have "(r = Inr () \<longrightarrow> we_rep brep (n + Suc (length b)) we' (kv_apply b at a)) \<and>
    (durable (n + Suc (length b)) (we_file we') (kv_apply b at a) \<or> (r \<noteq> Inr () \<and> durable n (we_file we') a))"
  proof (cases "refuses w b")
    case True
    then obtain e where "append_record w b (Some at) (io (wl_file w)) = (w, Inl e)" using append_record_cases(1) by blast
    then have "r = Inl e" "we_file we' = we_file we"
      using w free w0(1) by (auto simp: we_write_applied_def ew_append_applied_def ap we_file_def)
    with we_rep_durable [OF rep] show ?thesis by simp
  next
    case False
    then have ok: "list_all rec_ok (rs @ [?r])" using w0(5) by (simp add: rec_ok_def refuses_def)
    show ?thesis
    proof (cases "io (wl_file w)")
      case (IoFailed k)
      with append_record_cases(3) [OF False] have "r \<noteq> Inr ()" "we_file we' = concat (map frame rs) @ take k (frame ?r)"
        using w free w0(1,3) by (auto simp: we_write_applied_def ew_append_applied_def ap we_file_def)
      moreover note durableI [OF file_holds_torn [OF ok ch, of k]]
      ultimately show ?thesis
        using heavier w0(7) nxt a by (cases "k < length (frame ?r)") (simp_all del: fold_append)
    next
      case IoOk
      let ?w = "w\<lparr>wl_file := wl_file w @ frame ?r, wl_applied := Some at\<rparr>"
      have wr: "we_write_applied io B we b at = (case vm_write_applied B (we_index we) b at of
          (sh, Inl e) \<Rightarrow> (we\<lparr>we_wal := (we_wal we)\<lparr>ew_backing := Some ?w\<rparr>, we_index := sh\<rparr>, Inl e)
        | (sh, Inr _) \<Rightarrow> (after_write B (we\<lparr>we_wal := (we_wal we)\<lparr>ew_backing := Some ?w\<rparr>, we_index := sh\<rparr>), Inr ()))"
        using free w0(1) IoOk append_record_cases(2) [OF False]
        by (simp add: we_write_applied_def ew_append_applied_def ap)
      obtain sh x where v: "vm_write_applied B (we_index we) b at = (sh, x)" by fastforce
      define we1 where "we1 = we\<lparr>we_wal := (we_wal we)\<lparr>ew_backing := Some ?w\<rparr>, we_index := sh\<rparr>"
      have d: "durable (n + Suc (length b)) (we_file we1) (kv_apply b at a)"
        using durableI [OF file_holds_frames [OF ok ch] heavier] w0(3) nxt by (simp add: we1_def we_file_def)
      show ?thesis
      proof (cases x)
        case (Inl e)
        with wr v w have "we' = we1" "r = Inl e" by (simp_all add: we1_def)
        with d show ?thesis by simp
      next
        case (Inr u)
        with wr v w have out: "we' = after_write B we1" "r = Inr ()" by (simp_all add: we1_def)
        have "vm_rep brep (n + Suc (length b)) sh (kv_apply b at a)"
          using vs.st_write [OF idx(1) n adv, of sh] v Inr by (simp add: vm_store_def)
        moreover have "last_of None (rs @ [?r]) = Some at" by (simp add: last_of_def next_previous_def)
        ultimately have "we_rep brep (n + Suc (length b)) we1 (kv_apply b at a)"
          using w0 ok ch heavier idx(2) nxt unfolding we_rep_def
          by (auto simp: we1_def intro!: exI [of _ "rs @ [?r]"])
        with after_write_rep [OF this] d out show ?thesis by simp
      qed
    qed
  qed
  then show "r = Inr () \<Longrightarrow> we_rep brep (n + Suc (length b)) we' (kv_apply b at a)"
    "durable (n + Suc (length b)) (we_file we') (kv_apply b at a) \<or> (r \<noteq> Inr () \<and> durable n (we_file we') a)" by blast+
qed

lemma we_get_rep: "we_rep brep n we a \<Longrightarrow> we_get B shard we cf key = (we, Inr (kv_get a cf key))"
  by (auto simp: we_rep_def we_get_def reads_rep)

lemma we_position_rep:
  "we_rep brep n we a \<Longrightarrow> we_applied_position we = Inr (case kv_applied a of None \<Rightarrow> AppliedNothing | Some p \<Rightarrow> AppliedThrough p)"
  by (auto simp: we_rep_def vm_rep_def we_applied_position_def ew_ensure_available_def ensure_healthy_def
      vm_volatile_applied_position_def)

end

section \<open>Replay\<close>

text \<open>Entries in the trees, for the bound of the final collection.\<close>

lemma total_entries_stamp: "total_entries (stamp v m X) \<le> Suc (total_entries X)"
proof -
  have "length (om_insert k x xs) \<le> Suc (length xs)" for k :: versioned_key and x :: slot and xs
    by (induction xs) auto
  then show ?thesis by (cases "mutation_cf m") (auto simp: total_entries_def stamp_def cf_all_def)
qed

lemma total_entries_stamps: "total_entries (fold (stamp v) b X) \<le> total_entries X + length b"
proof (induction b arbitrary: X)
  case (Cons m b)
  from Cons.IH [of "stamp v m X"] total_entries_stamp [of v m X] show ?case by simp
qed simp

definition entries_le :: "('t \<Rightarrow> (versioned_key, slot) omap \<Rightarrow> bool) \<Rightarrow> nat \<Rightarrow> 't shared \<Rightarrow> bool" where
  "entries_le brep n sh \<longleftrightarrow> (\<exists>X. holds brep sh X \<and> total_entries X \<le> n)"

context versioned_engine
begin

lemma vm_apply_entries:
  assumes "entries_le brep n sh" "vm_apply B sh b at = (sh', Inr ())"
  shows "entries_le brep (n + length b) sh'"
proof -
  from assms(1) obtain X where X: "holds brep sh X" "total_entries X \<le> n" by (auto simp: entries_le_def)
  from assms(2) obtain sh1 c where ap: "apply_mutations B (sh_writer sh + 1) b False sh = (sh1, Inr c)"
    and sh': "sh' = publish (sh_writer sh + 1) at c sh1"
    by (auto simp: vm_apply_def Let_def split: if_splits prod.splits sum.splits)
  from apply_mutations_stamps [OF X(1) ap] have "holds brep sh1 (fold (stamp (sh_writer sh + 1)) b X)" by auto
  then have "holds brep sh' (fold (stamp (sh_writer sh + 1)) b X)" by (simp add: sh' holds_def publish_def Let_def)
  with total_entries_stamps [of "sh_writer sh + 1" b X] X(2) show ?thesis unfolding entries_le_def by fastforce
qed

lemma vm_apply_outcome:
  assumes rep: "vm_rep brep n sh a" and n: "n + Suc (length b) < 2 ^ 64"
    and adv: "case at of None \<Rightarrow> True | Some p \<Rightarrow> kv_advances p a" and ap: "vm_apply B sh b at = (sh', r)"
  shows "r = Inr () \<and> vm_rep brep (n + Suc (length b)) sh' (replay_one (b, at) a) \<or> r = Inl OUT_OF_MEMORY"
proof (cases r)
  case (Inr u)
  have "\<forall>cf. length (fold kv_mutate b (kv_data a) cf) \<le> n + Suc (length b)"
    using rep kv_mutates_length [of b "kv_data a"] by (auto simp: vm_rep_def intro: le_SucI order_trans [OF _ add_le_mono])
  with apply_advances [of n sh a "n + Suc (length b)" b at sh'] rep ap n Inr show ?thesis
    by (simp add: replay_one_pair)
next
  case (Inl e)
  from rep obtain X where X: "holds brep sh X" by (auto simp: vm_rep_def)
  have "e \<noteq> POSITION_REFUSED" using apply_not_refused [OF rep adv] ap Inl by auto
  with ap Inl have "e = OUT_OF_MEMORY"
    by (auto simp: vm_apply_def Let_def dest!: apply_mutations_stamps [OF X] split: if_splits prod.splits sum.splits)
  with Inl show ?thesis by simp
qed

lemma replay_index_rep:
  assumes "vm_rep brep n sh a" "entries_le brep n sh" "n + wal_weight rs < 2 ^ 64" "chain (kv_applied a) rs"
  shows "(\<exists>sh' report'. replay_index B None rs (sh, report) = Inr (sh', report')
      \<and> vm_rep brep (n + wal_weight rs) sh' (fold replay_one rs a) \<and> entries_le brep (n + wal_weight rs) sh')
    \<or> replay_index B None rs (sh, report) = Inl OUT_OF_MEMORY"
  using assms
proof (induction rs arbitrary: n sh a report)
  case (Cons r rs)
  obtain b at where r: "r = (b, at)" by (cases r)
  obtain sh1 x where ap: "vm_apply B sh b at = (sh1, x)" by fastforce
  have adv: "case at of None \<Rightarrow> True | Some p \<Rightarrow> kv_advances p a" using Cons.prems(4) advances_next by (simp add: r)
  have n: "n + Suc (length b) < 2 ^ 64" using Cons.prems(3) by (simp add: r)
  have step: "replay_index B None (r # rs) (sh, report) = (case x of Inl e \<Rightarrow> Inl e
      | Inr _ \<Rightarrow> replay_index B None rs (sh1, report\<lparr>er_replayed_records := er_replayed_records report + 1\<rparr>))"
    using ap by (cases at; cases x) (simp_all add: r vm_write_def vm_write_applied_def)
  from vm_apply_outcome [OF Cons.prems(1) n adv ap] show ?case
  proof (elim disjE conjE)
    assume x: "x = Inr ()" and rep: "vm_rep brep (n + Suc (length b)) sh1 (replay_one (b, at) a)"
    have "entries_le brep (n + length b) sh1" using vm_apply_entries [OF Cons.prems(2)] ap x by blast
    then have "entries_le brep (n + Suc (length b)) sh1" unfolding entries_le_def by (meson add_le_mono le_SucI order_refl order_trans)
    moreover have "kv_applied (replay_one (b, at) a) = next_previous (kv_applied a) (snd r)"
      by (simp add: r replay_one_def next_previous_def kv_write_def split: option.splits)
    ultimately show ?thesis
      using Cons.IH [OF rep _ _, of "report\<lparr>er_replayed_records := er_replayed_records report + 1\<rparr>"] Cons.prems(3,4) step x
      by (simp add: r add.assoc)
  qed (use step in simp)
qed simp

text \<open>
  Opening a file that holds the batches of \<open>a\<close>: the strict reader accepts it, the collection ends,
  and unless a tree insertion failed the engine stands for \<open>a\<close> with an untorn log.
\<close>

lemma we_open_rep:
  assumes "durable n file a" "Suc n < 2 ^ 64"
  shows "(\<exists>we report. we_open B None file = Some (Inr (we, report)) \<and> we_rep brep n we a)
    \<or> we_open B None file = Some (Inl OUT_OF_MEMORY)"
proof -
  from assms(1) obtain rs where rs: "file_holds file rs" "a = fold replay_one rs kv_empty" "wal_weight rs \<le> n"
    by (auto simp: durable_def)
  from rs(1) obtain w rp where w: "wal_open True file = Inr (w, rp)" "rp_batches rp = map fst rs" "rp_positions rp = map snd rs"
    "\<not> wl_poisoned w" "wl_file w = concat (map frame rs)" "wl_applied w = last_of None rs" by (rule file_holds_open)
  have ok: "list_all rec_ok rs" "chain None rs" using rs(1) by (auto simp: file_holds_def)
  let ?report = "\<lparr>er_replayed_records = 0, er_covered_records = 0, er_discarded_tail_bytes = rp_discarded rp\<rparr>"
  have "entries_le brep 0 (vm_new B)"
    unfolding entries_le_def by (intro exI [of _ "\<lambda>_. []"]) (simp add: holds_def vm_new_def bb_new total_entries_def)
  then consider sh report where "replay_index B None rs (vm_new B, ?report) = Inr (sh, report)"
      "vm_rep brep (wal_weight rs) sh a" "entries_le brep (wal_weight rs) sh"
    | "replay_index B None rs (vm_new B, ?report) = Inl OUT_OF_MEMORY"
    using replay_index_rep [OF vm_new_rep [of 0], of rs ?report] assms(2) rs(2,3) ok(2) by (auto simp: kv_empty_def)
  then show ?thesis
  proof cases
    case (1 sh report)
    then obtain X where X: "holds brep sh X" "total_entries X < USIZE_MAX"
      using assms(2) rs(3) by (auto simp: entries_le_def USIZE_MAX_def)
    from collect_garbage_correct [OF this] obtain sh' g where g: "collect_garbage B sh = Some (sh', g)" by blast
    then have "vm_rep brep n sh' a"
      using collect_loop_rep [OF _ vm_rep_mono [OF 1(2) rs(3)] default_cursor(1)] by (simp add: collect_garbage_def)
    with g 1(1) w ok rs default_cursor(1) show ?thesis
      by (auto simp: we_open_def we_rep_def zip_map_fst_snd)
  qed (use w in \<open>simp add: we_open_def zip_map_fst_snd\<close>)
qed

lemma durable_empty: "durable 0 [] kv_empty"
  using durableI [of "[]" "[]" 0] by (simp add: file_holds_def read_record_Nil)

end

section \<open>A group on the durable engine\<close>

sublocale versioned_engine \<subseteq> ws: apply_store_laws "we_store io B shard" "we_rep brep" for io
proof unfold_locales
  fix n s a cf key assume "we_rep brep n s a"
  then show "as_get (we_store io B shard) s cf key = Inr (kv_get a cf key)" by (simp add: we_store_def we_get_rep)
next
  fix n s a b at s'
  assume "we_rep brep n s a" "n + Suc (length b) < 2 ^ 64" "kv_advances at a"
    "as_write_applied (we_store io B shard) s b at = (s', Inr ())"
  then show "we_rep brep (n + Suc (length b)) s' (kv_apply b at a)"
    using write_applied_rep(1) [of n s a b at io s' "Inr ()"] by (simp add: we_store_def)
qed (rule we_rep_mono)

lemma log_weight_split: "k < length es \<Longrightarrow> log_weight es = log_weight (take k es) + entry_weight (es ! k) + log_weight (drop (Suc k) es)"
  by (subst id_take_nth_drop [of k es]) (simp_all add: log_weight_def)


context apply_store_laws
begin

lemma open_sim:
  assumes inv: "group_inv ident r w asm" and rep: "rep n s (sm_engine asm)"
    and pos: "as_applied_position S s = as_applied_position kv_store (sm_engine asm)"
  shows "\<exists>sm. open_group S ident s = Inr sm \<and> sm_sim S rep n sm asm"
proof -
  obtain root region creation where ident: "ident = (root, region, creation)" by (cases ident) auto
  have i: "in_step asm" "identity_ok ident" "sm_data_identity asm = Some ident"
    "sm_adjudicator asm = Some (range_fence kv_store ident)" "sm_ttl_enabled asm \<longleftrightarrow> w \<noteq> None"
    "read_as kv_store (sm_engine asm) Default CLOCK_KEY wm_decode = Inr w"
    using inv by (auto simp: group_inv_def read_clock)
  let ?sm = "\<lparr>sm_data_identity = Some ident, sm_engine = s, sm_applied = sm_applied asm,
    sm_ttl_enabled = sm_ttl_enabled asm, sm_adjudicator = Some (range_fence S ident)\<rparr>"
  have "with_engine S s = Inr (?sm\<lparr>sm_data_identity := None, sm_adjudicator := None\<rparr>)"
    using i(1,5,6) pos read_as_sim [OF rep, of Default CLOCK_KEY wm_decode]
    by (cases "kv_applied (sm_engine asm)") (simp_all add: with_engine_def in_step_def)
  then have "open_group S ident s = Inr ?sm"
    using i(2) group_current [OF inv] rf_current_sim [OF rep, of ident] unfolding ident identity_ok_def
    by (simp add: open_group_def set_data_group_def not_less Let_def)
  moreover have "sm_sim S rep n ?sm asm" using rep i(3,4) by (simp add: sm_sim_def same_adjudicator_def del: split_paired_Ex) blast
  ultimately show ?thesis by blast
qed

end

context versioned_engine
begin

lemma failed_entry:
  assumes sim: "sm_sim (we_store io B shard) (we_rep brep) n m a" and sync: "in_step a" and n: "n + entry_weight e < 2 ^ 64"
    and ap: "sm_apply sha256 J (we_store io B shard) e m = (m', Inl err)"
  shows "durable (n + entry_weight e) (we_file (sm_engine m')) (sm_engine a)
    \<or> (\<exists>a' x. sm_apply sha256 J kv_store e a = (a', Inr x) \<and> durable (n + entry_weight e) (we_file (sm_engine m')) (sm_engine a'))"
proof -
  have rep: "we_rep brep n (sm_engine m) (sm_engine a)" and applied: "sm_applied m = sm_applied a"
    using sim by (simp_all add: sm_sim_def)
  have here: "durable (n + entry_weight e) (we_file (sm_engine m)) (sm_engine a)"
    using durable_mono [OF we_rep_durable [OF rep]] by simp
  show ?thesis
  proof (cases "cmd_decode (ce_data e)")
    case (Inl x)
    with ap here show ?thesis by (simp add: sm_apply_def)
  next
    case (Inr cmd)
    let ?at = "\<lparr>ap_term = ce_term e, ap_index = ce_index e\<rparr>"
    have late: "\<not> ce_index e \<le> sm_applied a" using ap Inr applied
      by (auto simp: sm_apply_def apply_at_def apply_unobserved_def)
    then have adv: "kv_advances ?at (sm_engine a)" using in_step_advances [OF sync] by simp
    let ?plan = "plan_command sha256 J kv_store ?at cmd a"
    have com: "sm_commit (we_store io B shard) ?at ?plan m = (m', Inl err)"
      "sm_apply sha256 J kv_store e a = sm_commit kv_store ?at ?plan a"
      using ap Inr late applied ws.plan_sim [OF sim] by (simp_all add: sm_apply_def apply_at_def apply_unobserved_def)
    show ?thesis
    proof (cases ?plan)
      case (Inl x)
      with com here show ?thesis by (simp add: sm_commit_def)
    next
      case pl: (Inr p)
      with com(1) have w: "we_write_applied io B (sm_engine m) (pl_batch p) ?at = (sm_engine m', Inl err)"
        by (auto simp: sm_commit_def we_store_def split: prod.splits sum.splits)
      have len: "Suc (length (pl_batch p)) \<le> entry_weight e" using plan_length [OF pl] Inr by (simp add: entry_weight_def)
      have "\<exists>a' x. sm_apply sha256 J kv_store e a = (a', Inr x) \<and> sm_engine a' = kv_apply (pl_batch p) ?at (sm_engine a)"
        using com(2) pl adv by (simp add: sm_commit_def)
      moreover have "durable (n + entry_weight e) (we_file (sm_engine m')) (kv_apply (pl_batch p) ?at (sm_engine a))
          \<or> durable (n + entry_weight e) (we_file (sm_engine m')) (sm_engine a)"
        using write_applied_rep(2) [OF rep _ adv w] n len
          durable_mono [of _ "we_file (sm_engine m')" _ "n + entry_weight e"] by fastforce
      ultimately show ?thesis by auto
    qed
  qed
qed


text \<open>
  Whatever ended a run, the file holds what the abstract machine holds after some prefix of the log: all
  of it after a run to the end; otherwise everything before the entry that failed, and perhaps that entry.
\<close>

lemma stopped_run:
  assumes sim: "sm_sim (we_store io B shard) (we_rep brep) n m a" and sync: "in_step a"
    and n: "n + log_weight es < 2 ^ 64" and run: "drive_apply sha256 J (we_store io B shard) es m = (m', res)"
  shows "\<exists>k\<le>length es. \<exists>a' rs. drive_apply sha256 J kv_store (take k es) a = (a', Inr rs)
    \<and> durable (n + log_weight es) (we_file (sm_engine m')) (sm_engine a')
    \<and> (\<forall>j\<le>length es. (\<exists>mj rj. drive_apply sha256 J (we_store io B shard) (take j es) m = (mj, Inr rj)) \<longrightarrow> j \<le> k)
    \<and> (\<exists>mj rj. drive_apply sha256 J (we_store io B shard) (take (k - 1) es) m = (mj, Inr rj))"
proof (cases res)
  case (Inr rs)
  obtain a' r' where a': "drive_apply sha256 J kv_store es a = (a', r')" by fastforce
  from ws.drive_sim [OF sim sync n run a'] Inr have "r' = Inr rs" "we_rep brep (n + log_weight es) (sm_engine m') (sm_engine a')"
    by (simp_all add: sm_sim_def)
  moreover have all: "drive_apply sha256 J (we_store io B shard) (take (length es) es) m = (m', Inr rs)" using run Inr by simp
  ultimately show ?thesis
    using a' drive_prefix [OF all, of "length es - 1"] we_rep_durable by (intro exI [of _ "length es"]) auto
next
  case (Inl err)
  from drive_cut [OF run [unfolded Inl]] obtain k mk rs where k: "k < length es"
    "drive_apply sha256 J (we_store io B shard) (take k es) m = (mk, Inr rs)"
    "ce_kind (es ! k) = CommandEntry" "sm_apply sha256 J (we_store io B shard) (es ! k) mk = (m', Inl err)" by blast
  have le: "log_weight (take k es) + entry_weight (es ! k) \<le> log_weight es"
    using log_weight_split [OF k(1)] by simp
  obtain ak r' where ak: "drive_apply sha256 J kv_store (take k es) a = (ak, r')" by fastforce
  from ws.drive_sim [OF sim sync _ k(2) ak] n le have s: "r' = Inr rs" "in_step ak"
    "sm_sim (we_store io B shard) (we_rep brep) (n + log_weight (take k es)) mk ak" by auto
  note d = durable_mono [of "n + log_weight (take k es) + entry_weight (es ! k)" "we_file (sm_engine m')" _ "n + log_weight es"]
  have acked: "j \<le> k" if "drive_apply sha256 J (we_store io B shard) (take j es) m = (mj, Inr rj)" for j mj rj
  proof (rule ccontr)
    assume "\<not> j \<le> k"
    with drive_prefix [OF that, of "Suc k"] k(1) obtain x y where
      "drive_apply sha256 J (we_store io B shard) (take k es @ [es ! k]) m = (x, Inr y)"
      by (auto simp: take_Suc_conv_app_nth)
    with k show False by (simp add: drive_apply_append)
  qed
  have prev: "\<exists>mj rj. drive_apply sha256 J (we_store io B shard) (take (k - 1) es) m = (mj, Inr rj)"
    using drive_prefix [OF k(2), of "k - 1"] by simp
  have "n + log_weight (take k es) + entry_weight (es ! k) < 2 ^ 64" using n le by simp
  from failed_entry [OF s(3,2) this k(4)] show ?thesis
  proof (elim disjE exE conjE)
    assume "durable (n + log_weight (take k es) + entry_weight (es ! k)) (we_file (sm_engine m')) (sm_engine ak)"
    with d le have "durable (n + log_weight es) (we_file (sm_engine m')) (sm_engine ak)" by simp
    with ak s(1) acked prev k(1) show ?thesis by (intro exI [of _ k] conjI exI [of _ ak] exI [of _ rs]) auto
  next
    fix a' x assume "sm_apply sha256 J kv_store (es ! k) ak = (a', Inr x)"
      "durable (n + log_weight (take k es) + entry_weight (es ! k)) (we_file (sm_engine m')) (sm_engine a')"
    with d le have "durable (n + log_weight es) (we_file (sm_engine m')) (sm_engine a')" by simp
    moreover have "drive_apply sha256 J kv_store (take (Suc k) es) a = (a', Inr (rs @ [x]))"
      using \<open>sm_apply sha256 J kv_store (es ! k) ak = (a', Inr x)\<close> ak s(1) k
      by (simp add: take_Suc_conv_app_nth drive_apply_append)
    moreover have "\<forall>j\<le>length es. (\<exists>mj rj. drive_apply sha256 J (we_store io B shard) (take j es) m = (mj, Inr rj)) \<longrightarrow> j \<le> Suc k"
      using acked le_SucI by blast
    moreover have "\<exists>mj rj. drive_apply sha256 J (we_store io B shard) (take (Suc k - 1) es) m = (mj, Inr rj)" using k(2) by auto
    ultimately show ?thesis using k(1) Suc_leI by blast
  qed
qed

end

text \<open>Two machines show the same: applied index, TTL mode, and the value under every key.\<close>

definition agrees :: "'s apply_store \<Rightarrow> 's state_machine \<Rightarrow> 't apply_store \<Rightarrow> 't state_machine \<Rightarrow> bool" where
  "agrees S m T u \<longleftrightarrow> sm_applied m = sm_applied u \<and> sm_ttl_enabled m = sm_ttl_enabled u
     \<and> (\<forall>cf key. sm_get S m cf key = sm_get T u cf key)"

context versioned_engine
begin

lemma we_mem_agree:
  assumes "rpds_laws R trep" "sm_sim (we_store io B shard) (we_rep brep) n m a" "sm_sim (mem_store R) (mem_rep trep) n' u a"
  shows "agrees (we_store io B shard) m (mem_store R) u"
  using assms(2,3) ws.sim_get [OF assms(2)] rpds_laws.mem_sim_get [OF assms(1,3)] by (simp add: agrees_def sm_sim_def)

lemma we_opened:
  assumes "group_inv ident r w a" "we_rep brep n we (sm_engine a)"
  shows "\<exists>m. open_group (we_store io B shard) ident we = Inr m \<and> sm_sim (we_store io B shard) (we_rep brep) n m a"
  by (rule ws.open_sim [OF assms]) (simp add: we_store_def we_position_rep [OF assms(2)])

lemma we_fresh:
  assumes "identity_ok ident" "we_open B None [] = Some (Inr (we, rp))" "open_group (we_store io B shard) ident we = Inr m"
  shows "sm_sim (we_store io B shard) (we_rep brep) 0 m (fresh_group kv_store ident kv_empty)"
proof -
  have "we_rep brep 0 we kv_empty" using we_open_rep [OF durable_empty] assms(2) by auto
  then have "we_rep brep 0 we (sm_engine (fresh_group kv_store ident kv_empty))" by (simp add: fresh_group_def)
  from we_opened [OF fresh_inv [OF assms(1)] this, of io] assms(3) show ?thesis by auto
qed

text \<open>A new file always opens, and a group opens on it.\<close>

lemma we_open_new:
  assumes "identity_ok ident"
  shows "\<exists>we rp m. we_open B None [] = Some (Inr (we, rp)) \<and> open_group (we_store io B shard) ident we = Inr m"
proof -
  have "holds brep (vm_new B) (\<lambda>_. [])" "total_entries (\<lambda>_. []) < USIZE_MAX"
    by (simp_all add: holds_def vm_new_def bb_new total_entries_def USIZE_MAX_def)
  from collect_garbage_correct [OF this] obtain sh g where "collect_garbage B (vm_new B) = Some (sh, g)" by blast
  moreover have "wal_open True [] = Inr (\<lparr>wl_file = [], wl_applied = None, wl_poisoned = False\<rparr>,
      \<lparr>rp_batches = [], rp_positions = [], rp_discarded = 0\<rparr>)"
    using wal_open_frames [of "[]" True "[]"] by (simp add: read_record_Nil last_of_def)
  ultimately obtain we rp where we: "we_open B None [] = Some (Inr (we, rp))" by (simp add: we_open_def)
  then have "we_rep brep 0 we (sm_engine (fresh_group kv_store ident kv_empty))"
    using we_open_rep [OF durable_empty] by (auto simp: fresh_group_def)
  from we_opened [OF fresh_inv [OF assms] this, of io] we show ?thesis by blast
qed

text \<open>Delivering the log again to a group opened on the contents of its first \<open>k\<close> entries.\<close>

lemma redelivered_run:
  assumes mem: "rpds_laws R trep" and ident: "identity_ok ident" and log: "group_log (es @ es')"
    and n: "n + log_weight (es @ es') < 2 ^ 64" and k: "k \<le> length es"
    and abs: "drive_apply sha256 J kv_store (take k es) (fresh_group kv_store ident kv_empty) = (a, Inr rs)"
    and sim: "sm_sim (we_store io B shard) (we_rep brep) n m a" "in_step a"
    and run: "drive_apply sha256 J (we_store io B shard) (es @ es') m = (m3, Inr rs3)"
  shows "\<exists>u' rs'. drive_apply sha256 J (mem_store R) (es @ es') (fresh_group (mem_store R) ident (mem_new R)) = (u', Inr (rs @ rs'))
    \<and> rs3 = map (\<lambda>e. write_ok (ce_index e)) [e\<leftarrow>take k es. ce_kind e = CommandEntry] @ rs'
    \<and> agrees (we_store io B shard) m3 (mem_store R) u'"
proof -
  have split: "es @ es' = take k es @ (drop k es @ es')" by simp
  obtain a3 r3 where rest: "drive_apply sha256 J kv_store (drop k es @ es') a = (a3, r3)" by fastforce
  note again = redelivered [OF ident log [unfolded split] abs rest, folded split]
  from ws.drive_sim [OF sim n run again(1)] obtain rs' where r3: "r3 = Inr rs'"
    and rs3: "rs3 = map (\<lambda>e. write_ok (ce_index e)) [e\<leftarrow>take k es. ce_kind e = CommandEntry] @ rs'"
    and s3: "sm_sim (we_store io B shard) (we_rep brep) (n + log_weight (es @ es')) m3 a3" by (cases r3) auto
  obtain u' ru where u': "drive_apply sha256 J (mem_store R) (es @ es') (fresh_group (mem_store R) ident (mem_new R)) = (u', ru)"
    by fastforce
  have "log_weight (es @ es') < 2 ^ 64" using n by simp
  from rpds_laws.mem_fresh_drive [OF mem this u' again(2)] rpds_laws.mem_writes_succeed [OF mem] r3
  have "ru = Inr (rs @ rs')" "sm_sim (mem_store R) (mem_rep trep) (log_weight (es @ es')) u' a3" by auto
  with u' rs3 we_mem_agree [OF mem s3] show ?thesis by blast
qed

end



section \<open>A batch the index could not hold\<close>

lemma append_applied_error: "append_applied w b at io = (w', Inl e) \<Longrightarrow> e \<noteq> OUT_OF_MEMORY"
  by (auto simp: append_applied_def check_position_def append_record_def ensure_healthy_def OUT_OF_MEMORY_def Let_def
      split: if_splits sum.splits io_outcome.splits)

context versioned_engine
begin

lemma append_durable:
  assumes rep: "we_rep brep n we a" and adv: "kv_advances at a"
    and ap: "ew_append_applied io (we_wal we) b at = (ew, Inr ())"
  shows "durable (n + Suc (length b)) (we_file (we\<lparr>we_wal := ew, we_index := sh\<rparr>)) (kv_apply b at a)"
    and "ew_ensure_available ew = Inr ()"
proof -
  from rep obtain w rs where w: "ew_backing (we_wal we) = Some w" "\<not> wl_poisoned w" "wl_file w = concat (map frame rs)"
      "wl_applied w = last_of None rs" "list_all rec_ok rs" "chain None rs" "wal_weight rs \<le> n"
    and a: "a = fold replay_one rs kv_empty"
    by (auto simp: we_rep_def)
  from ap w(1) have rec: "append_record w b (Some at) (io (wl_file w)) = (the (ew_backing ew), Inr ())"
    and ew: "ew = (we_wal we)\<lparr>ew_backing := ew_backing ew\<rparr>" "ew_backing ew \<noteq> None"
    by (auto simp: ew_append_applied_def append_applied_def split: prod.splits sum.splits)
  have "\<not> refuses w b" using rec append_record_cases(1) [of w b "Some at" "io (wl_file w)"] by fastforce
  note ok = this append_record_cases(2,3) [OF this]
  have io: "io (wl_file w) = IoOk" using rec ok(3) by (cases "io (wl_file w)") auto
  with rec ok(2) ew(2) have b: "ew_backing ew = Some (w\<lparr>wl_file := wl_file w @ frame (b, Some at), wl_applied := Some at\<rparr>)" by auto
  have pos: "wl_applied w = kv_applied a" using w(4) replayed_position [of rs kv_empty] by (simp add: a kv_empty_def)
  have "chain None (rs @ [(b, Some at)])" "list_all rec_ok (rs @ [(b, Some at)])"
    using w(4-6) pos adv advances_next [of a "Some at"] ok(1) by (simp_all add: chain_append rec_ok_def refuses_def)
  from durableI [OF file_holds_frames [OF this(2,1)], of "n + Suc (length b)"]
  show "durable (n + Suc (length b)) (we_file (we\<lparr>we_wal := ew, we_index := sh\<rparr>)) (kv_apply b at a)"
    using w(3,7) b by (simp add: we_file_def a replay_one_def)
  show "ew_ensure_available ew = Inr ()" using b w(2) by (simp add: ew_ensure_available_def ensure_healthy_def)
qed

lemma failed_index_write:
  assumes rep: "we_rep brep n we a" and n: "n + Suc (length b) < 2 ^ 64" and adv: "kv_advances at a"
    and w: "we_write_applied io B we b at = (we', Inl OUT_OF_MEMORY)"
  shows "snd (we_get B shard we' cf key) = Inr (kv_get a cf key)"
    and "we_applied_position we' = Inr (case kv_applied a of None \<Rightarrow> AppliedNothing | Some p \<Rightarrow> AppliedThrough p)"
    and "durable (n + Suc (length b)) (we_file we') (kv_apply b at a)"
proof -
  from rep have idx: "vm_rep brep n (we_index we) a" by (simp add: we_rep_def)
  from w obtain ew sh where ap: "ew_append_applied io (we_wal we) b at = (ew, Inr ())"
    and v: "vm_apply B (we_index we) b (Some at) = (sh, Inl OUT_OF_MEMORY)" and we': "we' = we\<lparr>we_wal := ew, we_index := sh\<rparr>"
    by (auto simp: we_write_applied_def ew_append_applied_def WAL_POSITION_REFUSED_def LAYOUT_TRANSITION_def OUT_OF_MEMORY_def
        vm_write_applied_def split: if_splits option.splits prod.splits sum.splits
        dest: append_applied_error [unfolded OUT_OF_MEMORY_def])
  from v have loop: "apply_mutations B (sh_writer (we_index we) + 1) b False (we_index we) = (sh, Inl OUT_OF_MEMORY)"
    by (auto simp: vm_apply_def Let_def OUT_OF_MEMORY_def POSITION_REFUSED_def split: if_splits prod.splits sum.splits)
  show "snd (we_get B shard we' cf key) = Inr (kv_get a cf key)"
    using cut_short_reads [OF idx _ loop, of cf key] n
    by (cases "vm_get B shard sh cf key") (simp add: we' we_get_def)
  from rep idx obtain X where X: "holds brep (we_index we) X" "pb_applied (sh_published (we_index we)) = kv_applied a"
    by (auto simp: vm_rep_def)
  have "sh = (we_index we)\<lparr>sh_trees := sh_trees sh\<rparr>" using apply_mutations_stamps [OF X(1) loop] by blast
  then have "sh_published sh = sh_published (we_index we)" by (metis shared.select_convs(3) shared.surjective shared.update_convs(1))
  with X(2) append_durable(2) [OF rep adv ap] show
    "we_applied_position we' = Inr (case kv_applied a of None \<Rightarrow> AppliedNothing | Some p \<Rightarrow> AppliedThrough p)"
    by (simp add: we' we_applied_position_def vm_volatile_applied_position_def)
  show "durable (n + Suc (length b)) (we_file we') (kv_apply b at a)" unfolding we' by (rule append_durable(1) [OF rep adv ap])
qed

end

text \<open>
  C40. The log is ahead of an index that ran out of memory. A positioned batch is on disk before the
  index takes it; if the index then cannot allocate, the write fails, no reader of the running engine
  sees any of it and the reported position stays - but the record is not withdrawn. Whoever opens the
  file next reads the whole batch and its position, unless that replay runs out of memory too.
\<close>

theorem failed_write_replayed:
  assumes "bbtree_laws B brep" and "shard < REGISTRY_SHARDS"
    and "we_rep brep n we a" and "Suc (n + Suc (length b)) < 2 ^ 64" and "kv_advances at a"
    and "we_write_applied io B we b at = (we', Inl OUT_OF_MEMORY)"
  shows "(\<forall>cf key. snd (we_get B shard we' cf key) = snd (we_get B shard we cf key))
    \<and> we_applied_position we' = we_applied_position we
    \<and> (we_open B None (we_file we') = Some (Inl OUT_OF_MEMORY)
       \<or> (\<exists>we2 rp. we_open B None (we_file we') = Some (Inr (we2, rp))
           \<and> (\<forall>cf key. snd (we_get B shard we2 cf key) = Inr (kv_get (kv_apply b at a) cf key))
           \<and> we_applied_position we2 = Inr (AppliedThrough at)))"
proof -
  have V: "versioned_engine B brep shard"
    using assms(1,2) by (intro versioned_engine.intro) (auto simp: versioned_engine_axioms_def)
  have n: "n + Suc (length b) < 2 ^ 64" using assms(4) by simp
  note failed = versioned_engine.failed_index_write [OF V assms(3) n assms(5,6)]
  note before = versioned_engine.we_get_rep [OF V assms(3)] versioned_engine.we_position_rep [OF V assms(3)]
  show ?thesis
    using failed(1,2) before versioned_engine.we_open_rep [OF V failed(3) assms(4)]
      versioned_engine.we_get_rep [OF V, of "n + Suc (length b)" _ "kv_apply b at a"]
      versioned_engine.we_position_rep [OF V, of "n + Suc (length b)" _ "kv_apply b at a"] by fastforce
qed

definition sample_engine :: "(bool list \<times> (versioned_key, slot) omap) wal_engine" where
  "sample_engine = \<lparr>we_index = vm_new (sched_bbtree [True, False]), we_gc = gc_cursor_default, we_writes = 0,
     we_wal = \<lparr>ew_backing = Some wal_empty\<rparr>\<rparr>"

theorem failed_write_replayed_witness:
  "\<exists>we'. we_write_applied (\<lambda>_. IoOk) (sched_bbtree [True, False]) sample_engine [Put Default [1] [5], Put Default [2] [6]]
       \<lparr>ap_term = 1, ap_index = 1\<rparr> = (we', Inl OUT_OF_MEMORY)
     \<and> snd (we_get (sched_bbtree [True, False]) 0 we' Default [1]) = Inr None \<and> we_applied_position we' = Inr AppliedNothing
     \<and> (we_open (sched_bbtree [True, False]) None (we_file we') = Some (Inl OUT_OF_MEMORY)
        \<or> (\<exists>we2 rp. we_open (sched_bbtree [True, False]) None (we_file we') = Some (Inr (we2, rp))
            \<and> we_applied_position we2 = Inr (AppliedThrough \<lparr>ap_term = 1, ap_index = 1\<rparr>)))"
proof -
  let ?B = "sched_bbtree [True, False]" and ?b = "[Put Default [1] [5], Put Default [2] [6]]" and ?at = "\<lparr>ap_term = 1, ap_index = 1\<rparr>"
  have rep: "we_rep sched_rep 0 sample_engine kv_empty"
    using sched_engine.vm_new_rep [of 0 "[True, False]"] default_cursor(1)
    by (auto simp: we_rep_def sample_engine_def wal_empty_def last_of_def intro!: exI [of _ "[]"])
  have small: "length (encode_batch ?b) \<le> MAX_RECORD_LEN" by (simp add: encode_batch_def put_bytes_def put_u32_def MAX_RECORD_LEN_def)
  obtain we' where w: "we_write_applied (\<lambda>_. IoOk) ?B sample_engine ?b ?at = (we', Inl OUT_OF_MEMORY)"
    using small append_record_cases(2) [of wal_empty ?b "Some ?at"]
    by (auto simp: we_write_applied_def sample_engine_def ew_append_applied_def append_applied_def check_position_def
        refuses_def wal_empty_def vm_write_applied_def vm_volatile_applied_position_def sched_bbtree_def vm_eval)
  have "(0::nat) < REGISTRY_SHARDS" "Suc (0 + Suc (length ?b)) < 2 ^ 64" "kv_advances ?at kv_empty"
    by (simp_all add: REGISTRY_SHARDS_def)
  from failed_write_replayed [OF sched.bbtree_laws_axioms this(1) rep this(2,3) w] w
    sched_engine.we_get_rep [OF rep] sched_engine.we_position_rep [OF rep]
  show ?thesis by (auto simp: kv_empty_applied)
qed

end
