(* ===== verification/GroupTtl.thy ===== *)
theory GroupTtl
  imports GroupRun
begin

text \<open>
  TTL commands in a data group's log (\<open>crates/raft/src/state_machine/raw_ttl.rs\<close>): activation cannot
  be undone and its clock never goes back, cleanup removes exactly the expired writes it observed,
  and the guard on the reserved records misses column family codes the lowering accepts.
\<close>

section \<open>Activation\<close>

lemma legacy_refused:
  assumes "group_inv ident r w sm" "w \<noteq> None" "legacy_ops cmd = Some ops"
  shows "plan_command sha256 J kv_store at cmd sm = Inr (ttl_refuse (fst (snd ident)) LegacyCommand)"
proof -
  have "sm_ttl_enabled sm" "sm_data_identity sm = Some ident" using assms(1,2) by (auto simp: group_inv_def)
  then have "guard_legacy_ttl cmd sm = Inr (Some (ttl_refuse (fst (snd ident)) LegacyCommand))"
    using assms(3) by (cases ident) (simp add: guard_legacy_ttl_def)
  then show ?thesis using assms(3) by (cases cmd) (auto simp: plan_command_def legacy_ops_def)
qed

text \<open>
  C14. TTL mode is permanent. Once a data group's log has activated TTL, then after any further
  entries the stored clock is at least what it was, the mode is still on, and every command of the
  old write path - plain or fenced, whatever it names - is refused with a receipt and changes no key.
\<close>

theorem ttl_mode_permanent:
  assumes "identity_ok ident" and "group_log (es @ es')"
    and "drive_apply sha256 J kv_store es (fresh_group kv_store ident kv_empty) = (sm, res)"
    and "read_as kv_store (sm_engine sm) Default CLOCK_KEY wm_decode = Inr (Some x)"
    and "drive_apply sha256 J kv_store es' sm = (sm', res')"
  shows "sm_ttl_enabled sm' \<and> (\<exists>y. read_as kv_store (sm_engine sm') Default CLOCK_KEY wm_decode = Inr (Some y) \<and> x \<le> y)
    \<and> (\<forall>at cmd ops. legacy_ops cmd = Some ops \<and> sm_applied sm' < ap_index at \<longrightarrow>
         (\<exists>sm''. apply_unobserved sha256 J kv_store at cmd sm' =
            (sm'', Inr \<lparr>ar_applied_index = ap_index at, ar_response = None,
                        ar_outcome = RawTtlRejectedOutcome (fst (snd ident)) LegacyCommand\<rparr>)
          \<and> (\<forall>cf key. sm_get kv_store sm'' cf key = sm_get kv_store sm' cf key)))"
proof -
  have log: "group_log es" "group_log es'" using assms(2) by simp_all
  obtain r w where inv: "group_inv ident r w sm" using fresh_reaches [OF assms(1) log(1) assms(3)] .
  then have w: "w = Some x" using assms(4) read_clock [of "sm_engine sm" w] by (simp add: group_inv_def)
  from reaches_drive [OF inv log(2) assms(5)] obtain r' w' where inv': "group_inv ident r' w' sm'" "clock_step w w'" by blast
  with w obtain y where y: "w' = Some y" "x \<le> y" by (auto simp: clock_step_def)
  have i: "sm_ttl_enabled sm'" "kv_ok (sm_engine sm')" "in_step sm'"
      "read_as kv_store (sm_engine sm') Default CLOCK_KEY wm_decode = Inr (Some y)"
    using inv'(1) y(1) read_clock [of "sm_engine sm'" w'] by (auto simp: group_inv_def)
  have "\<exists>sm''. apply_unobserved sha256 J kv_store at cmd sm' =
        (sm'', Inr \<lparr>ar_applied_index = ap_index at, ar_response = None,
                    ar_outcome = RawTtlRejectedOutcome (fst (snd ident)) LegacyCommand\<rparr>)
      \<and> (\<forall>cf key. sm_get kv_store sm'' cf key = sm_get kv_store sm' cf key)"
    if "legacy_ops cmd = Some ops" "sm_applied sm' < ap_index at" for at cmd ops
    using legacy_refused [OF inv'(1) _ that(1)] y(1) in_step_advances [OF i(3) that(2)] that(2) i(2)
    by (auto simp: apply_unobserved_def sm_commit_def ttl_refuse_def plan_of_def sm_get_def)
  with i y(2) show ?thesis by blast
qed

section \<open>Cleanup\<close>

definition cleanup_deletes :: "kv_state \<Rightarrow> keyspace_id \<Rightarrow> clock_watermark \<Rightarrow> bytes \<times> expiry_record \<Rightarrow> write_batch" where
  "cleanup_deletes a ks clock = (\<lambda>(user, obs).
     if kv_get a Write (phys ks user) = Some (er_encode obs) \<and> er_valid obs \<and> expired_at obs clock
     then [Delete Default (phys ks user), Delete Write (phys ks user)] else [])"

lemma ttl_cleanup_eq:
  assumes "ttl_cleanup kv_store a ks clock cs b = Inr b'"
  shows "b' = b @ concat (map (cleanup_deletes a ks clock) cs) \<and> (cs \<noteq> [] \<longrightarrow> ks \<le> KEYSPACE_MAX)"
  using assms
proof (induction cs arbitrary: b)
  case (Cons c cs)
  obtain user obs where c: "c = (user, obs)" by fastforce
  from Cons.prems obtain cur where ks: "ks \<le> KEYSPACE_MAX"
    and rd: "read_as kv_store a Write (phys ks user) er_decode = Inr cur"
    and rest: "ttl_cleanup kv_store a ks clock cs
      (if permits_cleanup obs cur clock then b @ [Delete Default (phys ks user), Delete Write (phys ks user)] else b) = Inr b'"
    by (auto simp: c encode_raw bind_res_Inr_iff batch_delete_def split: if_splits)
  have "permits_cleanup obs cur clock \<longleftrightarrow>
      kv_get a Write (phys ks user) = Some (er_encode obs) \<and> er_valid obs \<and> expired_at obs clock"
    using rd by (auto simp: permits_cleanup_def read_as_def bind_res_Inr_iff er_codec split: option.splits)
      (metis er_codec sum.inject(2))
  with Cons.IH [OF rest] ks show ?case by (simp add: c cleanup_deletes_def)
qed simp

lemma batch_value_deletes:
  "list_all (\<lambda>m. mutation_value m = None) b \<Longrightarrow>
     batch_value cf key b old = (if \<exists>m\<in>set b. mutation_cf m = cf \<and> mutation_key m = key then None else old)"
  by (induction b arbitrary: old) auto

lemma cleanup_value:
  assumes "ks \<le> KEYSPACE_MAX" "cf = Default \<or> cf = Write"
  shows "batch_value cf (phys ks user) (concat (map (cleanup_deletes a ks clock) cs)) old =
    (if \<exists>obs. (user, obs) \<in> set cs \<and> kv_get a Write (phys ks user) = Some (er_encode obs) \<and> er_valid obs \<and> expired_at obs clock
     then None else old)"
proof -
  let ?b = "concat (map (cleanup_deletes a ks clock) cs)"
  have "list_all (\<lambda>m. mutation_value m = None) ?b"
    by (auto simp: list_all_iff cleanup_deletes_def split: if_splits)
  moreover have "(\<exists>m\<in>set ?b. mutation_cf m = cf \<and> mutation_key m = phys ks user) \<longleftrightarrow>
      (\<exists>obs. (user, obs) \<in> set cs \<and> kv_get a Write (phys ks user) = Some (er_encode obs) \<and> er_valid obs \<and> expired_at obs clock)"
    using assms by (force simp: cleanup_deletes_def phys_inject split: if_splits)
  ultimately show ?thesis by (simp add: batch_value_deletes)
qed

lemma expiry_read:
  "read_as kv_store a Write key er_decode = Inr (Some obs) \<longleftrightarrow> kv_get a Write key = Some (er_encode obs) \<and> er_valid obs"
  by (auto simp: read_as_def bind_res_Inr_iff er_codec split: option.splits)

text \<open>
  C13. Cleanup is exact. An accepted cleanup entry removes the value and the expiry record of a key
  if and only if one of its candidates names the key with the very record that is stored now - so
  the key was not rewritten since it was observed - and that record is expired by the stored clock.
  Every other raw key of the keyspace keeps its value and its record.
\<close>

theorem cleanup_exact:
  assumes "identity_ok ident" and "group_log es"
    and "drive_apply sha256 J kv_store es (fresh_group kv_store ident kv_empty) = (sm, res)"
    and "rt_action c = Cleanup cs" and "sm_applied sm < ap_index at"
    and "apply_unobserved sha256 J kv_store at (RawTtlCmd c) sm = (sm', Inr receipt)" and "ar_outcome receipt = Plain"
    and "encode_key Raw (rt_keyspace c) user = Inr key" and "cf = Default \<or> cf = Write"
  shows "\<exists>clock. read_as kv_store (sm_engine sm) Default CLOCK_KEY wm_decode = Inr (Some clock)
    \<and> sm_get kv_store sm' cf key =
        (if \<exists>obs. (user, obs) \<in> set cs \<and> read_as kv_store (sm_engine sm) Write key er_decode = Inr (Some obs)
            \<and> expired_at obs clock
         then Inr None else sm_get kv_store sm cf key)"
proof -
  obtain r w where inv: "group_inv ident r w sm" using fresh_reaches [OF assms(1-3)] .
  have key: "rt_keyspace c \<le> KEYSPACE_MAX" "key = phys (rt_keyspace c) user"
    using assms(8) by (auto simp: encode_raw split: if_splits)
  then have nc: "key \<noteq> CLOCK_KEY" using decode_phys [of "rt_keyspace c" user] by auto
  have grp: "group_cmd (RawTtlCmd c)" by (simp add: group_cmd_def)
  from assms(6) show ?thesis
  proof (cases rule: unobserved_cases [OF inv grp, consumes 1, case_names skipped failed committed])
    case (committed p r' w')
    have "plan_raw_ttl kv_store at c sm = Inr p" using committed(2) by (simp add: plan_command_simps)
    then show ?thesis
    proof (cases rule: plan_ttl_cases [OF inv, consumes 1, case_names refused accepted])
      case refused
      with committed(3) assms(7) show ?thesis by simp
    next
      case (accepted rg clock b)
      with assms(4) obtain x where w: "w = Some x" by auto
      with accepted(4) assms(4) have b: "ttl_cleanup kv_store (sm_engine sm) (rt_keyspace c) x cs [] = Inr b" "clock = x"
        by (auto simp: ttl_action_effect_def bind_res_Inr_iff)
      have "kv_ok (sm_engine sm)" "read_as kv_store (sm_engine sm) Default CLOCK_KEY wm_decode = Inr (Some x)"
        using inv w read_clock [of "sm_engine sm" w] by (auto simp: group_inv_def)
      with accepted(5) w b(2) ttl_cleanup_eq [OF b(1)] cleanup_value [OF key(1) assms(9)] committed(4) key(2)
      show ?thesis by (intro exI [of _ x]) (auto simp: sm_get_def expiry_read)
    qed
  qed (use assms(5) in auto)
qed

section \<open>A sample run\<close>

definition sample_ttl :: "raw_ttl_action \<Rightarrow> raw_ttl_command" where
  "sample_ttl action = \<lparr>rt_root = 1, rt_creation = 2, rt_fence = \<lparr>rf_region_id = 100, rf_conf_ver = 1, rf_version = 1\<rparr>,
     rt_keyspace = 100, rt_action = action\<rparr>"

definition sample_record :: expiry_record where
  "sample_record = \<lparr>er_creation = 2, er_position = \<lparr>ap_term = 1, ap_index = 3\<rparr>, er_expires_at_ms = 9\<rparr>"

definition sample_ttl_write :: raw_ttl_action where
  "sample_ttl_write = TtlWrite \<lparr>ep_observed = 9, ep_expires_at_ms = Some 9\<rparr> [TtlPut [0x63] [7]]"

definition sample_cleanup :: raw_ttl_action where
  "sample_cleanup = Cleanup [([0x63], sample_record)]"

lemma ep_decode_encode: "ep_valid p \<Longrightarrow> ep_decode (ep_encode p) = Inr p"
  by (simp add: ep_codec)

lemma sample_ttl_ok:
  "command_ok (RawTtlCmd (sample_ttl (Enable 5)))"
  "command_ok (RawTtlCmd (sample_ttl sample_ttl_write))"
  "command_ok (RawTtlCmd (sample_ttl sample_cleanup))"
  by (simp_all add: ttl_ok_def rt_validate_def rt_keys_def sample_ttl_def sample_ttl_write_def sample_cleanup_def sample_record_def
      charge_def ep_valid_def er_valid_def ttl_byte_defs MAX_COMMAND_BYTES_def MAX_MUTATIONS_def MAX_KEY_BYTES_def
      KEYSPACE_SYSTEM_def KEYSPACE_MAX_def ep_decode_encode)

lemma sample_phys: "phys 100 [0x63] = sample_key"
proof -
  have "decode_key sample_key = Inr \<lparr>dk_mode = Raw, dk_keyspace = 100, dk_user_key = [0x63]\<rparr>"
    by (simp add: sample_key_def decode_key_def from_byte_def)
  then show ?thesis by (simp add: decode_key_iff phys_def)
qed

lemma sample_accepts: "rt_keys (sample_ttl action) = ks \<Longrightarrow> list_all (dr_contains range_sample) ks \<Longrightarrow>
    ttl_accepts (sample_ttl action) range_sample"
  by (simp add: ttl_accepts_def sample_ttl_def range_sample_def)

lemma plan_ttl_accepted:
  assumes "group_inv ident (Some rg) w sm" "ttl_accepts c rg" "(rt_root c, rf_region_id (rt_fence c), rt_creation c) = ident"
    and "w \<noteq> None \<or> is_enable (rt_action c)"
    and "ttl_action_effect kv_store (sm_engine sm) at c (case w of None \<Rightarrow> 0 | Some x \<Rightarrow> x) = Inr (clock, b)"
  shows "plan_raw_ttl kv_store at c sm =
    Inr \<lparr>pl_batch = (if w \<noteq> Some clock then b @ [Put Default CLOCK_KEY (wm_encode clock)] else b),
         pl_outcome = Plain, pl_ttl = True\<rparr>"
proof -
  have inv: "sm_data_identity sm = Some ident" "read_as kv_store (sm_engine sm) Default RANGE_KEY dr_decode = Inr (Some rg)"
    "read_as kv_store (sm_engine sm) Default CLOCK_KEY wm_decode = Inr w" "sm_ttl_enabled sm \<longleftrightarrow> w \<noteq> None" "range_identity rg = ident"
    using assms(1) by (auto simp: group_inv_def read_range read_clock)
  then show ?thesis
    using assms(2-5) unfolding plan_raw_ttl_def
    by (auto simp: ttl_accepts_def batch_put_def simp del: not_None_eq)
qed

lemma ttl_accepted_step:
  assumes "group_inv ident (Some rg) w sm" "ttl_accepts c rg" "(rt_root c, rf_region_id (rt_fence c), rt_creation c) = ident"
    and "w \<noteq> None \<or> is_enable (rt_action c)"
    and "ttl_action_effect kv_store (sm_engine sm) at c (case w of None \<Rightarrow> 0 | Some x \<Rightarrow> x) = Inr (clock, b)"
    and "sm_applied sm < ap_index at"
  shows "apply_unobserved sha256 J kv_store at (RawTtlCmd c) sm =
    (sm\<lparr>sm_engine := kv_apply (if w \<noteq> Some clock then b @ [Put Default CLOCK_KEY (wm_encode clock)] else b) at (sm_engine sm),
        sm_applied := ap_index at, sm_ttl_enabled := True\<rparr>, Inr (write_ok (ap_index at)))"
proof -
  have "kv_advances at (sm_engine sm)" using assms(1,6) in_step_advances by (auto simp: group_inv_def)
  then show ?thesis
    using plan_ttl_accepted [OF assms(1-5)] assms(6)
    by (simp add: apply_unobserved_def plan_command_simps sm_commit_def write_ok_def)
qed

lemma sample_first_inv: "group_inv sample_ident (Some range_sample) None sample_first"
  using sample_identity sample_range(1) sample_key_not_reserved
  by (simp add: group_inv_def sample_first_reads stored_range_def stored_clock_def sample_ident_def)
    (simp add: sample_first_def in_step_def fresh_group_def)

definition sample_enabled :: "kv_state state_machine" where
  "sample_enabled = sample_first\<lparr>sm_engine := kv_apply [Put Default CLOCK_KEY (wm_encode 5)] \<lparr>ap_term = 1, ap_index = 2\<rparr>
     (sm_engine sample_first), sm_applied := 2, sm_ttl_enabled := True\<rparr>"

definition sample_stored :: "kv_state state_machine" where
  "sample_stored = sample_enabled\<lparr>sm_engine := kv_apply
     [Put Default sample_key [7], Put Write sample_key (er_encode sample_record), Put Default CLOCK_KEY (wm_encode 9)]
     \<lparr>ap_term = 1, ap_index = 3\<rparr> (sm_engine sample_enabled), sm_applied := 3\<rparr>"

lemma sample_scope: "(rt_root (sample_ttl a), rf_region_id (rt_fence (sample_ttl a)), rt_creation (sample_ttl a)) = sample_ident"
  by (simp add: sample_ttl_def sample_ident_def range_identity_def range_sample_def)

lemma sample_accepted:
  "ttl_accepts (sample_ttl (Enable 5)) range_sample" "ttl_accepts (sample_ttl sample_ttl_write) range_sample"
  "ttl_accepts (sample_ttl sample_cleanup) range_sample"
  by (simp_all add: ttl_accepts_def rt_keys_def sample_ttl_def sample_ttl_write_def sample_cleanup_def range_sample_def dr_contains_def)

lemma sample_enable_step:
  "apply_unobserved sha256 J kv_store \<lparr>ap_term = 1, ap_index = 2\<rparr> (RawTtlCmd (sample_ttl (Enable 5))) sample_first
     = (sample_enabled, Inr (write_ok 2))"
  by (subst ttl_accepted_step [OF sample_first_inv sample_accepted(1) sample_scope, where clock = 5 and b = "[]"])
    (simp_all add: sample_ttl_def ttl_action_effect_def wm_merge_def sample_first_reads sample_enabled_def)

lemma sample_enabled_inv: "group_inv sample_ident (Some range_sample) (Some 5) sample_enabled"
  using sample_first_inv sample_key_not_reserved
  by (simp add: group_inv_def sample_enabled_def stored_range_def stored_clock_def in_step_def)

lemma sample_write_step:
  "apply_unobserved sha256 J kv_store \<lparr>ap_term = 1, ap_index = 3\<rparr> (RawTtlCmd (sample_ttl sample_ttl_write)) sample_enabled
     = (sample_stored, Inr (write_ok 3))"
proof -
  let ?at = "\<lparr>ap_term = 1, ap_index = 3\<rparr> :: applied_position"
  have "ttl_action_effect kv_store (sm_engine sample_enabled) ?at (sample_ttl sample_ttl_write) 5
      = Inr (9, [Put Default sample_key [7], Put Write sample_key (er_encode sample_record)])"
    by (simp add: ttl_action_effect_def sample_ttl_def sample_ttl_write_def at_write_def er_new_def encode_raw sample_phys
        KEYSPACE_MAX_def batch_put_def sample_record_def wm_merge_def)
  then show ?thesis
    by (subst ttl_accepted_step [OF sample_enabled_inv sample_accepted(2) sample_scope, where clock = 9 and
          b = "[Put Default sample_key [7], Put Write sample_key (er_encode sample_record)]"])
      (simp_all add: sample_enabled_def sample_stored_def sample_first_reads)
qed

definition ttl_log :: "committed_entry list" where
  "ttl_log = [sample_entry 1 (DataRangeCmd None range_sample), sample_entry 2 (RawTtlCmd (sample_ttl (Enable 5))),
     sample_entry 3 (RawTtlCmd (sample_ttl sample_ttl_write))]"

lemma ttl_log_run:
  "drive_apply sha256 J kv_store ttl_log (fresh_group kv_store sample_ident kv_empty)
     = (sample_stored, Inr [write_ok 1, write_ok 2, write_ok 3])"
  by (simp add: ttl_log_def drive_one [OF sample_ok(1)] drive_one [OF sample_ttl_ok(1)] drive_one [OF sample_ttl_ok(2)]
      sample_step1 sample_enable_step sample_write_step del: drive_apply.simps(2))

lemma ttl_group_log: "group_log ttl_log"
  by (simp add: ttl_log_def sample_entry_ok [OF sample_ok(1)] sample_entry_ok [OF sample_ttl_ok(1)] sample_entry_ok [OF sample_ttl_ok(2)])
    (simp add: group_cmd_def)

lemma sample_stored_reads:
  "kv_get (sm_engine sample_stored) Default CLOCK_KEY = Some (wm_encode 9)"
  "kv_get (sm_engine sample_stored) Default sample_key = Some [7]"
  "kv_get (sm_engine sample_stored) Write sample_key = Some (er_encode sample_record)"
  "sm_applied sample_stored = 3"
  using sample_enabled_inv sample_key_not_reserved by (simp_all add: sample_stored_def group_inv_def)

lemma sample_stored_inv: "group_inv sample_ident (Some range_sample) (Some 9) sample_stored"
  using sample_enabled_inv sample_key_not_reserved
  by (simp add: group_inv_def sample_stored_def stored_range_def stored_clock_def in_step_def)

theorem ttl_mode_permanent_witness:
  "\<exists>sm''. apply_unobserved (\<lambda>_. 0) flat_json kv_store \<lparr>ap_term = 1, ap_index = 4\<rparr> (sample_write 1) sample_stored =
       (sm'', Inr \<lparr>ar_applied_index = 4, ar_response = None, ar_outcome = RawTtlRejectedOutcome 100 LegacyCommand\<rparr>)
     \<and> sm_get kv_store sm'' Default sample_key = Inr (Some [7])"
proof -
  let ?at = "\<lparr>ap_term = 1, ap_index = 4\<rparr> :: applied_position"
  have "group_log (ttl_log @ [])" using ttl_group_log by simp
  moreover have "read_as kv_store (sm_engine sample_stored) Default CLOCK_KEY wm_decode = Inr (Some 9)"
    by (simp add: read_as_def sample_stored_reads wm_decode_encode)
  moreover have "drive_apply (\<lambda>_. 0) flat_json kv_store [] sample_stored = (sample_stored, Inr [])" by simp
  moreover have "legacy_ops (sample_write 1) = Some [KvPut 0 sample_key [7]]" "sm_applied sample_stored < ap_index ?at"
    by (simp_all add: sample_write_def legacy_ops_def sample_stored_reads)
  ultimately obtain sm'' where "apply_unobserved (\<lambda>_. 0) flat_json kv_store ?at (sample_write 1) sample_stored =
      (sm'', Inr \<lparr>ar_applied_index = ap_index ?at, ar_response = None,
                  ar_outcome = RawTtlRejectedOutcome (fst (snd sample_ident)) LegacyCommand\<rparr>)"
    "\<forall>cf key. sm_get kv_store sm'' cf key = sm_get kv_store sample_stored cf key"
    using ttl_mode_permanent [OF sample_identity _ ttl_log_run] by blast
  then show ?thesis
    by (intro exI [of _ sm'']) (simp add: sample_ident_def range_identity_def range_sample_def sm_get_def sample_stored_reads)
qed

theorem cleanup_exact_witness:
  "\<exists>sm'. apply_unobserved (\<lambda>_. 0) flat_json kv_store \<lparr>ap_term = 1, ap_index = 4\<rparr> (RawTtlCmd (sample_ttl sample_cleanup)) sample_stored
       = (sm', Inr (write_ok 4))
     \<and> sm_get kv_store sample_stored Default sample_key = Inr (Some [7]) \<and> sm_get kv_store sm' Default sample_key = Inr None"
proof -
  let ?at = "\<lparr>ap_term = 1, ap_index = 4\<rparr> :: applied_position"
  have rec: "read_as kv_store (sm_engine sample_stored) Write sample_key er_decode = Inr (Some sample_record)"
    by (simp add: expiry_read sample_stored_reads er_valid_def) (simp add: sample_record_def)
  have act: "rt_action (sample_ttl sample_cleanup) = Cleanup [([0x63], sample_record)]"
    by (simp add: sample_ttl_def sample_cleanup_def)
  have enc: "encode_key Raw (rt_keyspace (sample_ttl sample_cleanup)) [0x63] = Inr sample_key"
    by (simp add: sample_ttl_def encode_raw sample_phys KEYSPACE_MAX_def)
  have "ttl_action_effect kv_store (sm_engine sample_stored) ?at (sample_ttl sample_cleanup) 9
      = Inr (9, [Delete Default sample_key, Delete Write sample_key])"
    using rec enc by (simp add: ttl_action_effect_def act permits_cleanup_def expired_at_def batch_delete_def)
      (simp add: sample_record_def)
  then obtain sm' where ap: "apply_unobserved (\<lambda>_. 0) flat_json kv_store ?at (RawTtlCmd (sample_ttl sample_cleanup)) sample_stored
      = (sm', Inr (write_ok 4))"
    using ttl_accepted_step [OF sample_stored_inv sample_accepted(3) sample_scope, where at = ?at and clock = 9 and
        b = "[Delete Default sample_key, Delete Write sample_key]"]
    by (simp add: sample_stored_reads)
  have "\<exists>clock. read_as kv_store (sm_engine sample_stored) Default CLOCK_KEY wm_decode = Inr (Some clock)
      \<and> sm_get kv_store sm' Default sample_key =
        (if \<exists>obs. ([0x63 :: byte], obs) \<in> set [([0x63], sample_record)] \<and>
            read_as kv_store (sm_engine sample_stored) Write sample_key er_decode = Inr (Some obs) \<and> expired_at obs clock
         then Inr None else sm_get kv_store sample_stored Default sample_key)"
    by (rule cleanup_exact [OF sample_identity ttl_group_log ttl_log_run act _ ap _ enc])
      (simp_all add: sample_stored_reads write_ok_def)
  then obtain clock where "read_as kv_store (sm_engine sample_stored) Default CLOCK_KEY wm_decode = Inr (Some clock)"
    and get: "sm_get kv_store sm' Default sample_key =
      (if expired_at sample_record clock then Inr None else sm_get kv_store sample_stored Default sample_key)"
    unfolding rec by auto
  moreover have "read_as kv_store (sm_engine sample_stored) Default CLOCK_KEY wm_decode = Inr (Some 9)"
    by (simp add: read_as_def sample_stored_reads wm_decode_encode)
  moreover have "expired_at sample_record 9" by (simp add: expired_at_def sample_record_def)
  ultimately have "sm_get kv_store sm' Default sample_key = Inr None" by simp
  with ap show ?thesis by (auto simp: sm_get_def sample_stored_reads)
qed

section \<open>The reserved guard and unknown column family codes\<close>

text \<open>
  C38. The guard on the reserved clock record compares the operation's column family code with the
  default family's own code, while lowering sends every unknown code to the default family. An
  unfenced write to the clock key is refused under code 0. Under any code above 2 it is accepted,
  stores its value as the clock record and leaves the TTL mode off. The machine no longer agrees
  with its engine: every TTL command for the owned range then fails with an apply error, and
  reopening the group on the same engine turns the mode on.
\<close>

theorem unknown_cf_bypasses_guard:
  assumes "group_inv ident (Some rg) None sm" and "2 < cf" and "sm_applied sm < ap_index at" and "ap_index at < ap_index at'"
    and "ttl_accepts c rg" and "(rt_root c, rf_region_id (rt_fence c), rt_creation c) = ident"
  shows "apply_unobserved sha256 J kv_store at (WriteCmd [KvPut 0 CLOCK_KEY (wm_encode x)]) sm
      = (sm, Inl (RaftError ''legacy command targets reserved Raw TTL metadata''))
    \<and> (\<exists>sm'. apply_unobserved sha256 J kv_store at (WriteCmd [KvPut cf CLOCK_KEY (wm_encode x)]) sm = (sm', Inr (write_ok (ap_index at)))
      \<and> \<not> sm_ttl_enabled sm'
      \<and> apply_unobserved sha256 J kv_store at' (RawTtlCmd c) sm'
          = (sm', Inl (RaftError ''Raw TTL activation differs from durable state''))
      \<and> (\<exists>sm''. open_group kv_store ident (sm_engine sm') = Inr sm'' \<and> sm_ttl_enabled sm''))"
proof -
  have i: "kv_ok (sm_engine sm)" "in_step sm" "\<not> sm_ttl_enabled sm" "sm_data_identity sm = Some ident" "identity_ok ident"
    "range_identity rg = ident" "stored_range (sm_engine sm) (Some rg)"
    using assms(1) by (auto simp: group_inv_def)
  have adv: "kv_advances at (sm_engine sm)" using in_step_advances [OF i(2) assms(3)] .
  let ?eng = "kv_apply [Put Default CLOCK_KEY (wm_encode x)] at (sm_engine sm)"
  let ?sm = "sm\<lparr>sm_engine := ?eng, sm_applied := ap_index at\<rparr>"
  have cf: "cf \<noteq> 0" "cf \<noteq> 1" "cf \<noteq> 2" using assms(2) by auto
  have refused: "guard_legacy_ttl (WriteCmd [KvPut 0 CLOCK_KEY (wm_encode x)]) sm
      = Inl (RaftError ''legacy command targets reserved Raw TTL metadata'')"
    using i(3) by (simp add: guard_legacy_ttl_def legacy_ops_def reserved_def)
  have passed: "guard_legacy_ttl (WriteCmd [KvPut cf CLOCK_KEY (wm_encode x)]) sm = Inr None"
    using i(3) cf by (simp add: guard_legacy_ttl_def legacy_ops_def reserved_def)
  have one: "apply_unobserved sha256 J kv_store at (WriteCmd [KvPut cf CLOCK_KEY (wm_encode x)]) sm = (?sm, Inr (write_ok (ap_index at)))"
    using passed adv assms(3) i(3) cf
    by (simp add: apply_unobserved_def plan_command_def sm_commit_def plan_of_def lower_ops_def batch_put_def
        raft_cf_from_code_def write_ok_def)
  have rg: "stored_range ?eng (Some rg)" using i(1,7) by (simp add: stored_range_def sample_key_not_reserved)
  have clk: "read_as kv_store ?eng Default CLOCK_KEY wm_decode = Inr (Some x)" using i(1) by (simp add: read_as_def wm_decode_encode)
  have "plan_raw_ttl kv_store at' c ?sm = Inl (RaftError ''Raw TTL activation differs from durable state'')"
    using read_range [OF rg] clk i(3,4,6) assms(5,6) by (auto simp: plan_raw_ttl_def ttl_accepts_def)
  then have two: "apply_unobserved sha256 J kv_store at' (RawTtlCmd c) ?sm
      = (?sm, Inl (RaftError ''Raw TTL activation differs from durable state''))"
    using assms(4) by (simp add: apply_unobserved_def plan_command_simps sm_commit_def)
  have three: "\<exists>sm''. open_group kv_store ident ?eng = Inr sm'' \<and> sm_ttl_enabled sm''"
    using i(5,6) clk read_range [OF rg]
    by (cases ident) (simp add: open_group_def with_engine_def set_data_group_def rf_current_def identity_ok_def not_less Let_def)
  have "apply_unobserved sha256 J kv_store at (WriteCmd [KvPut 0 CLOCK_KEY (wm_encode x)]) sm
      = (sm, Inl (RaftError ''legacy command targets reserved Raw TTL metadata''))"
    using refused assms(3) by (simp add: apply_unobserved_def plan_command_def sm_commit_def)
  moreover have "\<not> sm_ttl_enabled ?sm" "\<exists>sm''. open_group kv_store ident (sm_engine ?sm) = Inr sm'' \<and> sm_ttl_enabled sm''"
    using i(3) three by simp_all
  ultimately show ?thesis using one two by blast
qed

theorem unknown_cf_bypasses_guard_witness:
  "\<exists>sm' sm''. apply_unobserved (\<lambda>_. 0) flat_json kv_store \<lparr>ap_term = 1, ap_index = 2\<rparr> (WriteCmd [KvPut 3 CLOCK_KEY (wm_encode 5)])
       sample_first = (sm', Inr (write_ok 2))
     \<and> apply_unobserved (\<lambda>_. 0) flat_json kv_store \<lparr>ap_term = 1, ap_index = 3\<rparr> (RawTtlCmd (sample_ttl (Enable 5))) sm'
       = (sm', Inl (RaftError ''Raw TTL activation differs from durable state''))
     \<and> open_group kv_store sample_ident (sm_engine sm') = Inr sm'' \<and> \<not> sm_ttl_enabled sm' \<and> sm_ttl_enabled sm''"
proof -
  let ?at = "\<lparr>ap_term = 1, ap_index = 2\<rparr> :: applied_position" and ?at' = "\<lparr>ap_term = 1, ap_index = 3\<rparr> :: applied_position"
  have "2 < (3 :: byte)" "sm_applied sample_first < ap_index ?at" "ap_index ?at < ap_index ?at'"
    by (simp_all add: sample_first_reads)
  from unknown_cf_bypasses_guard [OF sample_first_inv this sample_accepted(1) sample_scope, of "\<lambda>_. 0" flat_json 5]
  show ?thesis by (auto simp del: split_paired_Ex)
qed

end
