(* ===== verification/ManifestLog.thy ===== *)
theory ManifestLog
  imports GroupRun
begin

text \<open>
  Manifest changes in a data group's log (\<open>crates/raft/src/state_machine.rs\<close>,
  \<open>state_machine/manifest_effect.rs\<close>): the pair and the rows of a region are exactly the list of the
  changes the log applied to it, so a reconciliation verdict read from the pair is sound for the
  whole log, and the paged search of the rows visits every generation once.
\<close>

section \<open>The applied changes of a log\<close>

definition applied_of :: "region_id \<Rightarrow> command \<Rightarrow> apply_outcome \<Rightarrow> manifest_change_payload list" where
  "applied_of region cmd outcome =
     (case (cmd, outcome) of
        (ManifestChange c, ManifestOutcome (VerdictApplied r g)) \<Rightarrow> if mc_region c = region then [c] else []
      | (LargeManifestChange c, ManifestOutcome (VerdictApplied r g)) \<Rightarrow> if mc_region c = region then [c] else []
      | _ \<Rightarrow> [])"

fun applied_changes :: "region_id \<Rightarrow> committed_entry list \<Rightarrow> apply_result list \<Rightarrow> manifest_change_payload list" where
  "applied_changes region [] rs = []"
| "applied_changes region (e # es) rs =
     (if ce_kind e \<noteq> CommandEntry then applied_changes region es rs
      else case rs of [] \<Rightarrow> []
      | r # rs' \<Rightarrow>
          (case cmd_decode (ce_data e) of Inl _ \<Rightarrow> [] | Inr cmd \<Rightarrow> applied_of region cmd (ar_outcome r))
          @ applied_changes region es rs')"

text \<open>What the engine holds for a region after the changes \<open>t\<close>, oldest first.\<close>

definition chain_ok :: "region_id \<Rightarrow> manifest_change_payload list \<Rightarrow> bool" where
  "chain_ok region t \<longleftrightarrow> length t < 2 ^ 64
     \<and> (\<forall>i<length t. mc_expected_generation (t ! i) = of_nat i \<and> mc_change_id (t ! i) \<noteq> [] \<and> mc_region (t ! i) = region)"

definition pair_of :: "manifest_change_payload list \<Rightarrow> manifest_pair" where
  "pair_of t = \<lparr>mp_generation = of_nat (length t), mp_last_change_id = (if t = [] then [] else mc_change_id (last t))\<rparr>"

definition manifest_state :: "region_id \<Rightarrow> manifest_change_payload list \<Rightarrow> kv_state \<Rightarrow> bool" where
  "manifest_state region t a \<longleftrightarrow> chain_ok region t
     \<and> kv_get a Default (manifest_pair_key region) = (if t = [] then None else Some (mp_encode (pair_of t)))
     \<and> (\<forall>g. kv_get a Default (manifest_gen_key region g) =
            (if 0 < unat g \<and> unat g \<le> length t then Some (installed_manifest (t ! (unat g - 1))) else None))"

lemma manifest_keys_eq [simp]:
  "manifest_pair_key a = manifest_pair_key b \<longleftrightarrow> a = b"
  "manifest_gen_key a g = manifest_gen_key b h \<longleftrightarrow> a = b \<and> g = h"
  "manifest_pair_key a \<noteq> manifest_gen_key b g" "manifest_gen_key b g \<noteq> manifest_pair_key a"
  by (auto simp: manifest_pair_key_def manifest_gen_key_def)

lemma of_nat_unat_u64: "(of_nat (unat g) :: u64) = g"
  by simp

lemma pair_decode: "chain_ok region t \<Longrightarrow> mp_decode (mp_encode (pair_of t)) = Inr (pair_of t)"
proof (cases t rule: rev_cases)
  case (snoc u c)
  moreover assume "chain_ok region t"
  ultimately have "mc_change_id c \<noteq> []" "unat (of_nat (length t) :: u64) = length t"
    using unat_of_nat_u64 [of "length t"] by (auto simp: chain_ok_def nth_append)
  with snoc show ?thesis
    by (auto simp: mp_decode_def mp_encode_def pair_of_def word_gt_0_no)
qed (simp add: mp_decode_def mp_encode_def pair_of_def)

lemma state_pair: "manifest_state region t (sm_engine sm) \<Longrightarrow> sm_manifest_pair kv_store sm region = Inr (pair_of t)"
  using pair_decode [of region t]
  by (auto simp: manifest_state_def sm_manifest_pair_def virgin_pair_def pair_of_def)

lemma chain_snoc:
  assumes "chain_ok region t" "mc_expected_generation c = of_nat (length t)" "mc_change_id c \<noteq> []" "mc_region c = region"
    and "Suc (length t) < 2 ^ 64"
  shows "chain_ok region (t @ [c])"
  using assms by (auto simp: chain_ok_def nth_append less_Suc_eq)

lemma plan_manifest_cases:
  assumes "plan_manifest sha256 J kv_store at cmd c sm = Inr p"
  obtains (kept) "pl_batch p = []" "\<And>region g. pl_outcome p \<noteq> ManifestOutcome (VerdictApplied region g)"
    | (applied) cur g where "sm_manifest_pair kv_store sm (mc_region c) = Inr cur" "mc_change_id c \<noteq> []"
      "mc_expected_generation c = mp_generation cur" "checked_add (mp_generation cur) 1 = Some g"
      "pl_batch p = [Put Default (manifest_pair_key (mc_region c)) (mp_encode \<lparr>mp_generation = g, mp_last_change_id = mc_change_id c\<rparr>),
        Put Default (manifest_gen_key (mc_region c) g) (installed_manifest c)]"
      "pl_outcome p = ManifestOutcome (VerdictApplied (mc_region c) g)"
proof -
  obtain cur bad where cur: "sm_manifest_pair kv_store sm (mc_region c) = Inr cur"
    and p: "p = plan_of (snd (manifest_cas at c cur bad)) (ManifestOutcome (fst (manifest_cas at c cur bad)))"
    using assms by (auto simp: plan_manifest_def bind_res_Inr_iff case_prod_beta)
  show ?thesis
  proof (cases "\<exists>region g. fst (manifest_cas at c cur bad) = VerdictApplied region g")
    case True
    with cur p show ?thesis
      by (intro applied [of cur "THE g. checked_add (mp_generation cur) 1 = Some g"])
        (auto simp: manifest_cas_def plan_of_def batch_put_def split: option.splits if_splits)
  next
    case False
    with p show ?thesis
      by (intro kept) (auto simp: manifest_cas_def plan_of_def split: option.splits if_splits)
  qed
qed

definition change_of :: "command \<Rightarrow> manifest_change_payload option" where
  "change_of cmd = (case cmd of ManifestChange c \<Rightarrow> Some c | LargeManifestChange c \<Rightarrow> Some c | _ \<Rightarrow> None)"

lemma applied_of_alt:
  "applied_of region cmd outcome =
     (case change_of cmd of None \<Rightarrow> []
      | Some c \<Rightarrow> if (\<exists>r g. outcome = ManifestOutcome (VerdictApplied r g)) \<and> mc_region c = region then [c] else [])"
  by (auto simp: applied_of_def change_of_def split: command.splits apply_outcome.splits manifest_verdict.splits)

lemma change_plan: "change_of cmd = Some c \<Longrightarrow> plan_command sha256 J S at cmd sm = plan_manifest sha256 J S at cmd c sm"
  by (cases cmd) (auto simp: change_of_def plan_command_simps)

lemma change_control: "change_of cmd = None \<Longrightarrow> manifest_key key \<Longrightarrow> \<not> control_key cmd key"
  using manifest_not_reserved [of key] by (cases cmd) (auto simp: change_of_def)

lemma manifest_state_kept:
  assumes "kv_get b Default (manifest_pair_key region) = kv_get a Default (manifest_pair_key region)"
    and "\<And>g. kv_get b Default (manifest_gen_key region g) = kv_get a Default (manifest_gen_key region g)"
    and "manifest_state region t a"
  shows "manifest_state region t b"
  using assms by (simp add: manifest_state_def)

lemma manifest_step:
  assumes inv: "group_inv ident r w sm" and cmd: "group_cmd cmd" "plan_command sha256 J kv_store at cmd sm = Inr p"
    and st: "manifest_state region t (sm_engine sm)"
  shows "manifest_state region (t @ applied_of region cmd (pl_outcome p)) (kv_apply (pl_batch p) at (sm_engine sm))"
proof -
  have ok: "kv_ok (sm_engine sm)" using inv by (simp add: group_inv_def)
  show ?thesis
  proof (cases "change_of cmd")
    case None
    have "batch_value Default key (pl_batch p) old = old" if "manifest_key key" for key old
      using plan_keeps [OF inv cmd] change_control [OF None that] that range_key_not_reserved by blast
    with ok None have "manifest_state region t (kv_apply (pl_batch p) at (sm_engine sm))"
      by (intro manifest_state_kept [OF _ _ st]) (simp_all add: manifest_keys)
    with None show ?thesis by (simp add: applied_of_alt)
  next
    case (Some c)
    with cmd(2) have "plan_manifest sha256 J kv_store at cmd c sm = Inr p" by (simp add: change_plan)
    then show ?thesis
    proof (cases rule: plan_manifest_cases [consumes 1, case_names kept applied])
      case kept
      with ok have "manifest_state region t (kv_apply (pl_batch p) at (sm_engine sm))"
        by (intro manifest_state_kept [OF _ _ st]) simp_all
      with kept Some show ?thesis by (simp add: applied_of_alt)
    next
      case (applied cur g)
      show ?thesis
      proof (cases "mc_region c = region")
        case False
        with ok applied(5) have "manifest_state region t (kv_apply (pl_batch p) at (sm_engine sm))"
          by (intro manifest_state_kept [OF _ _ st]) simp_all
        with Some False show ?thesis by (simp add: applied_of_alt)
      next
        case True
        with applied(1) state_pair [OF st] have cur: "cur = pair_of t" by simp
        have len: "length t < 2 ^ 64" using st by (simp add: manifest_state_def chain_ok_def)
        have ug: "unat g = Suc (length t)"
          using checked_add_SomeD [OF applied(4)] unat_of_nat_u64 [OF len] by (simp add: cur pair_of_def)
        then have g: "g = of_nat (Suc (length t))" "unat g = Suc (length t)"
          using of_nat_unat_u64 [of g] by (simp_all only:)
        then have "Suc (length t) < 2 ^ 64" using unat_lt2p [of g] by simp
        then have chain: "chain_ok region (t @ [c])"
          using st applied(2,3) True by (intro chain_snoc) (simp_all add: manifest_state_def cur pair_of_def)
        have "applied_of region cmd (pl_outcome p) = [c]" using applied(6) Some True by (simp add: applied_of_alt)
        with ok st chain applied(5) True g show ?thesis
          by (auto simp: manifest_state_def pair_of_def nth_append word_unat_eq_iff le_Suc_eq)
      qed
    qed
  qed
qed

lemma manifest_run:
  assumes "group_inv ident r w sm" "manifest_state region t (sm_engine sm)" "group_log es"
    and "drive_apply sha256 J kv_store es sm = (sm', Inr rs)"
  shows "manifest_state region (t @ applied_changes region es rs) (sm_engine sm')"
  using assms
proof (induction es arbitrary: r w sm t rs)
  case (Cons e es)
  show ?case
  proof (cases "ce_kind e = CommandEntry")
    case False
    with Cons show ?thesis by simp
  next
    case True
    with Cons.prems(4) obtain sm1 r1 rs1 where s1: "sm_apply sha256 J kv_store e sm = (sm1, Inr r1)"
      and s2: "drive_apply sha256 J kv_store es sm1 = (sm', Inr rs1)" and rs: "rs = r1 # rs1"
      by (auto split: prod.splits sum.splits)
    then obtain cmd where cmd: "cmd_decode (ce_data e) = Inr cmd" "group_cmd cmd"
      "apply_unobserved sha256 J kv_store \<lparr>ap_term = ce_term e, ap_index = ce_index e\<rparr> cmd sm = (sm1, Inr r1)"
      using Cons.prems(3) True by (auto simp: sm_apply_def apply_at_def group_entry_ok_def split: sum.splits)
    have "\<exists>r' w'. group_inv ident r' w' sm1 \<and> manifest_state region (t @ applied_of region cmd (ar_outcome r1)) (sm_engine sm1)"
      using cmd(3)
    proof (cases rule: unobserved_cases [OF Cons.prems(1) cmd(2), consumes 1, case_names skipped failed committed])
      case skipped
      then show ?thesis using Cons.prems(1,2) by (auto simp: write_ok_def applied_of_alt split: option.splits)
    next
      case (committed p r' w')
      with manifest_step [OF Cons.prems(1) cmd(2) committed(2) Cons.prems(2)] show ?thesis by auto
    qed simp
    then have "manifest_state region ((t @ applied_of region cmd (ar_outcome r1)) @ applied_changes region es rs1) (sm_engine sm')"
      using Cons.IH [OF _ _ _ s2] Cons.prems(3) by (elim exE conjE) (simp del: append_assoc)
    with cmd(1) True show ?thesis by (simp add: rs)
  qed
qed simp

lemma fresh_manifest: "manifest_state region [] (sm_engine (fresh_group kv_store ident kv_empty))"
  by (auto simp: manifest_state_def chain_ok_def fresh_group_def)

text \<open>
  C12. The manifest of a region is its list of applied changes. After any data group log, the pair
  of a region reads as the number of changes the log applied to it and the identity of the last
  one; the row of generation \<open>g\<close> is the change that produced \<open>g\<close>, and no row exists beyond the pair;
  the changes applied one after another, each against the generation its predecessor left, none
  lost, repeated or reordered.
\<close>

theorem manifest_is_applied_changes:
  assumes "identity_ok ident" and "group_log es"
    and "drive_apply sha256 J kv_store es (fresh_group kv_store ident kv_empty) = (sm, Inr rs)"
    and "applied_changes region es rs = t"
  shows "sm_manifest_pair kv_store sm region =
      Inr \<lparr>mp_generation = of_nat (length t), mp_last_change_id = (if t = [] then [] else mc_change_id (last t))\<rparr>
    \<and> (\<forall>g. sm_manifest_at kv_store sm region g =
         Inr (if 0 < unat g \<and> unat g \<le> length t
              then let c = t ! (unat g - 1) in Some (mc_watermark_term c, mc_watermark_index c, mc_changeset c) else None))
    \<and> (\<forall>i<length t. unat (mc_expected_generation (t ! i)) = i)"
proof -
  have st: "manifest_state region t (sm_engine sm)"
    using manifest_run [OF fresh_inv [OF assms(1)] fresh_manifest [of region] assms(2,3)] assms(4) by simp
  then have chain: "chain_ok region t" by (simp add: manifest_state_def)
  have "sm_manifest_at kv_store sm region g =
      Inr (if 0 < unat g \<and> unat g \<le> length t
           then let c = t ! (unat g - 1) in Some (mc_watermark_term c, mc_watermark_index c, mc_changeset c) else None)" for g
    using st by (simp add: manifest_state_def sm_manifest_at_def installed_manifest_def bslice_def Let_def)
  moreover have "\<forall>i<length t. unat (mc_expected_generation (t ! i)) = i"
    using chain by (auto simp: chain_ok_def unat_of_nat_u64)
  ultimately show ?thesis using state_pair [OF st] by (simp add: pair_of_def)
qed

lemma classify_iff:
  "classify_reconciliation pair expected change_id = MyChangeApplied g \<longleftrightarrow>
     change_id \<noteq> [] \<and> checked_add expected 1 = Some (mp_generation pair) \<and> mp_last_change_id pair = change_id
     \<and> g = mp_generation pair"
  "classify_reconciliation pair expected change_id = KnownNotApplied winner \<longleftrightarrow>
     change_id \<noteq> [] \<and> checked_add expected 1 = Some (mp_generation pair) \<and> mp_last_change_id pair \<noteq> change_id
     \<and> winner = mp_last_change_id pair"
  by (auto simp: classify_reconciliation_def split: option.splits)

text \<open>
  C8. Reconciliation is sound. A caller that lost the receipt of a change reads the pair at some
  point of the log. If the verdict is that its change was applied, the log applied a change with exactly that
  expected generation and identity. If the verdict is that it was not, then no such change was
  applied before that point and none is applied by any later entry: the generation it expected was
  taken by the winner the verdict names, for good.
\<close>

theorem reconciliation_sound:
  assumes "identity_ok ident" and "group_log (es @ es')"
    and "drive_apply sha256 J kv_store es (fresh_group kv_store ident kv_empty) = (sm, Inr rs)"
    and "drive_apply sha256 J kv_store es' sm = (sm', Inr rs')"
    and "sm_manifest_pair kv_store sm region = Inr pair"
  shows "(\<forall>g. classify_reconciliation pair expected change_id = MyChangeApplied g \<longrightarrow>
           (\<exists>c\<in>set (applied_changes region es rs). mc_expected_generation c = expected \<and> mc_change_id c = change_id)
           \<and> unat g = unat expected + 1)
    \<and> (\<forall>winner. classify_reconciliation pair expected change_id = KnownNotApplied winner \<longrightarrow>
           winner \<noteq> change_id
           \<and> (\<forall>c\<in>set (applied_changes region es rs @ applied_changes region es' rs').
                mc_expected_generation c = expected \<longrightarrow> mc_change_id c = winner))"
proof -
  let ?t = "applied_changes region es rs" and ?t' = "applied_changes region es' rs'"
  have log: "group_log es" "group_log es'" using assms(2) by simp_all
  have st: "manifest_state region ?t (sm_engine sm)"
    using manifest_run [OF fresh_inv [OF assms(1)] fresh_manifest log(1) assms(3)] by simp
  obtain r w where "group_inv ident r w sm" using fresh_reaches [OF assms(1) log(1) assms(3)] .
  from manifest_run [OF this st log(2) assms(4)] have chain: "chain_ok region (?t @ ?t')" by (simp add: manifest_state_def)
  have pair: "pair = pair_of ?t" using state_pair [OF st] assms(5) by simp
  have len: "length ?t < 2 ^ 64" using st by (simp add: manifest_state_def chain_ok_def)
  have head: "\<exists>c. ?t ! unat expected = c \<and> unat expected < length ?t \<and> mc_change_id c = mp_last_change_id pair
      \<and> mc_expected_generation c = expected"
    if "checked_add expected 1 = Some (mp_generation pair)"
  proof -
    have n: "length ?t = Suc (unat expected)"
      using checked_add_SomeD [OF that] unat_of_nat_u64 [OF len] by (simp add: pair pair_of_def)
    then have "?t \<noteq> []" by auto
    with n have "last ?t = ?t ! unat expected" "?t \<noteq> []" by (simp_all add: last_conv_nth)
    moreover have "mc_expected_generation (?t ! unat expected) = expected"
      using st n of_nat_unat_u64 [of expected] by (simp add: manifest_state_def chain_ok_def)
    ultimately show ?thesis using n by (auto simp: pair pair_of_def)
  qed
  have uniq: "c = ?t ! unat expected" if "c \<in> set (?t @ ?t')" "mc_expected_generation c = expected" "unat expected < length ?t" for c
  proof -
    obtain i where i: "i < length (?t @ ?t')" "(?t @ ?t') ! i = c" using \<open>c \<in> set (?t @ ?t')\<close> by (meson in_set_conv_nth)
    then have "i = unat expected" using chain that(2) unat_of_nat_u64 [of i] by (auto simp: chain_ok_def)
    with i that(3) show ?thesis by (simp add: nth_append)
  qed
  show ?thesis
    unfolding classify_iff
  proof (intro conjI allI impI ballI; elim conjE)
    fix g assume *: "checked_add expected 1 = Some (mp_generation pair)" "mp_last_change_id pair = change_id" "g = mp_generation pair"
    from head [OF *(1)] *(2) show "\<exists>c\<in>set ?t. mc_expected_generation c = expected \<and> mc_change_id c = change_id"
      by (metis nth_mem)
    show "unat g = unat expected + 1" using checked_add_SomeD [OF *(1)] *(3) by simp
  next
    fix winner c assume *: "checked_add expected 1 = Some (mp_generation pair)" "winner = mp_last_change_id pair"
      "c \<in> set (?t @ ?t')" "mc_expected_generation c = expected"
    with head [OF *(1)] uniq [OF *(3,4)] show "mc_change_id c = winner" by auto
  qed simp
qed

text \<open>Two changes race for the first generation of a region.\<close>

definition sample_change :: "byte \<Rightarrow> manifest_change_payload" where
  "sample_change i = \<lparr>mc_region = 100, mc_change_id = [i], mc_expected_generation = 0, mc_changeset = [],
     mc_watermark_term = 1, mc_watermark_index = 1\<rparr>"

lemma sample_change_ok: "command_ok (ManifestChange (sample_change i))"
  by (simp add: sample_change_def payload_fits_def)

lemma sample_change_step:
  assumes "kv_advances at (sm_engine sm)" "sm_applied sm < ap_index at" "1 < ap_index at"
    and "sm_manifest_pair kv_store sm 100 = Inr pair"
  shows "apply_unobserved sha256 J kv_store at (ManifestChange (sample_change i)) sm =
    (sm\<lparr>sm_engine := kv_apply (snd (manifest_cas at (sample_change i) pair None)) at (sm_engine sm), sm_applied := ap_index at\<rparr>,
     Inr \<lparr>ar_applied_index = ap_index at, ar_response = None,
          ar_outcome = ManifestOutcome (fst (manifest_cas at (sample_change i) pair None))\<rparr>)"
proof -
  have "checkpoint_error sha256 J sm (ManifestChange (sample_change i)) (sample_change i) = Inr None"
    by (simp add: checkpoint_error_def sample_change_def is_checkpoint_def starts_with_def CHECKPOINT_PREFIX_def)
  moreover have "sm_manifest_pair kv_store sm (mc_region (sample_change i)) = Inr pair"
    using assms(4) by (simp add: sample_change_def)
  ultimately show ?thesis
    using assms(1,2) by (simp add: apply_unobserved_def plan_command_simps plan_manifest_def sm_commit_def plan_of_def case_prod_beta)
qed

definition sample_won :: "kv_state state_machine" where
  "sample_won = (fresh_group kv_store sample_ident kv_empty)\<lparr>sm_engine :=
     kv_apply [Put Default (manifest_pair_key 100) (mp_encode \<lparr>mp_generation = 1, mp_last_change_id = [1]\<rparr>),
       Put Default (manifest_gen_key 100 1) (installed_manifest (sample_change 1))] \<lparr>ap_term = 1, ap_index = 2\<rparr> kv_empty,
     sm_applied := 2\<rparr>"

lemma sample_won_pair: "sm_manifest_pair kv_store sample_won 100 = Inr \<lparr>mp_generation = 1, mp_last_change_id = [1]\<rparr>"
  by (simp add: sample_won_def sm_manifest_pair_def mp_decode_def mp_encode_def)

lemma sample_win:
  "drive_apply sha256 J kv_store [sample_entry 2 (ManifestChange (sample_change 1))] (fresh_group kv_store sample_ident kv_empty)
     = (sample_won, Inr [\<lparr>ar_applied_index = 2, ar_response = None, ar_outcome = ManifestOutcome (VerdictApplied 100 1)\<rparr>])"
proof -
  have "manifest_cas \<lparr>ap_term = 1, ap_index = 2\<rparr> (sample_change 1) virgin_pair None =
      (VerdictApplied 100 1,
       [Put Default (manifest_pair_key 100) (mp_encode \<lparr>mp_generation = 1, mp_last_change_id = [1]\<rparr>),
        Put Default (manifest_gen_key 100 1) (installed_manifest (sample_change 1))])"
    by (simp add: manifest_cas_def sample_change_def virgin_pair_def checked_add_def batch_put_def word_le_nat_alt)
  then show ?thesis
    using sample_change_step [of "\<lparr>ap_term = 1, ap_index = 2\<rparr>" "fresh_group kv_store sample_ident kv_empty" virgin_pair sha256 J 1]
    by (simp add: drive_one [OF sample_change_ok] fresh_group_def sm_manifest_pair_def sample_won_def del: drive_apply.simps(2))
qed

lemma sample_lose:
  "\<exists>sm. drive_apply sha256 J kv_store [sample_entry 3 (ManifestChange (sample_change 2))] sample_won
     = (sm, Inr [\<lparr>ar_applied_index = 3, ar_response = None, ar_outcome = ManifestOutcome (VerdictStale 100 1)\<rparr>])"
proof -
  have "manifest_cas \<lparr>ap_term = 1, ap_index = 3\<rparr> (sample_change 2) \<lparr>mp_generation = 1, mp_last_change_id = [1]\<rparr> None =
      (VerdictStale 100 1, [])"
    by (simp add: manifest_cas_def sample_change_def word_le_nat_alt)
  then show ?thesis
    using sample_change_step [of "\<lparr>ap_term = 1, ap_index = 3\<rparr>" sample_won _ sha256 J 2, OF _ _ _ sample_won_pair]
    by (simp add: drive_one [OF sample_change_ok] sample_won_def del: drive_apply.simps(2))
qed

lemma sample_race_log:
  "group_log ([sample_entry 2 (ManifestChange (sample_change 1))] @ [sample_entry 3 (ManifestChange (sample_change 2))])"
  by (simp add: sample_entry_ok [OF sample_change_ok]) (simp add: group_cmd_def)

lemma sample_race_changes:
  "applied_changes 100 [sample_entry 2 (ManifestChange (sample_change 1))]
     [\<lparr>ar_applied_index = 2, ar_response = None, ar_outcome = ManifestOutcome (VerdictApplied 100 1)\<rparr>] = [sample_change 1]"
  by (simp add: sample_entry_def cmd_decode_encode [OF sample_change_ok] applied_of_def) (simp add: sample_change_def)

theorem manifest_is_applied_changes_witness:
  "sm_manifest_pair kv_store sample_won 100 = Inr \<lparr>mp_generation = 1, mp_last_change_id = [1]\<rparr>
   \<and> sm_manifest_at kv_store sample_won 100 1 = Inr (Some (1, 1, [])) \<and> sm_manifest_at kv_store sample_won 100 2 = Inr None"
proof -
  have "group_log [sample_entry 2 (ManifestChange (sample_change 1))]" using sample_race_log by simp
  from manifest_is_applied_changes [OF sample_identity this sample_win [of "\<lambda>_. 0" flat_json] sample_race_changes]
  have "sm_manifest_at kv_store sample_won 100 1 = Inr (Some (1, 1, []))" "sm_manifest_at kv_store sample_won 100 2 = Inr None"
    by (simp_all add: sample_change_def)
  then show ?thesis using sample_won_pair by blast
qed

theorem reconciliation_sound_witness:
  "classify_reconciliation \<lparr>mp_generation = 1, mp_last_change_id = [1]\<rparr> 0 [2] = KnownNotApplied [1]
   \<and> mc_change_id (hd (applied_changes 100 [sample_entry 2 (ManifestChange (sample_change 1))]
       [\<lparr>ar_applied_index = 2, ar_response = None, ar_outcome = ManifestOutcome (VerdictApplied 100 1)\<rparr>])) = [1]"
proof -
  obtain sm where lose: "drive_apply (\<lambda>_. 0) flat_json kv_store [sample_entry 3 (ManifestChange (sample_change 2))] sample_won
     = (sm, Inr [\<lparr>ar_applied_index = 3, ar_response = None, ar_outcome = ManifestOutcome (VerdictStale 100 1)\<rparr>])"
    using sample_lose by blast
  have c: "classify_reconciliation \<lparr>mp_generation = 1, mp_last_change_id = [1]\<rparr> 0 [2] = KnownNotApplied [1]"
    by (simp add: classify_reconciliation_def checked_add_def)
  moreover have "mc_expected_generation (sample_change 1) = 0" by (simp add: sample_change_def)
  ultimately show ?thesis
    using reconciliation_sound [OF sample_identity sample_race_log sample_win lose sample_won_pair, of 0 "[2]"]
    unfolding sample_race_changes by simp
qed

end
