(* ===== verification/GroupLive.thy ===== *)
theory GroupLive
  imports GroupTtl ManifestLog
begin

text \<open>
  Progress of ordered apply: the entries a correct leader commits to a data group never stop its
  replicas. Every expiry record and every manifest pair in the engine was written by apply and reads
  back, so no well-formed entry for this group can fail, and each one advances the applied index.
\<close>

section \<open>What apply wrote reads back\<close>

definition expiry_ok :: "kv_state \<Rightarrow> bool" where
  "expiry_ok a \<longleftrightarrow> (\<forall>key v. kv_get a Write key = Some v \<longrightarrow> (\<exists>e. er_valid e \<and> v = er_encode e))"

definition expiry_value :: "bytes option \<Rightarrow> bool" where
  "expiry_value v \<longleftrightarrow> (\<forall>b. v = Some b \<longrightarrow> (\<exists>e. er_valid e \<and> b = er_encode e))"

lemma expiry_ok_alt: "expiry_ok a \<longleftrightarrow> (\<forall>key. expiry_value (kv_get a Write key))"
  by (auto simp: expiry_ok_def expiry_value_def)

lemma batch_value_expiry:
  "expiry_value old \<Longrightarrow> (\<And>m. m \<in> set b \<Longrightarrow> mutation_cf m = Write \<Longrightarrow> expiry_value (mutation_value m)) \<Longrightarrow>
     expiry_value (batch_value Write key b old)"
proof (induction b arbitrary: old)
  case (Cons m b)
  then show ?case by simp
qed simp

lemma effect_expiry:
  assumes "ttl_action_effect kv_store a at c w = Inr (clock, b)" "m \<in> set b" "mutation_cf m = Write"
  shows "expiry_value (mutation_value m)"
proof (cases "rt_action c")
  case (TtlWrite pl ms)
  with assms(1) obtain e where e: "at_write pl (rt_creation c) at = Inr e" "ttl_mutations (rt_keyspace c) e ms [] = Inr b"
    by (auto simp: ttl_action_effect_def bind_res_Inr_iff)
  have valid: "er_valid x" if "e = Some x" for x
    using e(1) that by (auto simp: at_write_def bind_res_Inr_iff er_new_Inr er_valid_def split: option.splits)
  from ttl_mutations_eq [OF e(2)] assms(2) obtain x where x: "m \<in> set (ttl_pair (rt_keyspace c) e x)" by auto
  then show ?thesis
    using assms(3) valid by (cases x; cases e) (auto simp: expiry_value_def)
next
  case (Cleanup cs)
  with assms(1) have "ttl_cleanup kv_store a (rt_keyspace c) w cs [] = Inr b"
    by (auto simp: ttl_action_effect_def bind_res_Inr_iff)
  from ttl_cleanup_touch [OF this assms(2)] show ?thesis by (auto simp: expiry_value_def)
qed (use assms in \<open>auto simp: ttl_action_effect_def\<close>)

lemma plan_expiry:
  assumes "group_inv ident r w sm" "group_cmd cmd" "plan_command sha256 J kv_store at cmd sm = Inr p"
    and "m \<in> set (pl_batch p)" "mutation_cf m = Write"
  shows "expiry_value (mutation_value m)"
proof (cases "\<exists>c. cmd = RawTtlCmd c")
  case True
  then obtain c where "cmd = RawTtlCmd c" by blast
  with assms(3) have "plan_raw_ttl kv_store at c sm = Inr p" by (simp add: plan_command_simps)
  then show ?thesis
  proof (cases rule: plan_ttl_cases [OF assms(1), consumes 1, case_names refused accepted])
    case (accepted rg clock b)
    with assms(4,5) have "m \<in> set b" by (auto split: if_splits)
    from effect_expiry [OF accepted(4) this assms(5)] show ?thesis .
  qed (use assms(4) in simp)
next
  case False
  with assms(2) obtain fence ops where "cmd = Fenced fence (FencedWrite ops) \<or> cmd_fence cmd = None"
    by (cases cmd) (auto simp: cmd_fence_def group_cmd_def, metis fenced_inner.exhaust)
  then show ?thesis
  proof
    assume "cmd_fence cmd = None"
    with plan_touch_fenced [OF assms(1-4)] assms(5) show ?thesis by auto
  next
    assume "cmd = Fenced fence (FencedWrite ops)"
    with assms(3) have "plan_command sha256 J kv_store at (Fenced fence (FencedWrite ops)) sm = Inr p" by simp
    then show ?thesis
    proof (cases rule: plan_fenced_cases [OF assms(1), consumes 1, case_names refused accepted])
      case (accepted rg)
      then obtain op where "m = op_mutation op" "op_in_range rg op" "\<not> dr_sealed rg"
        using assms(4) by (auto simp: plan_of_def list_all_iff rf_matches_def)
      with op_range_key [of rg op] assms(5) show ?thesis by simp
    qed (use assms(4) in simp)
  qed
qed

definition live_inv :: "group_identity \<Rightarrow> kv_state state_machine \<Rightarrow> bool" where
  "live_inv ident sm \<longleftrightarrow> (\<exists>r w. group_inv ident r w sm) \<and> expiry_ok (sm_engine sm)
     \<and> (\<forall>region. \<exists>t. manifest_state region t (sm_engine sm))"

lemma live_inv_step:
  assumes "live_inv ident sm" "group_cmd cmd" "apply_unobserved sha256 J kv_store at cmd sm = (sm', res)"
  shows "live_inv ident sm'"
proof -
  obtain r w where inv: "group_inv ident r w sm" using assms(1) by (auto simp: live_inv_def)
  from assms(3) show ?thesis
  proof (cases rule: unobserved_cases [OF inv assms(2), consumes 1, case_names skipped failed committed])
    case (committed p r' w')
    have "expiry_ok (sm_engine sm')"
      using assms(1) inv batch_value_expiry plan_expiry [OF inv assms(2) committed(2)] committed(4)
      by (simp add: live_inv_def expiry_ok_alt group_inv_def)
    moreover have "\<exists>t. manifest_state region t (sm_engine sm')" for region
      using assms(1) manifest_step [OF inv assms(2) committed(2)] committed(4) unfolding live_inv_def by metis
    ultimately show ?thesis using committed(6) by (auto simp: live_inv_def)
  qed (use assms(1) in auto)
qed

lemma live_fresh: "identity_ok ident \<Longrightarrow> live_inv ident (fresh_group kv_store ident kv_empty)"
  using fresh_inv [of ident] fresh_manifest by (auto simp: live_inv_def expiry_ok_def fresh_group_def)

section \<open>Entries that cannot fail\<close>

text \<open>
  What a correct leader commits: range and confirmation entries name this group, checkpoint images
  decode, fenced writes leave the reserved TTL records alone. Nothing is asked of the epoch, range or
  identity of writes and TTL commands; foreign and stale ones are refused with a receipt.
\<close>

definition well_addressed :: "(bytes \<Rightarrow> digest) \<Rightarrow> json_ops \<Rightarrow> group_identity \<Rightarrow> command \<Rightarrow> bool" where
  "well_addressed sha256 J ident cmd =
     (case cmd of
        DataRangeCmd expected nxt \<Rightarrow> range_identity nxt = ident
      | CompactionConfirmed region floor \<Rightarrow> region = fst (snd ident)
      | Fenced fence (FencedWrite ops) \<Rightarrow> list_all (\<lambda>op. let (cf, key) = kv_op_target op in \<not> reserved cf key) ops
      | PutCmd cf key val \<Rightarrow> False
      | CatalogTxn ops \<Rightarrow> False
      | WriteCmd ops \<Rightarrow> False
      | _ \<Rightarrow>
          (case change_of cmd of None \<Rightarrow> True
           | Some c \<Rightarrow> is_checkpoint (mc_changeset c) \<longrightarrow>
               (\<exists>cp id. decode_checkpoint_manifest J cmd (mc_changeset c) = Inr cp
                  \<and> cm_change_id sha256 J cp (mc_expected_generation c) = Inr id)))"

lemma well_addressed_group: "well_addressed sha256 J ident cmd \<Longrightarrow> group_cmd cmd"
  by (cases cmd) (auto simp: well_addressed_def group_cmd_def)

definition live_entry :: "(bytes \<Rightarrow> digest) \<Rightarrow> json_ops \<Rightarrow> group_identity \<Rightarrow> committed_entry \<Rightarrow> bool" where
  "live_entry sha256 J ident e \<longleftrightarrow>
     (ce_kind e = CommandEntry \<longrightarrow> ce_term e \<noteq> 0 \<and> ce_index e \<noteq> 0
        \<and> (\<exists>cmd. cmd_decode (ce_data e) = Inr cmd \<and> well_addressed sha256 J ident cmd))"

lemma cleanup_total:
  "expiry_ok a \<Longrightarrow> ks \<le> KEYSPACE_MAX \<Longrightarrow> \<exists>b'. ttl_cleanup kv_store a ks clock cs b = Inr b'"
proof (induction cs arbitrary: b)
  case (Cons c cs)
  obtain user obs where c: "c = (user, obs)" by fastforce
  have "\<exists>cur. read_as kv_store a Write (phys ks user) er_decode = Inr cur"
    using Cons.prems(1) by (cases "kv_get a Write (phys ks user)") (auto simp: read_as_def expiry_ok_def er_codec bind_res_Inr_iff)
  then obtain cur where "read_as kv_store a Write (phys ks user) er_decode = Inr cur" by blast
  with Cons show ?case by (simp add: c encode_raw)
qed simp

lemma effect_total:
  assumes "expiry_ok a" "scope_ok c" "ap_term at \<noteq> 0" "ap_index at \<noteq> 0"
  shows "\<exists>x. ttl_action_effect kv_store a at c w = Inr x"
proof -
  have ks: "rt_keyspace c \<le> KEYSPACE_MAX" "rt_creation c \<noteq> 0" using assms(2) by (auto simp: scope_ok_def)
  show ?thesis
  proof (cases "rt_action c")
    case (TtlWrite pl ms)
    have "\<exists>e. at_write pl (rt_creation c) at = Inr e"
      using ks(2) assms(3,4) by (cases "ep_expires_at_ms pl") (auto simp: at_write_def er_new_def)
    with ttl_mutations_ok [OF ks(1)] TtlWrite show ?thesis by (auto simp: ttl_action_effect_def)
  next
    case (Cleanup cs)
    with cleanup_total [OF assms(1) ks(1)] show ?thesis
      by (simp add: ttl_action_effect_def) (metis bind_res_simps(2))
  qed (simp_all add: ttl_action_effect_def)
qed

lemma plan_ttl_total:
  assumes "group_inv ident r w sm" "expiry_ok (sm_engine sm)" "scope_ok c" "ap_term at \<noteq> 0" "ap_index at \<noteq> 0"
  shows "\<exists>p. plan_raw_ttl kv_store at c sm = Inr p"
proof -
  have inv: "sm_data_identity sm = Some ident" "read_as kv_store (sm_engine sm) Default RANGE_KEY dr_decode = Inr r"
    "read_as kv_store (sm_engine sm) Default CLOCK_KEY wm_decode = Inr w" "sm_ttl_enabled sm \<longleftrightarrow> w \<noteq> None"
    "\<And>r'. r = Some r' \<Longrightarrow> range_identity r' = ident"
    using assms(1) by (auto simp: group_inv_def read_range read_clock)
  have own: "\<not> (case r of None \<Rightarrow> False | Some r' \<Rightarrow> range_identity r' \<noteq> ident)"
    using inv(5) by (simp split: option.splits)
  obtain x where "ttl_action_effect kv_store (sm_engine sm) at c (case w of None \<Rightarrow> 0 | Some x \<Rightarrow> x) = Inr x"
    using effect_total [OF assms(2-5)] by blast
  then show ?thesis
    unfolding plan_raw_ttl_def using inv(1-4) own by (cases x) (simp add: Let_def del: not_None_eq)
qed

lemma plan_total:
  assumes "live_inv ident sm" "well_addressed sha256 J ident cmd" "command_ok cmd" "ap_term at \<noteq> 0" "ap_index at \<noteq> 0"
  shows "\<exists>p. plan_command sha256 J kv_store at cmd sm = Inr p"
proof -
  obtain r w where inv: "group_inv ident r w sm" and ex: "expiry_ok (sm_engine sm)" using assms(1) by (auto simp: live_inv_def)
  have i: "sm_data_identity sm = Some ident" "read_as kv_store (sm_engine sm) Default RANGE_KEY dr_decode = Inr r"
    "\<And>r'. r = Some r' \<Longrightarrow> range_identity r' = ident" "sm_adjudicator sm = Some (range_fence kv_store ident)"
    "rf_current kv_store ident (sm_engine sm) = Inr r"
    using inv group_current [OF inv] by (auto simp: group_inv_def read_range)
  have pair: "\<exists>cur. sm_manifest_pair kv_store sm region = Inr cur" for region
    using assms(1) state_pair [of region _ sm] unfolding live_inv_def by metis
  have change: "\<exists>p. plan_manifest sha256 J kv_store at cmd c sm = Inr p" if "change_of cmd = Some c" for c
  proof -
    have "\<exists>bad. checkpoint_error sha256 J sm cmd c = Inr bad"
    proof (cases "is_checkpoint (mc_changeset c)")
      case True
      with assms(2) that obtain cp id where "decode_checkpoint_manifest J cmd (mc_changeset c) = Inr cp"
        "cm_change_id sha256 J cp (mc_expected_generation c) = Inr id"
        by (cases cmd) (auto simp: well_addressed_def change_of_def)
      with True i(4,5) show ?thesis by (simp add: checkpoint_error_def range_fence_def rf_is_fresh_def Let_def)
    qed (simp add: checkpoint_error_def)
    with pair [of "mc_region c"] show ?thesis by (auto simp: plan_manifest_def case_prod_beta)
  qed
  show ?thesis
  proof (cases cmd)
    case (RawTtlCmd c)
    with assms(3) have "scope_ok c" using rt_validate_iff [of c] by (simp add: ttl_ok_def)
    with plan_ttl_total [OF inv ex _ assms(4,5)] RawTtlCmd show ?thesis by (simp add: plan_command_simps)
  next
    case (DataRangeCmd expected nxt)
    with assms(2,3) i(1-3) show ?thesis
      by (cases r) (simp_all add: plan_command_simps plan_data_range_def well_addressed_def Let_def)
  next
    case (CompactionConfirmed region floor)
    with assms(2) i(1) show ?thesis
      by (cases ident) (simp add: plan_command_simps plan_compaction_confirmed_def well_addressed_def Let_def)
  next
    case (Fenced fence inner)
    obtain ops where ops: "inner = FencedWrite ops" by (cases inner)
    have "\<exists>g. guard_legacy_ttl cmd sm = Inr g"
      using Fenced ops i(1) assms(2)
      by (cases ident) (auto simp: guard_legacy_ttl_def legacy_ops_def well_addressed_def list_ex_iff list_all_iff case_prod_beta)
    moreover have "\<exists>p. plan_fenced fence inner sm = Inr p"
      using ops i(4,5) by (cases r) (simp_all add: plan_fenced_def range_fence_def rf_is_fresh_write_def)
    ultimately show ?thesis using Fenced by (auto simp: plan_command_def split: option.splits)
  qed (use change assms(2) in \<open>auto simp: plan_command_simps change_of_def well_addressed_def\<close>)
qed

lemma decode_command_ok: "cmd_decode b = Inr cmd \<Longrightarrow> command_ok cmd"
proof -
  assume "cmd_decode b = Inr cmd"
  then obtain tag buf where "rd_body (length b) tag buf = Inr (cmd, [])"
    by (auto simp: cmd_decode_def bind_res_Inr_iff split: if_splits)
  from rd_body_Inr [OF this] show ?thesis by blast
qed

lemma live_apply:
  assumes "live_inv ident sm" "ce_kind e = CommandEntry" "live_entry sha256 J ident e"
  shows "\<exists>sm' x. sm_apply sha256 J kv_store e sm = (sm', Inr x) \<and> live_inv ident sm' \<and> ar_applied_index x = ce_index e
    \<and> sm_applied sm \<le> sm_applied sm' \<and> ce_index e \<le> sm_applied sm'"
proof -
  from assms(2,3) obtain cmd where cmd: "cmd_decode (ce_data e) = Inr cmd" "well_addressed sha256 J ident cmd"
    and pos: "ce_term e \<noteq> 0" "ce_index e \<noteq> 0"
    by (auto simp: live_entry_def)
  let ?at = "\<lparr>ap_term = ce_term e, ap_index = ce_index e\<rparr>"
  obtain r w where inv: "group_inv ident r w sm" using assms(1) by (auto simp: live_inv_def)
  obtain sm' res where ap: "apply_unobserved sha256 J kv_store ?at cmd sm = (sm', res)" by fastforce
  have grp: "group_cmd cmd" using well_addressed_group [OF cmd(2)] .
  obtain p where "plan_command sha256 J kv_store ?at cmd sm = Inr p"
    using plan_total [OF assms(1) cmd(2) decode_command_ok [OF cmd(1)], of ?at] pos by auto
  with ap have "\<exists>x. res = Inr x \<and> ar_applied_index x = ce_index e"
    by (cases rule: unobserved_cases [OF inv grp, consumes 1]) (auto simp: write_ok_def)
  then obtain x where x: "res = Inr x" "ar_applied_index x = ce_index e" by blast
  with ap cmd(1) have "sm_apply sha256 J kv_store e sm = (sm', Inr x)" by (simp add: sm_apply_def apply_at_def)
  with x live_inv_step [OF assms(1) grp ap] unobserved_mono [OF inv grp ap] show ?thesis by auto
qed

lemma live_log_abstract:
  assumes "identity_ok ident" "list_all (live_entry sha256 J ident) es"
  shows "\<exists>sm rs. drive_apply sha256 J kv_store es (fresh_group kv_store ident kv_empty) = (sm, Inr rs)
    \<and> map ar_applied_index rs = map ce_index [e\<leftarrow>es. ce_kind e = CommandEntry]
    \<and> (\<forall>e\<in>set es. ce_kind e = CommandEntry \<longrightarrow> ce_index e \<le> sm_applied sm)"
proof -
  have "\<exists>sm' rs. drive_apply sha256 J kv_store es sm = (sm', Inr rs)
      \<and> map ar_applied_index rs = map ce_index [e\<leftarrow>es. ce_kind e = CommandEntry]
      \<and> sm_applied sm \<le> sm_applied sm' \<and> (\<forall>e\<in>set es. ce_kind e = CommandEntry \<longrightarrow> ce_index e \<le> sm_applied sm')"
    if "live_inv ident sm" for sm
    using that assms(2)
  proof (induction es arbitrary: sm)
    case (Cons e es)
    show ?case
    proof (cases "ce_kind e = CommandEntry")
      case True
      have "live_entry sha256 J ident e" using Cons.prems(2) by simp
      from live_apply [OF Cons.prems(1) True this] obtain sm1 x where
        one: "sm_apply sha256 J kv_store e sm = (sm1, Inr x)" "live_inv ident sm1" "ar_applied_index x = ce_index e"
          "sm_applied sm \<le> sm_applied sm1" "ce_index e \<le> sm_applied sm1"
        by blast
      from Cons.IH [OF one(2)] Cons.prems(2) obtain sm2 rs where
        "drive_apply sha256 J kv_store es sm1 = (sm2, Inr rs)"
        "map ar_applied_index rs = map ce_index [e\<leftarrow>es. ce_kind e = CommandEntry]" "sm_applied sm1 \<le> sm_applied sm2"
        "\<forall>e\<in>set es. ce_kind e = CommandEntry \<longrightarrow> ce_index e \<le> sm_applied sm2"
        by auto
      with one True show ?thesis by (intro exI [of _ sm2] exI [of _ "x # rs"]) auto
    qed (use Cons in auto)
  qed simp
  with live_fresh [OF assms(1)] show ?thesis by blast
qed

text \<open>On a concrete engine the only way out is a failure of the engine's own write.\<close>

context apply_store_laws
begin

lemma live_log_concrete:
  assumes "identity_ok ident" "list_all (live_entry sha256 J ident) es" "log_weight es < 2 ^ 64" "rep 0 s kv_empty"
    and run: "drive_apply sha256 J S es (fresh_group S ident s) = (sm, r)"
  shows "(\<exists>rs. r = Inr rs \<and> map ar_applied_index rs = map ce_index [e\<leftarrow>es. ce_kind e = CommandEntry]
      \<and> (\<forall>e\<in>set es. ce_kind e = CommandEntry \<longrightarrow> ce_index e \<le> sm_applied sm))
    \<or> (\<exists>x. engine_fails S rep x \<and> r = Inl x)"
proof -
  obtain asm rs where a: "drive_apply sha256 J kv_store es (fresh_group kv_store ident kv_empty) = (asm, Inr rs)"
    "map ar_applied_index rs = map ce_index [e\<leftarrow>es. ce_kind e = CommandEntry]"
    "\<forall>e\<in>set es. ce_kind e = CommandEntry \<longrightarrow> ce_index e \<le> sm_applied asm"
    using live_log_abstract [OF assms(1,2)] by blast
  have "in_step (fresh_group kv_store ident kv_empty)" by (simp add: in_step_def fresh_group_def kv_empty_def)
  from drive_sim_or [OF fresh_sim [OF assms(4), of ident] this _ run a(1)] assms(3)
  show ?thesis using a by (auto simp: sm_sim_def)
qed

end

context rpds_laws
begin

lemmas mem_live_log = ms.live_log_concrete [OF _ _ _ mem_new_rep]

end

context versioned_engine
begin

lemmas vm_live_log = vs.live_log_concrete [OF _ _ _ vm_new_rep]

lemma vm_refusal:
  assumes "engine_fails (vm_store B shard) (vm_rep brep) e"
  shows "e = OUT_OF_MEMORY"
proof -
  from assms obtain n sh a b at sh' where rep: "vm_rep brep n sh a" and adv: "kv_advances at a"
    and w: "vm_apply B sh b (Some at) = (sh', Inl e)"
    by (auto simp: engine_fails_def vm_store_def vm_write_applied_def)
  then obtain X where "holds brep sh X" by (auto simp: vm_rep_def)
  note stamps = apply_mutations_stamps [OF this]
  have "e \<noteq> POSITION_REFUSED" using vm_advances [OF rep adv] w by (auto simp: vm_write_applied_def)
  with w show ?thesis
    by (auto simp: vm_apply_def Let_def dest!: stamps split: if_splits prod.splits sum.splits)
qed

end

text \<open>
  C39. A well-formed log is applied to its end, or the engine runs out of memory. From a fresh data
  group, take any log whose entries decode, carry a real position and are addressed to the group - with
  stale or foreign fences, expired or repeated TTL commands, racing manifest changes, indexes
  repeated or out of order. On \<open>MemEngine\<close>, whose writes cannot fail, each command entry gets exactly
  one receipt, in order and for its own index, and the applied index reaches every entry. On
  \<open>VersionedMemEngine\<close> the same holds unless a tree insertion fails, and then the run stops with exactly
  that error: no content of the log can stop it.
\<close>

theorem well_formed_log_applies:
  assumes "rpds_laws R trep" and "bbtree_laws B brep" and "shard < REGISTRY_SHARDS"
    and "identity_ok ident" and "list_all (live_entry sha256 J ident) es" and "log_weight es < 2 ^ 64"
    and "open_group (mem_store R) ident (mem_new R) = Inr m" and "open_group (vm_store B shard) ident (vm_new B) = Inr v"
  shows "(\<exists>m' rs. drive_apply sha256 J (mem_store R) es m = (m', Inr rs)
      \<and> map ar_applied_index rs = map ce_index [e\<leftarrow>es. ce_kind e = CommandEntry]
      \<and> (\<forall>e\<in>set es. ce_kind e = CommandEntry \<longrightarrow> ce_index e \<le> sm_applied m'))
    \<and> (\<exists>v' res. drive_apply sha256 J (vm_store B shard) es v = (v', res)
      \<and> (res = Inl OUT_OF_MEMORY
         \<or> (\<exists>rs. res = Inr rs \<and> map ar_applied_index rs = map ce_index [e\<leftarrow>es. ce_kind e = CommandEntry]
            \<and> (\<forall>e\<in>set es. ce_kind e = CommandEntry \<longrightarrow> ce_index e \<le> sm_applied v'))))"
proof -
  have V: "versioned_engine B brep shard"
    using assms(2,3) by (intro versioned_engine.intro) (auto simp: versioned_engine_axioms_def)
  have m: "m = fresh_group (mem_store R) ident (mem_new R)"
    using rpds_laws.mem_open [OF assms(1,4)] assms(7) by (simp add: mem_store_def mem_applied_position_def)
  have v: "v = fresh_group (vm_store B shard) ident (vm_new B)"
    using versioned_engine.vm_open [OF V assms(4)] assms(8) by (simp add: vm_store_def vm_applied_position_def)
  obtain m' rm where dm: "drive_apply sha256 J (mem_store R) es m = (m', rm)" by fastforce
  obtain v' rv where dv: "drive_apply sha256 J (vm_store B shard) es v = (v', rv)" by fastforce
  have "\<exists>rs. rm = Inr rs \<and> map ar_applied_index rs = map ce_index [e\<leftarrow>es. ce_kind e = CommandEntry]
      \<and> (\<forall>e\<in>set es. ce_kind e = CommandEntry \<longrightarrow> ce_index e \<le> sm_applied m')"
    using rpds_laws.mem_live_log [OF assms(1,4-6) dm [unfolded m]] writes_never_fail [OF rpds_laws.mem_writes_succeed [OF assms(1)]] by blast
  moreover have "rv = Inl OUT_OF_MEMORY \<or> (\<exists>rs. rv = Inr rs \<and> map ar_applied_index rs = map ce_index [e\<leftarrow>es. ce_kind e = CommandEntry]
      \<and> (\<forall>e\<in>set es. ce_kind e = CommandEntry \<longrightarrow> ce_index e \<le> sm_applied v'))"
    using versioned_engine.vm_live_log [OF V assms(4-6) dv [unfolded v]] versioned_engine.vm_refusal [OF V] by blast
  ultimately show ?thesis using dm dv by auto
qed

theorem well_formed_log_applies_witness:
  "\<exists>m v m' v' rs vs. open_group (mem_store om_rpds) sample_ident (mem_new om_rpds) = Inr m
     \<and> open_group (vm_store om_bbtree 0) sample_ident (vm_new om_bbtree) = Inr v
     \<and> drive_apply (\<lambda>_. 0) flat_json (mem_store om_rpds) (sample_log @ [sample_entry 2 (RawTtlCmd (sample_ttl (Enable 5)))]) m = (m', Inr rs)
     \<and> map ar_applied_index rs = [1, 2, 3, 2]
     \<and> drive_apply (\<lambda>_. 0) flat_json (vm_store om_bbtree 0) (sample_log @ [sample_entry 2 (RawTtlCmd (sample_ttl (Enable 5)))]) v = (v', vs)
     \<and> (vs = Inl OUT_OF_MEMORY \<or> (\<exists>rs. vs = Inr rs \<and> map ar_applied_index rs = [1, 2, 3, 2]))"
proof -
  let ?live = "live_entry (\<lambda>_. 0) flat_json sample_ident"
  let ?es = "sample_log @ [sample_entry 2 (RawTtlCmd (sample_ttl (Enable 5)))]"
  have live: "?live \<lparr>ce_index = i, ce_term = 1, ce_kind = CommandEntry, ce_data = cmd_encode cmd\<rparr>"
    if "command_ok cmd" "well_addressed (\<lambda>_. 0) flat_json sample_ident cmd" "i \<noteq> 0" for i cmd
    using that by (simp add: live_entry_def cmd_decode_encode)
  have "well_addressed (\<lambda>_. 0) flat_json sample_ident (DataRangeCmd None range_sample)"
    "well_addressed (\<lambda>_. 0) flat_json sample_ident (sample_write version)"
    "well_addressed (\<lambda>_. 0) flat_json sample_ident (RawTtlCmd (sample_ttl (Enable 5)))" for version
    by (simp_all add: well_addressed_def sample_ident_def sample_write_def reserved_def sample_key_not_reserved change_of_def)
  then have es: "list_all ?live ?es"
    unfolding sample_log_def sample_entry_def
    by (simp add: live [OF sample_ok(1)] live [OF sample_ok(2)] live [OF sample_ttl_ok(1)])
  have "entry_weight (sample_entry 2 (RawTtlCmd (sample_ttl (Enable 5)))) \<le> 2"
    by (simp add: entry_weight_def sample_entry_def cmd_decode_encode [OF sample_ttl_ok(1)]) (simp add: cmd_weight_def sample_ttl_def)
  then have w: "log_weight ?es < 2 ^ 64" using sample_log_weight by (simp add: log_weight_def)
  have idx: "map ce_index [e\<leftarrow>?es. ce_kind e = CommandEntry] = [1, 2, 3, 2]" by (simp add: sample_log_def sample_entry_def)
  obtain m v where open_mv: "open_group (mem_store om_rpds) sample_ident (mem_new om_rpds) = Inr m"
    "open_group (vm_store om_bbtree 0) sample_ident (vm_new om_bbtree) = Inr v"
    using sorted_list.mem_open [OF sample_identity] roomy_engine.vm_open [OF sample_identity]
    by (simp add: mem_store_def mem_applied_position_def vm_store_def vm_applied_position_def)
  have "(0::nat) < REGISTRY_SHARDS" by (simp add: REGISTRY_SHARDS_def)
  from well_formed_log_applies [OF sorted_list.rpds_laws_axioms roomy.bbtree_laws_axioms this sample_identity es w open_mv]
  obtain m' rs v' vs where "drive_apply (\<lambda>_. 0) flat_json (mem_store om_rpds) ?es m = (m', Inr rs)"
    "map ar_applied_index rs = [1, 2, 3, 2]" "drive_apply (\<lambda>_. 0) flat_json (vm_store om_bbtree 0) ?es v = (v', vs)"
    "vs = Inl OUT_OF_MEMORY \<or> (\<exists>rs. vs = Inr rs \<and> map ar_applied_index rs = [1, 2, 3, 2])"
    unfolding idx by metis
  then show ?thesis using open_mv by metis
qed

end
