(* ===== verification/Driver.thy ===== *)
theory Driver
  imports GroupLive
begin

text \<open>
  The apply half of the node driver (\<open>crates/raft/src/driver.rs\<close>): the pump that applies the
  committed entries raft hands out, groups raw writes, records a receipt per command in a bounded
  ring, stops on the first failure, reports what it applied back to the peer and publishes one
  watermark; and the discriminator every waiter uses to learn what became of its proposal. The raft
  library and the peer's membership change are parameters: what the drain of a step returns, entries
  or the failure to persist them, and the function \<open>conf\<close> that applies a configuration entry.
\<close>

section \<open>State\<close>

definition APPLIED_RING :: nat where "APPLIED_RING = 1024"

definition CONF_RECEIPTS :: nat where "CONF_RECEIPTS = 64"

definition MAX_RAW_GROUP_BYTES :: nat where "MAX_RAW_GROUP_BYTES = 1024 * 1024"

record ring_entry =
  re_index :: u64
  re_term :: u64
  re_outcome :: apply_outcome

record conf_receipt_entry =
  cr_index :: u64
  cr_term :: u64
  cr_voters :: "u64 list"
  cr_learners :: "u64 list"

text \<open>The recorded failure: of a committed entry, with its position, or of the peer's storage.\<close>

datatype fatal = FatalEntry applied_position error | FatalPersistence error

record 's driver =
  dv_sm :: "'s state_machine"
  dv_applied :: "ring_entry list"
  dv_conf_receipts :: "conf_receipt_entry list"
  dv_fatal :: "fatal option"
  dv_driver_applied :: "applied_position option"
  dv_applied_reported :: u64

definition keep_last :: "nat \<Rightarrow> 'a list \<Rightarrow> 'a list" where
  "keep_last n xs = (if length xs > n then drop (length xs - n) xs else xs)"

definition push_ring :: "u64 \<Rightarrow> u64 \<Rightarrow> apply_outcome \<Rightarrow> ring_entry list \<Rightarrow> ring_entry list" where
  "push_ring index term outcome applied =
     keep_last APPLIED_RING (applied @ [\<lparr>re_index = index, re_term = term, re_outcome = outcome\<rparr>])"

definition poison :: "applied_position \<Rightarrow> error \<Rightarrow> 's driver \<Rightarrow> 's driver \<times> fatal" where
  "poison at cause d = (d\<lparr>dv_fatal := Some (FatalEntry at cause)\<rparr>, FatalEntry at cause)"

definition poison_persistence :: "error \<Rightarrow> 's driver \<Rightarrow> 's driver \<times> fatal" where
  "poison_persistence cause d =
     (let f = (case dv_fatal d of Some f \<Rightarrow> f | None \<Rightarrow> FatalPersistence cause) in (d\<lparr>dv_fatal := Some f\<rparr>, f))"

text \<open>The report to the peer, as far as the peer records it; a peer that failed itself fails the drain first.\<close>

definition applied_to :: "u64 \<Rightarrow> 's driver \<Rightarrow> 's driver" where
  "applied_to idx d = (if idx > dv_applied_reported d then d\<lparr>dv_applied_reported := idx\<rparr> else d)"

definition publish_driver_applied :: "applied_position \<Rightarrow> 's driver \<Rightarrow> 's driver" where
  "publish_driver_applied candidate d =
     (if (case dv_driver_applied d of None \<Rightarrow> True | Some cur \<Rightarrow> ap_index candidate > ap_index cur)
      then d\<lparr>dv_driver_applied := Some candidate\<rparr> else d)"

section \<open>The pump\<close>

definition entry_position :: "committed_entry \<Rightarrow> applied_position" where
  "entry_position e = \<lparr>ap_term = ce_term e, ap_index = ce_index e\<rparr>"

text \<open>The already queued raw entries that follow the first one, and what is left after them.\<close>

fun group_following ::
  "'s state_machine \<Rightarrow> nat \<Rightarrow> nat \<Rightarrow> committed_entry list \<Rightarrow> (applied_position \<times> command) list \<times> committed_entry list" where
  "group_following sm bytes count [] = ([], [])"
| "group_following sm bytes count (e # es) =
     (if count \<ge> MAX_RAW_GROUP_ENTRIES \<or> ce_kind e \<noteq> CommandEntry \<or> length (ce_data e) > MAX_RAW_GROUP_BYTES - bytes
      then ([], e # es)
      else case cmd_decode (ce_data e) of
        Inl _ \<Rightarrow> ([], e # es)
      | Inr cmd \<Rightarrow>
          if \<not> can_group_raw cmd sm then ([], e # es)
          else let (cmds, rest) = group_following sm (bytes + length (ce_data e)) (Suc count) es
            in ((entry_position e, cmd) # cmds, rest))"

definition coalesce ::
  "'s state_machine \<Rightarrow> committed_entry \<Rightarrow> command \<Rightarrow> committed_entry list \<Rightarrow> (applied_position \<times> command) list \<times> committed_entry list" where
  "coalesce sm entry cmd es =
     (if length (ce_data entry) \<le> MAX_RAW_GROUP_BYTES \<and> ce_index entry > sm_applied sm \<and> can_group_raw cmd sm
      then let (cmds, rest) = group_following sm (length (ce_data entry)) 1 es in ((entry_position entry, cmd) # cmds, rest)
      else ([(entry_position entry, cmd)], es))"

definition apply_commands ::
  "(bytes \<Rightarrow> digest) \<Rightarrow> json_ops \<Rightarrow> 's apply_store \<Rightarrow> (applied_position \<times> command) list \<Rightarrow> 's state_machine
    \<Rightarrow> 's state_machine \<times> apply_result list result" where
  "apply_commands sha256 J S cmds sm =
     (case cmds of
        [(at, cmd)] \<Rightarrow>
          (case apply_at sha256 J S None at cmd sm of (sm', Inl e) \<Rightarrow> (sm', Inl e) | (sm', Inr r) \<Rightarrow> (sm', Inr [r]))
      | _ \<Rightarrow> apply_raw_group S cmds sm)"

definition record_results ::
  "(applied_position \<times> command) list \<Rightarrow> apply_result list \<Rightarrow> ring_entry list \<Rightarrow> ring_entry list" where
  "record_results cmds results applied =
     fold (\<lambda>((at, _), r). push_ring (ap_index at) (ap_term at) (ar_outcome r)) (zip cmds results) applied"

lemma coalesce_rest: "coalesce sm entry cmd es = (cmds, rest) \<Longrightarrow> length rest \<le> length es"
proof -
  have "group_following sm bytes count es = (cmds, rest) \<Longrightarrow> length rest \<le> length es" for bytes count cmds
  proof (induction es arbitrary: bytes count cmds)
    case (Cons e es)
    then show ?case by (fastforce split: if_splits sum.splits prod.splits)
  qed simp
  moreover assume "coalesce sm entry cmd es = (cmds, rest)"
  ultimately show ?thesis by (fastforce simp: coalesce_def split: if_splits prod.splits)
qed

type_synonym conf_apply = "entry_kind \<Rightarrow> bytes \<Rightarrow> u64 \<Rightarrow> (u64 list \<times> u64 list) result"

function pump_entries ::
  "(bytes \<Rightarrow> digest) \<Rightarrow> json_ops \<Rightarrow> 's apply_store \<Rightarrow> conf_apply \<Rightarrow> committed_entry list \<Rightarrow> applied_position \<Rightarrow> 's driver
    \<Rightarrow> 's driver \<times> (fatal + applied_position)" where
  "pump_entries sha256 J S conf [] last_seen d = (d, Inr last_seen)"
| "pump_entries sha256 J S conf (entry # es) last_seen d =
     (let at = entry_position entry in
      case ce_kind entry of
        NoopEntry \<Rightarrow> pump_entries sha256 J S conf es at d
      | CommandEntry \<Rightarrow>
          (case cmd_decode (ce_data entry) of
             Inl e \<Rightarrow> (case poison at e d of (d, f) \<Rightarrow> (d, Inl f))
           | Inr cmd \<Rightarrow>
               if (case cmd of ConfChange _ _ \<Rightarrow> True | _ \<Rightarrow> False)
               then (case poison at (RaftError ''legacy Command::ConfChange is unwired'') d of (d, f) \<Rightarrow> (d, Inl f))
               else case coalesce (dv_sm d) entry cmd es of
                 (cmds, rest) \<Rightarrow>
                   (case apply_commands sha256 J S cmds (dv_sm d) of
                      (sm, Inl e) \<Rightarrow> (case poison (fst (last cmds)) e (d\<lparr>dv_sm := sm\<rparr>) of (d, f) \<Rightarrow> (d, Inl f))
                    | (sm, Inr results) \<Rightarrow>
                        pump_entries sha256 J S conf rest (fst (last cmds))
                          (d\<lparr>dv_sm := sm, dv_applied := record_results cmds results (dv_applied d)\<rparr>)))
      | kind \<Rightarrow>
          (case conf kind (ce_data entry) (ce_index entry) of
             Inl e \<Rightarrow> (case poison at e d of (d, f) \<Rightarrow> (d, Inl f))
           | Inr (voters, learners) \<Rightarrow>
               pump_entries sha256 J S conf es at
                 (d\<lparr>dv_conf_receipts := keep_last CONF_RECEIPTS (dv_conf_receipts d @
                      [\<lparr>cr_index = ce_index entry, cr_term = ce_term entry, cr_voters = voters, cr_learners = learners\<rparr>])\<rparr>)))"
  by pat_completeness auto
termination
  by (relation "measure (\<lambda>(_, _, _, _, es, _, _). length es)") (auto dest: coalesce_rest [OF sym])

definition step_apply ::
  "(bytes \<Rightarrow> digest) \<Rightarrow> json_ops \<Rightarrow> 's apply_store \<Rightarrow> conf_apply \<Rightarrow> committed_entry list result \<Rightarrow> 's driver
    \<Rightarrow> 's driver \<times> (fatal + unit)" where
  "step_apply sha256 J S conf ready d =
     (case dv_fatal d of
        Some f \<Rightarrow> (d, Inl f)
      | None \<Rightarrow>
          (case ready of
             Inl cause \<Rightarrow> (case poison_persistence cause d of (d, f) \<Rightarrow> (d, Inl f))
           | Inr entries \<Rightarrow>
               if entries = [] then (d, Inr ())
               else case pump_entries sha256 J S conf entries \<lparr>ap_term = 0, ap_index = 0\<rparr> d of
                 (d, Inl f) \<Rightarrow> (d, Inl f)
               | (d, Inr at) \<Rightarrow> (publish_driver_applied at (applied_to (ap_index at) d), Inr ())))"

section \<open>Waiting for a proposal\<close>

datatype apply_wait_outcome =
    WaitApplied applied_position
  | Replaced
  | WaitFenceRejected applied_position region_id
  | WaitRawTtlRejected applied_position region_id ttl_rejection
  | WaitManifest applied_position manifest_verdict

datatype apply_wait_error = Unconfirmed u64 | WaitFailed error

definition wait_outcome :: "applied_position \<Rightarrow> apply_outcome \<Rightarrow> apply_wait_outcome" where
  "wait_outcome at outcome =
     (case outcome of
        ManifestOutcome verdict \<Rightarrow> WaitManifest at verdict
      | FenceRejected region \<Rightarrow> WaitFenceRejected at region
      | RawTtlRejectedOutcome region reason \<Rightarrow> WaitRawTtlRejected at region reason
      | Plain \<Rightarrow> WaitApplied at)"

definition inspect_applied :: "applied_position \<Rightarrow> 's driver \<Rightarrow> (apply_wait_error + apply_wait_outcome) option" where
  "inspect_applied at d =
     (if dv_fatal d \<noteq> None then Some (Inl (WaitFailed (RaftError ''driver is poisoned'')))
      else case find (\<lambda>e. re_index e = ap_index at) (dv_applied d) of
        Some e \<Rightarrow>
          Some (Inr (if re_term e = ap_term at
                     then wait_outcome \<lparr>ap_term = re_term e, ap_index = re_index e\<rparr> (re_outcome e) else Replaced))
      | None \<Rightarrow>
          if length (dv_applied d) = APPLIED_RING \<and> (case dv_applied d of [] \<Rightarrow> False | e # _ \<Rightarrow> ap_index at < re_index e)
          then Some (Inl (Unconfirmed (ap_index at)))
          else if sm_applied (dv_sm d) \<ge> ap_index at
                  \<or> (case dv_driver_applied d of None \<Rightarrow> False | Some wm \<Rightarrow> ap_index wm \<ge> ap_index at)
          then Some (Inr Replaced)
          else None)"

section \<open>The pump applies the log\<close>

definition entry_command :: "committed_entry \<Rightarrow> applied_position \<times> command \<Rightarrow> bool" where
  "entry_command e c \<longleftrightarrow> ce_kind e = CommandEntry \<and> cmd_decode (ce_data e) = Inr (snd c) \<and> fst c = entry_position e"

lemma drive_as_seq: "list_all2 entry_command es cmds \<Longrightarrow> drive_apply sha256 J S es sm = apply_seq sha256 J S cmds sm"
proof (induction es cmds arbitrary: sm rule: list_all2_induct)
  case (Cons e es c cmds)
  then show ?case
    by (cases c) (simp add: entry_command_def sm_apply_def apply_at_def entry_position_def split: prod.splits sum.splits)
qed simp

lemma last_command: "list_all2 entry_command es cmds \<Longrightarrow> es \<noteq> [] \<Longrightarrow> fst (last cmds) = entry_position (last es)"
  by (induction es cmds rule: list_all2_induct) (auto simp: entry_command_def)

lemma group_following_split:
  "group_following sm bytes count es = (cmds, rest) \<Longrightarrow> \<exists>grp. es = grp @ rest \<and> list_all2 entry_command grp cmds"
proof (induction es arbitrary: bytes count cmds)
  case (Cons e es)
  show ?case
  proof (cases "rest = e # es \<and> cmds = []")
    case False
    with Cons.prems obtain cmd cmds' where "ce_kind e = CommandEntry" "cmd_decode (ce_data e) = Inr cmd"
      "cmds = (entry_position e, cmd) # cmds'" "group_following sm (bytes + length (ce_data e)) (Suc count) es = (cmds', rest)"
      by (auto split: if_splits sum.splits prod.splits)
    moreover from this Cons.IH obtain grp where "es = grp @ rest" "list_all2 entry_command grp cmds'" by blast
    moreover have "entry_command e (entry_position e, cmd)" using calculation by (simp add: entry_command_def)
    ultimately show ?thesis by (intro exI [of _ "e # grp"]) simp
  qed simp
qed simp

lemma coalesce_split:
  assumes "coalesce sm e cmd es = (cmds, rest)" "ce_kind e = CommandEntry" "cmd_decode (ce_data e) = Inr cmd"
  shows "\<exists>grp. es = grp @ rest \<and> list_all2 entry_command (e # grp) cmds"
  using assms group_following_split [of sm "length (ce_data e)" 1 es]
  by (fastforce simp: coalesce_def entry_command_def split: if_splits prod.splits)

lemma apply_commands_seq:
  assumes "group_inv ident r w sm" "apply_commands sha256 J kv_store cmds sm = (sm', Inr rs)"
  shows "apply_seq sha256 J kv_store cmds sm = (sm', Inr rs)"
proof -
  have i: "kv_ok (sm_engine sm)" "in_step sm" "sm_adjudicator sm = Some (range_fence kv_store ident)"
    using assms(1) by (auto simp: group_inv_def)
  show ?thesis
  proof (cases "\<exists>at cmd. cmds = [(at, cmd)]")
    case True
    with assms(2) show ?thesis
      by (auto simp: apply_commands_def apply_at_def split: prod.splits sum.splits)
  next
    case False
    with assms(2) have "apply_raw_group kv_store cmds sm = (sm', Inr rs)"
      by (auto simp: apply_commands_def split: list.splits)
    with raw_group_apply [OF i(1,2) _ this] i(3) show ?thesis by blast
  qed
qed

lemma apply_seq_length: "apply_seq sha256 J S cmds sm = (sm', Inr rs) \<Longrightarrow> length rs = length cmds"
proof (induction cmds arbitrary: sm rs)
  case (Cons c cmds)
  then show ?case by (cases c) (fastforce split: prod.splits sum.splits)
qed simp

text \<open>The ring keeps the last receipts.\<close>

definition receipts :: "committed_entry list \<Rightarrow> apply_result list \<Rightarrow> ring_entry list" where
  "receipts es rs = map (\<lambda>(e, r). \<lparr>re_index = ce_index e, re_term = ce_term e, re_outcome = ar_outcome r\<rparr>)
     (zip [e\<leftarrow>es. ce_kind e = CommandEntry] rs)"

lemma keep_last_alt: "keep_last n xs = drop (length xs - n) xs"
  by (simp add: keep_last_def)

lemma keep_last_append: "keep_last n (keep_last n xs @ ys) = keep_last n (xs @ ys)"
  by (cases "length xs \<le> n") (simp_all add: keep_last_alt add.commute)

lemma keep_last_short [simp]: "length xs \<le> n \<Longrightarrow> keep_last n xs = xs"
  by (simp add: keep_last_def)

lemma record_results_eq:
  assumes "list_all2 entry_command grp cmds" "length rs = length cmds" "length ring \<le> APPLIED_RING"
  shows "record_results cmds rs ring = keep_last APPLIED_RING (ring @ receipts grp rs)"
  using assms
proof (induction grp cmds arbitrary: rs ring rule: list_all2_induct)
  case Nil
  then show ?case by (simp add: record_results_def receipts_def)
next
  case (Cons e es c cmds)
  then obtain r rs' where rs: "rs = r # rs'" by (cases rs) auto
  obtain at cmd where c: "c = (at, cmd)" by fastforce
  with Cons.hyps(1) have at: "at = entry_position e" "ce_kind e = CommandEntry" by (auto simp: entry_command_def)
  let ?x = "\<lparr>re_index = ce_index e, re_term = ce_term e, re_outcome = ar_outcome r\<rparr>"
  have "length (keep_last APPLIED_RING (ring @ [?x])) \<le> APPLIED_RING" by (simp add: keep_last_alt)
  from Cons.IH [of rs', OF _ this] Cons.prems(1) rs have
    "record_results cmds rs' (keep_last APPLIED_RING (ring @ [?x])) = keep_last APPLIED_RING (ring @ ?x # receipts es rs')"
    by (simp add: keep_last_append)
  then show ?case by (simp add: record_results_def rs c at push_ring_def entry_position_def receipts_def)
qed

lemma drive_inv:
  assumes "group_inv ident r w sm" "group_log es" "drive_apply sha256 J kv_store es sm = (sm', Inr rs)"
  shows "\<exists>r' w'. group_inv ident r' w' sm'"
  using reaches_drive [OF assms] by blast

lemma drive_length:
  "drive_apply sha256 J S es sm = (sm', Inr rs) \<Longrightarrow> length rs = length [e\<leftarrow>es. ce_kind e = CommandEntry]"
proof (induction es arbitrary: sm rs)
  case (Cons e es)
  then show ?case by (fastforce split: if_splits prod.splits sum.splits)
qed simp

lemma receipts_append:
  assumes "length rs = length [e\<leftarrow>es. ce_kind e = CommandEntry]"
  shows "receipts (es @ es') (rs @ rs') = receipts es rs @ receipts es' rs'"
  using assms by (simp add: receipts_def zip_append)

text \<open>What a pump that ended well did, by its own recursion.\<close>

definition pumped ::
  "(bytes \<Rightarrow> digest) \<Rightarrow> json_ops \<Rightarrow> committed_entry list \<Rightarrow> kv_state driver \<Rightarrow> kv_state driver \<Rightarrow> apply_result list \<Rightarrow> bool" where
  "pumped sha256 J es d d' rs \<longleftrightarrow>
     drive_apply sha256 J kv_store es (dv_sm d) = (dv_sm d', Inr rs)
     \<and> dv_applied d' = keep_last APPLIED_RING (dv_applied d @ receipts es rs)
     \<and> dv_fatal d' = dv_fatal d \<and> dv_driver_applied d' = dv_driver_applied d
     \<and> dv_applied_reported d' = dv_applied_reported d"

lemma pumped_append:
  assumes "pumped sha256 J es d d1 rs" "pumped sha256 J es' d1 d2 rs'"
  shows "pumped sha256 J (es @ es') d d2 (rs @ rs')"
proof -
  have a: "drive_apply sha256 J kv_store es (dv_sm d) = (dv_sm d1, Inr rs)"
      "drive_apply sha256 J kv_store es' (dv_sm d1) = (dv_sm d2, Inr rs')"
      "dv_applied d1 = keep_last APPLIED_RING (dv_applied d @ receipts es rs)"
      "dv_applied d2 = keep_last APPLIED_RING (dv_applied d1 @ receipts es' rs')"
    using assms by (simp_all add: pumped_def)
  have "receipts (es @ es') (rs @ rs') = receipts es rs @ receipts es' rs'"
    using drive_length [OF a(1)] by (rule receipts_append)
  with assms a show ?thesis by (simp add: pumped_def drive_apply_append keep_last_append)
qed

lemma pump_entries_pumped:
  assumes "group_inv ident r w (dv_sm d)" "group_log es" "length (dv_applied d) \<le> APPLIED_RING"
    and "pump_entries sha256 J kv_store conf es ls d = (d', Inr ls')"
  shows "(\<exists>rs. pumped sha256 J es d d' rs) \<and> ls' = (if es = [] then ls else entry_position (last es))"
  using assms
proof (induction "length es" arbitrary: es ls d r w rule: less_induct)
  case less
  show ?case
  proof (cases es)
    case Nil
    with less.prems show ?thesis by (auto simp: pumped_def receipts_def)
  next
    case (Cons e tl)
    have skip: ?thesis if "ce_kind e \<noteq> CommandEntry" "pump_entries sha256 J kv_store conf tl (entry_position e) d1 = (d', Inr ls')"
      "dv_sm d1 = dv_sm d" "dv_applied d1 = dv_applied d" "dv_fatal d1 = dv_fatal d" "dv_driver_applied d1 = dv_driver_applied d"
      "dv_applied_reported d1 = dv_applied_reported d" for d1
    proof -
      have "pumped sha256 J [e] d d1 []" using that less.prems(3) by (simp add: pumped_def receipts_def)
      moreover have "(\<exists>rs. pumped sha256 J tl d1 d' rs) \<and> ls' = (if tl = [] then entry_position e else entry_position (last tl))"
        using less.hyps [OF _ _ _ _ that(2)] less.prems(1-3) that Cons by simp
      ultimately show ?thesis using pumped_append [of sha256 J "[e]" d d1 "[]" tl d'] Cons by fastforce
    qed
    show ?thesis
    proof (cases "ce_kind e = CommandEntry")
      case False
      then show ?thesis
        using less.prems(4) Cons skip
        by (cases "ce_kind e") (auto simp: poison_def Let_def split: sum.splits prod.splits)
    next
      case True
      with less.prems(4) Cons obtain cmd cmds rest sm1 rs where
        dec: "cmd_decode (ce_data e) = Inr cmd" and co: "coalesce (dv_sm d) e cmd tl = (cmds, rest)"
        and ap: "apply_commands sha256 J kv_store cmds (dv_sm d) = (sm1, Inr rs)"
        and more: "pump_entries sha256 J kv_store conf rest (fst (last cmds))
          (d\<lparr>dv_sm := sm1, dv_applied := record_results cmds rs (dv_applied d)\<rparr>) = (d', Inr ls')"
        by (auto simp: poison_def Let_def split: sum.splits prod.splits if_splits)
      from coalesce_split [OF co True dec] obtain grp where grp: "tl = grp @ rest" "list_all2 entry_command (e # grp) cmds" by blast
      let ?d = "d\<lparr>dv_sm := sm1, dv_applied := record_results cmds rs (dv_applied d)\<rparr>"
      have seq: "apply_seq sha256 J kv_store cmds (dv_sm d) = (sm1, Inr rs)" using apply_commands_seq [OF less.prems(1) ap] .
      have one: "pumped sha256 J (e # grp) d ?d rs"
        using drive_as_seq [OF grp(2), of sha256 J kv_store "dv_sm d"] seq record_results_eq [OF grp(2) apply_seq_length [OF seq] less.prems(3)]
        by (simp add: pumped_def del: drive_apply.simps(2))
      obtain r1 w1 where "group_inv ident r1 w1 sm1"
        using drive_inv [OF less.prems(1), of "e # grp" sha256 J sm1 rs] one less.prems(2) Cons grp(1)
        by (auto simp: pumped_def simp del: drive_apply.simps(2))
      moreover have "length (dv_applied ?d) \<le> APPLIED_RING" using one by (simp add: pumped_def keep_last_alt)
      moreover have "length rest < length es" using Cons grp(1) by simp
      ultimately have "(\<exists>rs. pumped sha256 J rest ?d d' rs)
          \<and> ls' = (if rest = [] then fst (last cmds) else entry_position (last rest))"
        using less.hyps [OF _ _ _ _ more] less.prems(2) Cons grp(1) by simp
      moreover have "fst (last cmds) = entry_position (last (e # grp))"
        using last_command [OF grp(2)] by simp
      ultimately show ?thesis using pumped_append [OF one] Cons grp(1) by fastforce
    qed
  qed
qed

section \<open>A driver's life\<close>

definition new_inner :: "'s state_machine \<Rightarrow> applied_position option \<Rightarrow> 's driver" where
  "new_inner sm installed_base = \<lparr>dv_sm = sm, dv_applied = [], dv_conf_receipts = [], dv_fatal = None,
     dv_driver_applied = installed_base, dv_applied_reported = 0\<rparr>"

definition new_driver :: "'s state_machine \<Rightarrow> 's driver" where
  "new_driver sm = new_inner sm None"

definition with_installed_base :: "'s state_machine \<Rightarrow> applied_position \<Rightarrow> 's driver result" where
  "with_installed_base sm base =
     (if ap_index base = 0 \<or> ap_term base = 0 then Inl (RaftError ''installed base requires an exact cut'')
      else if sm_applied sm < ap_index base then Inl (RaftError ''state machine watermark is behind the installed base'')
      else Inr (new_inner sm (Some base)))"

text \<open>The two ways to a driver.\<close>

definition opened_driver :: "'s state_machine \<Rightarrow> 's driver \<Rightarrow> bool" where
  "opened_driver sm d \<longleftrightarrow> d = new_driver sm \<or> (\<exists>base. with_installed_base sm base = Inr d)"

lemma opened_driver_fields:
  assumes "opened_driver sm d"
  shows "dv_sm d = sm" "dv_applied d = []" "dv_fatal d = None" "dv_applied_reported d = 0"
    "dv_driver_applied d = Some p \<Longrightarrow> ap_index p \<le> sm_applied sm"
  using assms by (auto simp: opened_driver_def new_driver_def new_inner_def with_installed_base_def split: if_splits)

text \<open>The pump called on one drain after another, until it fails; the entries the drains delivered.\<close>

definition delivered :: "committed_entry list result list \<Rightarrow> committed_entry list" where
  "delivered rs = concat (map (case_sum (\<lambda>_. []) id) rs)"

lemma delivered_simps [simp]: "delivered [] = []" "delivered (Inr b # rs) = b @ delivered rs"
  by (simp_all add: delivered_def)

fun drive_steps ::
  "(bytes \<Rightarrow> digest) \<Rightarrow> json_ops \<Rightarrow> 's apply_store \<Rightarrow> conf_apply \<Rightarrow> committed_entry list result list \<Rightarrow> 's driver
    \<Rightarrow> 's driver \<times> (fatal + unit)" where
  "drive_steps sha256 J S conf [] d = (d, Inr ())"
| "drive_steps sha256 J S conf (b # bs) d =
     (case step_apply sha256 J S conf b d of
        (d1, Inl f) \<Rightarrow> (d1, Inl f)
      | (d1, Inr _) \<Rightarrow> drive_steps sha256 J S conf bs d1)"

definition increasing :: "u64 \<Rightarrow> committed_entry list \<Rightarrow> bool" where
  "increasing base es \<longleftrightarrow> sorted_wrt (<) (base # map ce_index es)"

lemma increasing_append:
  "increasing base (es @ es') \<longleftrightarrow> increasing base es \<and> increasing (if es = [] then base else ce_index (last es)) es'"
proof (induction es arbitrary: base)
  case (Cons e es)
  have "increasing base (e # xs) \<longleftrightarrow> base < ce_index e \<and> increasing (ce_index e) xs" for base e xs
    by (auto simp: increasing_def)
  with Cons show ?case by simp
qed (simp add: increasing_def)

definition watermark :: "u64 \<Rightarrow> applied_position option \<Rightarrow> u64" where
  "watermark base p = (case p of None \<Rightarrow> base | Some p \<Rightarrow> ap_index p)"

text \<open>What a run of successful steps leaves.\<close>

definition stepped ::
  "(bytes \<Rightarrow> digest) \<Rightarrow> json_ops \<Rightarrow> committed_entry list \<Rightarrow> kv_state driver \<Rightarrow> kv_state driver \<Rightarrow> apply_result list \<Rightarrow> bool" where
  "stepped sha256 J es d d' rs \<longleftrightarrow>
     drive_apply sha256 J kv_store es (dv_sm d) = (dv_sm d', Inr rs)
     \<and> dv_applied d' = keep_last APPLIED_RING (dv_applied d @ receipts es rs) \<and> dv_fatal d' = None
     \<and> dv_driver_applied d' = (if es = [] then dv_driver_applied d else Some (entry_position (last es)))
     \<and> dv_applied_reported d' = (if es = [] then dv_applied_reported d else ce_index (last es))"

lemma step_apply_pumped:
  assumes "group_inv ident r w (dv_sm d)" "group_log es" "length (dv_applied d) \<le> APPLIED_RING" "dv_fatal d = None"
    and "increasing (watermark base (dv_driver_applied d)) es" "dv_applied_reported d \<le> watermark base (dv_driver_applied d)"
    and "step_apply sha256 J kv_store conf (Inr es) d = (d', Inr ())"
  shows "\<exists>rs. stepped sha256 J es d d' rs"
proof (cases "es = []")
  case True
  with assms(3,4,7) show ?thesis by (simp add: stepped_def step_apply_def receipts_def)
next
  case False
  with assms(4,7) obtain d1 at where p: "pump_entries sha256 J kv_store conf es \<lparr>ap_term = 0, ap_index = 0\<rparr> d = (d1, Inr at)"
    and d': "d' = publish_driver_applied at (applied_to (ap_index at) d1)"
    by (auto simp: step_apply_def split: prod.splits sum.splits)
  from pump_entries_pumped [OF assms(1-3) p] False obtain rs where
    rs: "pumped sha256 J es d d1 rs" "at = entry_position (last es)" by auto
  have above: "watermark base (dv_driver_applied d) < ap_index at"
    using assms(5) False rs(2) by (auto simp: increasing_def entry_position_def)
  then have "dv_driver_applied d' = Some at" "dv_applied_reported d' = ap_index at"
    using rs(1) assms(6)
    by (auto simp: d' publish_driver_applied_def applied_to_def pumped_def watermark_def split: option.splits)
  with rs False show ?thesis
    by (intro exI [of _ rs]) (auto simp: stepped_def d' publish_driver_applied_def applied_to_def pumped_def assms(4) entry_position_def)
qed

lemma steps_pumped:
  assumes "group_inv ident r w (dv_sm d)" "group_log (delivered bs)" "length (dv_applied d) \<le> APPLIED_RING" "dv_fatal d = None"
    and "increasing (watermark base (dv_driver_applied d)) (delivered bs)"
      "dv_applied_reported d \<le> watermark base (dv_driver_applied d)"
    and "drive_steps sha256 J kv_store conf bs d = (d', Inr ())"
  shows "\<exists>rs. stepped sha256 J (delivered bs) d d' rs"
  using assms
proof (induction bs arbitrary: d r w)
  case Nil
  then show ?case by (simp add: stepped_def receipts_def)
next
  case (Cons ready bs)
  from Cons.prems(7) obtain d1 where s1: "step_apply sha256 J kv_store conf ready d = (d1, Inr ())"
    and s2: "drive_steps sha256 J kv_store conf bs d1 = (d', Inr ())"
    by (auto split: prod.splits sum.splits)
  from s1 Cons.prems(4) obtain b where b: "ready = Inr b"
    by (cases ready) (auto simp: step_apply_def poison_persistence_def Let_def)
  have inc: "increasing (watermark base (dv_driver_applied d)) b"
    "increasing (if b = [] then watermark base (dv_driver_applied d) else ce_index (last b)) (delivered bs)"
    using Cons.prems(5) by (simp_all add: b increasing_append)
  from step_apply_pumped [OF Cons.prems(1) _ Cons.prems(3,4) inc(1) Cons.prems(6) s1 [unfolded b]] Cons.prems(2) obtain rs where
    "stepped sha256 J b d d1 rs" by (auto simp: b)
  then have one: "drive_apply sha256 J kv_store b (dv_sm d) = (dv_sm d1, Inr rs)"
      "dv_applied d1 = keep_last APPLIED_RING (dv_applied d @ receipts b rs)" "dv_fatal d1 = None"
      "dv_driver_applied d1 = (if b = [] then dv_driver_applied d else Some (entry_position (last b)))"
      "dv_applied_reported d1 = (if b = [] then dv_applied_reported d else ce_index (last b))"
    by (simp_all add: stepped_def)
  obtain r1 w1 where inv: "group_inv ident r1 w1 (dv_sm d1)"
    using drive_inv [OF Cons.prems(1) _ one(1)] Cons.prems(2) by (auto simp: b)
  have "length (dv_applied d1) \<le> APPLIED_RING" by (simp add: one(2) keep_last_alt)
  moreover have "increasing (watermark base (dv_driver_applied d1)) (delivered bs)"
      "dv_applied_reported d1 \<le> watermark base (dv_driver_applied d1)"
    using inc(2) one(4,5) Cons.prems(6) by (auto simp: watermark_def entry_position_def split: if_splits)
  ultimately obtain rs' where "stepped sha256 J (delivered bs) d1 d' rs'"
    using Cons.IH [OF inv _ _ one(3) _ _ s2] Cons.prems(2) by (auto simp: b)
  moreover have "receipts (b @ delivered bs) (rs @ rs') = receipts b rs @ receipts (delivered bs) rs'"
    using drive_length [OF one(1)] by (rule receipts_append)
  ultimately show ?case
    using one by (intro exI [of _ "rs @ rs'"]) (auto simp: b stepped_def drive_apply_append keep_last_append)
qed

lemma opened_steps:
  assumes "identity_ok ident" "group_log (es0 @ delivered bs)"
    and "drive_apply sha256 J kv_store es0 (fresh_group kv_store ident kv_empty) = (sm, Inr rs0)"
    and "opened_driver sm d0" "increasing (watermark base (dv_driver_applied d0)) (delivered bs)"
    and "drive_steps sha256 J kv_store conf bs d0 = (d, Inr ())"
  shows "\<exists>rs. stepped sha256 J (delivered bs) d0 d rs"
proof -
  obtain r w where "group_inv ident r w (dv_sm d0)"
    using fresh_reaches [OF assms(1) _ assms(3)] assms(2) opened_driver_fields(1) [OF assms(4)] by auto
  then show ?thesis
    using assms(2,5,6) opened_driver_fields [OF assms(4)]
    by (intro steps_pumped [where base = base and conf = conf]) auto
qed

lemma step_apply_fatal: "step_apply sha256 J S conf es d = (d', Inl f) \<Longrightarrow> dv_fatal d' = Some f"
proof -
  have pump: "pump_entries sha256 J S conf es ls d = (d', Inl f) \<Longrightarrow> dv_fatal d' = Some f" for es ls d
  proof (induction "length es" arbitrary: es ls d rule: less_induct)
    case less
    show ?case
    proof (cases es)
      case (Cons entry tl)
      have more: "length rest \<le> length tl \<Longrightarrow> pump_entries sha256 J S conf rest ls d = (d', Inl f) \<Longrightarrow> dv_fatal d' = Some f"
        for rest ls d
        using less.hyps [of rest ls d] Cons by simp
      from less.prems show ?thesis
        by (cases "ce_kind entry")
          (auto simp: Cons poison_def Let_def split: sum.splits prod.splits if_splits intro: more more [OF coalesce_rest])
    qed (use less.prems in simp)
  qed
  assume "step_apply sha256 J S conf es d = (d', Inl f)"
  with pump show ?thesis 
    by (auto simp: step_apply_def poison_persistence_def Let_def split: option.splits if_splits prod.splits sum.splits)
qed

lemma steps_fatal: "drive_steps sha256 J S conf bs d = (d', Inl f) \<Longrightarrow> dv_fatal d' = Some f"
  by (induction bs arbitrary: d) (auto split: prod.splits sum.splits dest: step_apply_fatal)

text \<open>
  C6. The driver applies the log it is given. A driver opened on any state a data group's log
  reached, with or without an installed base, is fed what the peer's drains return: committed
  entries in batches of any size, replayed from the start of the log or continuing it, or a failure to
  persist them. If every step succeeds, the machine is the one that applies the entries one at a time -
  grouping of raw writes changes nothing - the ring holds exactly the receipts of the last commands, and
  the last entry is both the published watermark and the index reported to the peer. If a step fails,
  in an entry or in the drain, the driver is stopped for good: every later step and every wait reports
  the failure.
\<close>

theorem driver_applies_log:
  assumes "identity_ok ident" and "group_log (es0 @ delivered bs)"
    and "drive_apply sha256 J kv_store es0 (fresh_group kv_store ident kv_empty) = (sm, Inr rs0)"
    and "opened_driver sm d0" and "increasing (watermark base (dv_driver_applied d0)) (delivered bs)"
    and "drive_steps sha256 J kv_store conf bs d0 = (d, res)"
  shows "(res = Inr () \<longrightarrow>
       (\<exists>rs. drive_apply sha256 J kv_store (delivered bs) sm = (dv_sm d, Inr rs)
          \<and> dv_applied d = keep_last APPLIED_RING (receipts (delivered bs) rs)
          \<and> dv_driver_applied d = (if delivered bs = [] then dv_driver_applied d0 else Some (entry_position (last (delivered bs))))
          \<and> dv_applied_reported d = (if delivered bs = [] then 0 else ce_index (last (delivered bs)))))
    \<and> (\<forall>f. res = Inl f \<longrightarrow>
         dv_fatal d = Some f \<and> (\<forall>ready. step_apply sha256 J kv_store conf ready d = (d, Inl f))
         \<and> (\<forall>at. inspect_applied at d = Some (Inl (WaitFailed (RaftError ''driver is poisoned'')))))"
proof (intro conjI impI allI)
  assume "res = Inr ()"
  with opened_steps [OF assms(1-5)] assms(6) opened_driver_fields [OF assms(4)]
  show "\<exists>rs. drive_apply sha256 J kv_store (delivered bs) sm = (dv_sm d, Inr rs)
      \<and> dv_applied d = keep_last APPLIED_RING (receipts (delivered bs) rs)
      \<and> dv_driver_applied d = (if delivered bs = [] then dv_driver_applied d0 else Some (entry_position (last (delivered bs))))
      \<and> dv_applied_reported d = (if delivered bs = [] then 0 else ce_index (last (delivered bs)))"
    unfolding stepped_def by (metis append_Nil)
next
  fix f assume "res = Inl f"
  then show f: "dv_fatal d = Some f" using steps_fatal assms(6) by blast
  show "step_apply sha256 J kv_store conf ready d = (d, Inl f)" for ready using f by (simp add: step_apply_def)
  show "inspect_applied at d = Some (Inl (WaitFailed (RaftError ''driver is poisoned'')))" for at
    using f by (simp add: inspect_applied_def)
qed

section \<open>Receipts\<close>

lemma receipts_nth:
  assumes "length rs = length [e\<leftarrow>es. ce_kind e = CommandEntry]" "i < length rs"
  shows "receipts es rs ! i = \<lparr>re_index = ce_index ([e\<leftarrow>es. ce_kind e = CommandEntry] ! i),
    re_term = ce_term ([e\<leftarrow>es. ce_kind e = CommandEntry] ! i), re_outcome = ar_outcome (rs ! i)\<rparr>"
  using assms by (simp add: receipts_def)

lemma receipts_index:
  assumes "length rs = length [e\<leftarrow>es. ce_kind e = CommandEntry]"
  shows "map re_index (receipts es rs) = map ce_index [e\<leftarrow>es. ce_kind e = CommandEntry]"
  using assms by (intro nth_equalityI) (simp_all add: receipts_def)

lemma increasing_filter: "increasing base es \<Longrightarrow> sorted_wrt (<) (map ce_index (filter P es))"
  by (auto simp: increasing_def sorted_wrt_map intro: sorted_wrt_filter)

lemma sorted_find:
  fixes f :: "'a \<Rightarrow> u64"
  assumes "sorted_wrt (<) (map f xs)" "i < length xs"
  shows "find (\<lambda>x. f x = f (xs ! i)) xs = Some (xs ! i)"
  using assms
proof (induction xs arbitrary: i)
  case (Cons x xs)
  show ?case
  proof (cases i)
    case (Suc j)
    with Cons.prems have "f x < f (xs ! j)" by (simp add: nth_mem)
    then have "f x \<noteq> f (xs ! j)" by simp
    with Cons Suc show ?thesis by simp
  qed simp
qed simp

lemma ring_find:
  assumes "sorted_wrt (<) (map re_index R)" "i < length R"
  shows "find (\<lambda>e. re_index e = re_index (R ! i)) (keep_last n R) =
    (if length R - n \<le> i then Some (R ! i) else None)"
proof -
  let ?k = "length R - n"
  have eq: "keep_last n R = drop ?k R" by (simp add: keep_last_alt)
  show ?thesis
  proof (cases "?k \<le> i")
    case True
    with assms have "sorted_wrt (<) (map re_index (drop ?k R))" "i - ?k < length (drop ?k R)" "drop ?k R ! (i - ?k) = R ! i"
      by (auto simp: drop_map [symmetric] sorted_wrt_drop)
    from sorted_find [OF this(1,2)] this(3) True show ?thesis by (simp add: eq)
  next
    case False
    have "re_index (R ! i) < re_index e" if "e \<in> set (drop ?k R)" for e
    proof -
      from that obtain j where "j < length (drop ?k R)" "e = drop ?k R ! j" by (metis in_set_conv_nth)
      with False assms show ?thesis by (simp add: sorted_wrt_map sorted_wrt_iff_nth_less)
    qed
    then have "find (\<lambda>e. re_index e = re_index (R ! i)) (drop ?k R) = None" by (force simp: find_None_iff)
    with False show ?thesis by (simp add: eq)
  qed
qed

lemma drive_applied_index:
  assumes "group_inv ident r w sm" "group_log es" "drive_apply sha256 J kv_store es sm = (sm', Inr rs)"
  shows "sm_applied sm' = sm_applied sm \<or> (\<exists>e\<in>set es. sm_applied sm' = ce_index e)"
  using assms
proof (induction es arbitrary: r w sm rs)
  case (Cons e es)
  show ?case
  proof (cases "ce_kind e = CommandEntry")
    case False
    with Cons show ?thesis by auto
  next
    case True
    with Cons.prems(3) obtain sm1 r1 rs1 where s1: "sm_apply sha256 J kv_store e sm = (sm1, Inr r1)"
      and s2: "drive_apply sha256 J kv_store es sm1 = (sm', Inr rs1)"
      by (auto split: prod.splits sum.splits)
    then obtain cmd where cmd: "group_cmd cmd"
      "apply_unobserved sha256 J kv_store \<lparr>ap_term = ce_term e, ap_index = ce_index e\<rparr> cmd sm = (sm1, Inr r1)"
      using Cons.prems(2) True by (auto simp: sm_apply_def apply_at_def group_entry_ok_def split: sum.splits)
    from cmd(2) have "(sm_applied sm1 = sm_applied sm \<or> sm_applied sm1 = ce_index e) \<and> (\<exists>r' w'. group_inv ident r' w' sm1)"
      by (cases rule: unobserved_cases [OF Cons.prems(1) cmd(1), consumes 1]) (use Cons.prems(1) in auto)
    then obtain r' w' where "group_inv ident r' w' sm1" "sm_applied sm1 = sm_applied sm \<or> sm_applied sm1 = ce_index e" by blast
    with Cons.IH [OF _ _ s2, of r' w'] Cons.prems(2) show ?thesis by auto
  qed
qed simp

lemma increasing_bounds:
  assumes "increasing base (es @ es')"
  shows "e \<in> set es \<Longrightarrow> base < ce_index e" "e' \<in> set es' \<Longrightarrow> e \<in> set es \<Longrightarrow> ce_index e < ce_index e'"
    "e' \<in> set es' \<Longrightarrow> base < ce_index e'"
    "e \<in> set es \<Longrightarrow> f \<in> set es \<Longrightarrow> ce_index e = ce_index f \<Longrightarrow> e = f"
proof -
  show "e \<in> set es \<Longrightarrow> base < ce_index e" "e' \<in> set es' \<Longrightarrow> e \<in> set es \<Longrightarrow> ce_index e < ce_index e'"
    "e' \<in> set es' \<Longrightarrow> base < ce_index e'"
    using assms by (auto simp: increasing_def sorted_wrt_append)
  have "sorted_wrt (\<lambda>a b. ce_index a < ce_index b) es" using assms by (simp add: increasing_def sorted_wrt_append sorted_wrt_map)
  then show "e \<in> set es \<Longrightarrow> f \<in> set es \<Longrightarrow> ce_index e = ce_index f \<Longrightarrow> e = f"
    by (induction es) auto
qed

lemma inspect_cases:
  assumes "sorted_wrt (<) (map re_index R)" "dv_applied d = keep_last APPLIED_RING R" "inspect_applied at d = Some (Inr out)"
  shows "(\<exists>i<length R. re_index (R ! i) = ap_index at
      \<and> out = (if re_term (R ! i) = ap_term at then wait_outcome at (re_outcome (R ! i)) else Replaced))
    \<or> (out = Replaced \<and> (\<forall>i<length R. re_index (R ! i) \<noteq> ap_index at)
      \<and> (ap_index at \<le> sm_applied (dv_sm d) \<or> (\<exists>p. dv_driver_applied d = Some p \<and> ap_index at \<le> ap_index p)))"
proof (cases "\<exists>i<length R. re_index (R ! i) = ap_index at")
  case True
  then obtain i where i: "i < length R" "re_index (R ! i) = ap_index at" by blast
  have "length R - APPLIED_RING \<le> i"
  proof (rule ccontr)
    assume old: "\<not> length R - APPLIED_RING \<le> i"
    let ?k = "length R - APPLIED_RING"
    have "dv_applied d = R ! ?k # drop (Suc ?k) R" "length (dv_applied d) = APPLIED_RING"
      using assms(2) old i(1) Cons_nth_drop_Suc [of ?k R] by (simp_all add: keep_last_alt APPLIED_RING_def)
    moreover have "re_index (R ! i) < re_index (R ! ?k)"
      using assms(1) old i(1) by (simp add: sorted_wrt_map sorted_wrt_iff_nth_less APPLIED_RING_def)
    ultimately show False
      using ring_find [OF assms(1) i(1), of APPLIED_RING] assms(2,3) i(2) old
      by (auto simp: inspect_applied_def split: if_splits)
  qed
  with ring_find [OF assms(1) i(1), of APPLIED_RING] assms(2,3) i show ?thesis
    by (cases at) (auto simp: inspect_applied_def split: if_splits)
next
  case False
  then have "find (\<lambda>e. re_index e = ap_index at) (dv_applied d) = None"
    using assms(2) by (auto simp: find_None_iff keep_last_alt in_set_conv_nth dest!: in_set_dropD)
  with assms(3) False show ?thesis by (auto simp: inspect_applied_def split: if_splits option.splits)
qed

lemma receipts_sound:
  assumes inv: "group_inv ident r w sm" and log: "group_log es" and inc: "increasing base (es @ future)"
    and run: "drive_apply sha256 J kv_store es sm = (dv_sm d, Inr rs)" and cmds: "[e\<leftarrow>es. ce_kind e = CommandEntry] = cmds"
    and ring: "dv_applied d = keep_last APPLIED_RING (receipts es rs)"
    and wm: "dv_driver_applied d = (if es = [] then installed else Some (entry_position (last es)))"
    and base: "\<forall>p. installed = Some p \<longrightarrow> ap_index p \<le> sm_applied sm"
    and ask: "sm_applied sm < ap_index at" "inspect_applied at d = Some (Inr out)"
  shows "(out = Replaced \<and> (\<forall>e\<in>set (es @ future). ce_kind e = CommandEntry \<longrightarrow> entry_position e \<noteq> at))
    \<or> (\<exists>i<length rs. entry_position (cmds ! i) = at \<and> out = wait_outcome at (ar_outcome (rs ! i)))"
proof -
  have len: "length rs = length cmds" "length (receipts es rs) = length rs" using drive_length [OF run] cmds by (auto simp: receipts_def)
  have sorted: "sorted_wrt (<) (map re_index (receipts es rs))"
    using receipts_index [OF drive_length [OF run]] increasing_filter inc increasing_append by metis
  have entry: "\<exists>i<length rs. cmds ! i = e" if "e \<in> set es" "ce_kind e = CommandEntry" for e
    using that cmds len(1) in_set_conv_nth [of e cmds] by auto
  have mem: "cmds ! i \<in> set es" if "i < length rs" for i
    using that len(1) nth_mem [of i cmds] unfolding cmds [symmetric] by (simp only: set_filter) simp
  have passed: "entry_position e \<noteq> at" if "e \<in> set future" "f \<in> set es" "ap_index at \<le> ce_index f" for e f
    using increasing_bounds(2) [OF inc that(1,2)] that(3) by (auto simp: entry_position_def)
  from inspect_cases [OF sorted ring ask(2)] consider
      i where "i < length rs" "ce_index (cmds ! i) = ap_index at"
        "out = (if ce_term (cmds ! i) = ap_term at then wait_outcome at (ar_outcome (rs ! i)) else Replaced)"
    | "out = Replaced" "\<forall>i<length rs. ce_index (cmds ! i) \<noteq> ap_index at"
        "ap_index at \<le> sm_applied (dv_sm d) \<or> (\<exists>p. dv_driver_applied d = Some p \<and> ap_index at \<le> ap_index p)"
    using len receipts_nth [OF drive_length [OF run]] cmds by auto
  then show ?thesis
  proof cases
    case (1 i)
    show ?thesis
    proof (cases "ce_term (cmds ! i) = ap_term at")
      case True
      with 1 show ?thesis by (intro disjI2 exI [of _ i]) (simp add: entry_position_def)
    next
      case False
      have "entry_position e \<noteq> at" if "e \<in> set (es @ future)" for e
        using that False passed [OF _ mem [OF 1(1)]] 1 increasing_bounds(4) [OF inc _ mem [OF 1(1)], of e]
        by (auto simp: entry_position_def)
      with 1 False show ?thesis by simp
    qed
  next
    case 2
    have "sm_applied (dv_sm d) = sm_applied sm \<or> (\<exists>f\<in>set es. sm_applied (dv_sm d) = ce_index f)"
      using drive_applied_index [OF inv log run] .
    then obtain f where f: "f \<in> set es" "ap_index at \<le> ce_index f"
      using ask(1) 2(3) wm base by (auto simp: entry_position_def split: if_splits intro: last_in_set)
    have "entry_position e \<noteq> at" if "e \<in> set (es @ future)" "ce_kind e = CommandEntry" for e
      using that passed [OF _ f] 2 entry [of e] by (auto simp: entry_position_def)
    with 2 show ?thesis by blast
  qed
qed

lemma receipts_complete:
  assumes "increasing base es" "drive_apply sha256 J S es sm = (sm', Inr rs)" "[e\<leftarrow>es. ce_kind e = CommandEntry] = cmds"
    and "dv_applied d = keep_last APPLIED_RING (receipts es rs)" "dv_fatal d = None" "i < length rs" "length rs \<le> i + APPLIED_RING"
  shows "inspect_applied (entry_position (cmds ! i)) d =
    Some (Inr (wait_outcome (entry_position (cmds ! i)) (ar_outcome (rs ! i))))"
proof -
  have len: "length (receipts es rs) = length rs" using drive_length [OF assms(2)] by (simp add: receipts_def)
  have "sorted_wrt (<) (map re_index (receipts es rs))"
    using receipts_index [OF drive_length [OF assms(2)]] increasing_filter assms(1) by metis
  moreover have "length rs - APPLIED_RING \<le> i" using assms(7) by simp
  ultimately show ?thesis
    using ring_find [of "receipts es rs" i APPLIED_RING] len receipts_nth [OF drive_length [OF assms(2)] assms(6)] assms(3-6)
    by (simp add: inspect_applied_def entry_position_def)
qed

text \<open>
  C7. Receipts are exact. A waiter asks about a position proposed since the driver was opened. If
  the answer is an outcome, the entry the log holds at that very term and index was applied with
  that outcome. If the answer is that the proposal was replaced, no command of the log has that
  position and none ever will. Of the last commands applied, as many as the ring holds, every one is answered with its outcome.
\<close>

theorem receipts_exact:
  assumes "identity_ok ident" and "group_log (es0 @ delivered bs)"
    and "drive_apply sha256 J kv_store es0 (fresh_group kv_store ident kv_empty) = (sm, Inr rs0)"
    and "opened_driver sm d0" and "increasing (watermark base (dv_driver_applied d0)) (delivered bs @ future)"
    and "drive_steps sha256 J kv_store conf bs d0 = (d, Inr ())"
    and "drive_apply sha256 J kv_store (delivered bs) sm = (sm', Inr rs)"
    and "[e\<leftarrow>delivered bs. ce_kind e = CommandEntry] = cmds"
  shows "(\<forall>at out. sm_applied sm < ap_index at \<and> inspect_applied at d = Some (Inr out) \<longrightarrow>
       (out = Replaced \<and> (\<forall>e\<in>set (delivered bs @ future). ce_kind e = CommandEntry \<longrightarrow> entry_position e \<noteq> at))
       \<or> (\<exists>i<length rs. entry_position (cmds ! i) = at \<and> out = wait_outcome at (ar_outcome (rs ! i))))
    \<and> (\<forall>i<length rs. length rs \<le> i + APPLIED_RING \<longrightarrow>
         inspect_applied (entry_position (cmds ! i)) d =
           Some (Inr (wait_outcome (entry_position (cmds ! i)) (ar_outcome (rs ! i)))))"
proof -
  obtain r w where inv: "group_inv ident r w sm" using fresh_reaches [OF assms(1) _ assms(3)] assms(2) by auto
  have inc: "increasing (watermark base (dv_driver_applied d0)) (delivered bs)" and log: "group_log (delivered bs)"
    using assms(2,5) by (simp_all add: increasing_append)
  note new = opened_driver_fields [OF assms(4)]
  from opened_steps [OF assms(1-4) inc assms(6)] obtain rs1 where "stepped sha256 J (delivered bs) d0 d rs1" ..
  then have d: "drive_apply sha256 J kv_store (delivered bs) sm = (dv_sm d, Inr rs)"
    "dv_applied d = keep_last APPLIED_RING (receipts (delivered bs) rs)" "dv_fatal d = None"
    "dv_driver_applied d = (if delivered bs = [] then dv_driver_applied d0 else Some (entry_position (last (delivered bs))))"
    using assms(7) new(1,2) by (auto simp: stepped_def)
  have "\<forall>p. dv_driver_applied d0 = Some p \<longrightarrow> ap_index p \<le> sm_applied sm" using new(5) by simp
  from receipts_sound [OF inv log assms(5) d(1) assms(8) d(2,4) this] receipts_complete [OF inc d(1) assms(8) d(2,3)]
  show ?thesis by blast
qed

section \<open>A sample run\<close>

text \<open>Two raw writes in one batch, the second with a stale fence: the pump groups them.\<close>

definition sample_batch :: "committed_entry list" where
  "sample_batch = [sample_entry 2 (sample_write 1), sample_entry 3 (sample_write 2)]"

definition sample_driver :: "kv_state driver" where
  "sample_driver = new_inner sample_first (Some \<lparr>ap_term = 1, ap_index = 1\<rparr>)"

lemma sample_driver_opened: "opened_driver sample_first sample_driver"
  "dv_driver_applied sample_driver = Some \<lparr>ap_term = 1, ap_index = 1\<rparr>" "dv_sm sample_driver = sample_first"
  "dv_fatal sample_driver = None"
  by (simp_all add: opened_driver_def with_installed_base_def sample_driver_def new_inner_def sample_first_reads
      exI [of _ "\<lparr>ap_term = 1, ap_index = 1\<rparr>"])

lemma sample_batch_pump:
  "\<exists>d. drive_steps sha256 J kv_store conf [Inr sample_batch] sample_driver = (d, Inr ())"
proof -
  have len: "length (cmd_encode (sample_write version)) = 47" for version
    by (simp add: cmd_encode_def sample_write_def put_ops_def len_bytes_def sample_key_def)
  obtain sm' rs where g: "apply_raw_group kv_store group_sample sample_first = (sm', Inr rs)"
    using group_sample_run by (elim exE) (rule that)
  have "coalesce sample_first (sample_entry 2 (sample_write 1)) (sample_write 1) [sample_entry 3 (sample_write 2)] = (group_sample, [])"
    by (simp add: coalesce_def sample_entry_def sample_can_group sample_first_reads len MAX_RAW_GROUP_BYTES_def
        MAX_RAW_GROUP_ENTRIES_def cmd_decode_encode [OF sample_ok(2)] entry_position_def group_sample_def)
  moreover have "apply_commands sha256 J kv_store group_sample sample_first = (sm', Inr rs)"
    using g by (simp add: apply_commands_def group_sample_def)
  moreover have "ce_kind (sample_entry i cmd) = CommandEntry" "ce_data (sample_entry i cmd) = cmd_encode cmd" for i cmd
    by (simp_all add: sample_entry_def)
  moreover have "\<not> (case sample_write 1 of ConfChange _ _ \<Rightarrow> True | _ \<Rightarrow> False)" by (simp add: sample_write_def)
  ultimately show ?thesis
    by (simp add: step_apply_def sample_batch_def sample_driver_opened Let_def cmd_decode_encode [OF sample_ok(2)])
qed

lemma sample_batch_facts:
  "group_log ([sample_entry 1 (DataRangeCmd None range_sample)] @ delivered [Inr sample_batch])"
  "increasing (watermark 0 (dv_driver_applied sample_driver)) (delivered [Inr sample_batch] @ [])"
  "[e\<leftarrow>delivered [Inr sample_batch]. ce_kind e = CommandEntry] = sample_batch"
proof -
  show "group_log ([sample_entry 1 (DataRangeCmd None range_sample)] @ delivered [Inr sample_batch])"
    using sample_first_run(1) by (simp add: sample_batch_def sample_entry_ok [OF sample_ok(2)]) (simp add: group_cmd_def sample_write_def)
  show "increasing (watermark 0 (dv_driver_applied sample_driver)) (delivered [Inr sample_batch] @ [])"
    by (simp add: increasing_def sample_batch_def sample_entry_def sample_driver_opened watermark_def)
  show "[e\<leftarrow>delivered [Inr sample_batch]. ce_kind e = CommandEntry] = sample_batch"
    by (simp add: sample_batch_def sample_entry_def)
qed

lemma sample_batch_drive:
  "\<exists>sm. drive_apply sha256 J kv_store (delivered [Inr sample_batch]) sample_first =
     (sm, Inr [write_ok 2, \<lparr>ar_applied_index = 3, ar_response = None, ar_outcome = FenceRejected 100\<rparr>])"
  using sample_first_reads
  by (simp add: sample_batch_def drive_one [OF sample_ok(2)] sample_step sample_key_not_reserved write_ok_def
      del: drive_apply.simps(2))

theorem driver_applies_log_witness:
  "\<exists>d rs. drive_steps (\<lambda>_. 0) flat_json kv_store (\<lambda>_ _ _. Inr ([], [])) [Inr sample_batch] sample_driver = (d, Inr ())
     \<and> drive_apply (\<lambda>_. 0) flat_json kv_store (delivered [Inr sample_batch]) sample_first = (dv_sm d, Inr rs)
     \<and> dv_driver_applied d = Some \<lparr>ap_term = 1, ap_index = 3\<rparr>"
proof -
  obtain d where d: "drive_steps (\<lambda>_. 0) flat_json kv_store (\<lambda>_ _ _. Inr ([], [])) [Inr sample_batch] sample_driver = (d, Inr ())"
    using sample_batch_pump by blast
  have "increasing (watermark 0 (dv_driver_applied sample_driver)) (delivered [Inr sample_batch])" using sample_batch_facts(2) by simp
  from driver_applies_log [OF sample_identity sample_batch_facts(1) sample_first_run(2) sample_driver_opened(1) this d] d show ?thesis
    by (auto simp: sample_batch_def sample_entry_def entry_position_def simp del: drive_apply.simps(2))
qed

theorem receipts_exact_witness:
  "\<exists>d. drive_steps (\<lambda>_. 0) flat_json kv_store (\<lambda>_ _ _. Inr ([], [])) [Inr sample_batch] sample_driver = (d, Inr ())
     \<and> inspect_applied \<lparr>ap_term = 1, ap_index = 3\<rparr> d = Some (Inr (WaitFenceRejected \<lparr>ap_term = 1, ap_index = 3\<rparr> 100))"
proof -
  obtain d where d: "drive_steps (\<lambda>_. 0) flat_json kv_store (\<lambda>_ _ _. Inr ([], [])) [Inr sample_batch] sample_driver = (d, Inr ())"
    using sample_batch_pump by blast
  obtain sm where sm: "drive_apply (\<lambda>_. 0) flat_json kv_store (delivered [Inr sample_batch]) sample_first =
     (sm, Inr [write_ok 2, \<lparr>ar_applied_index = 3, ar_response = None, ar_outcome = FenceRejected 100\<rparr>])"
    using sample_batch_drive by blast
  have "inspect_applied (entry_position (sample_batch ! 1)) d =
      Some (Inr (wait_outcome (entry_position (sample_batch ! 1)) (FenceRejected 100)))"
    using receipts_exact [OF sample_identity sample_batch_facts(1) sample_first_run(2) sample_driver_opened(1) sample_batch_facts(2) d sm sample_batch_facts(3)]
    by (simp add: APPLIED_RING_def)
  with d show ?thesis by (auto simp: sample_batch_def sample_entry_def entry_position_def wait_outcome_def)
qed

end
