(* ===== verification/Spec2Isabelle.thy ===== *)
theory Spec2Isabelle
  imports Retention LeaseSafety DurableEngine Driver
begin

text \<open>
  A verification library of kv9, a multi-tenant replicated key-value store: the storage engines and the
  write-ahead log (\<open>crates/engine\<close>), the key and record codecs (\<open>crates/common\<close>), the replicated
  commands, ordered apply, the apply half of the node driver and the leader lease (\<open>crates/raft\<close>).

  \<^bold>\<open>How the parts interact.\<close> A client write becomes a \<open>Command\<close>, is encoded into a raft entry and
  committed. The driver of each replica walks the committed entries in order, coalesces neighbouring raw
  writes, and hands them to the state machine. The state machine reads its engine, decides one batch and
  one outcome per entry - fences, TTL rules, range ownership, manifest compare-and-swap - writes the batch
  together with the entry's position, and publishes the index. The driver records the outcome in a ring, where
  waiters look up what became of their proposal. The engine is one of three: \<open>MemEngine\<close> (persistent maps),
  \<open>VersionedMemEngine\<close> (versioned keys, views, incremental collection) or \<open>WalEngine\<close> (a log file in front
  of a versioned index). The leader lease decides when a leader may read without a round of messages.

  \<^bold>\<open>Conventions.\<close> A Rust integer is a word of its width, with wrap-around, checked and saturating
  arithmetic as written in the source; buffer lengths are \<open>nat\<close>. Fallible code returns \<open>error + 'a\<close>, with the
  fixed text of each message. A method on \<open>&mut self\<close> returns the state it leaves together with its result,
  so effects on error paths are part of the model. A \<open>BTreeMap\<close> is a strictly sorted association list
  (\<open>OrdMap\<close>). Loops are structural recursion, \<open>function\<close> with a measure, or \<open>partial_function (option)\<close>
  where termination depends on a parameter; each of the latter is proved to return.

  \<^bold>\<open>Theories and sources.\<close>
  \<^item> \<open>Prelude\<close>, \<open>OrdMap\<close>: machine types, byte encodings, sorted maps, shared lemmas.
  \<^item> \<open>Common\<close>, \<open>KeyCodec\<close>, \<open>DataRange\<close>, \<open>RawTtl\<close>, \<open>Retention\<close>: \<open>ids.rs\<close>, \<open>keyspace.rs\<close>, \<open>error.rs\<close>, \<open>codec.rs\<close>,
    \<open>data_range.rs\<close>, \<open>raw_ttl.rs\<close> with \<open>raw_ttl/clock.rs\<close>, and \<open>retention.rs\<close> of \<open>crates/common\<close>. Codecs are
    proved bijective or canonical; key order is the order of keyspace and user key; the retention pins
    are an invariant-preserving state machine with an exact recovery encoding.
  \<^item> \<open>Batch\<close>, \<open>Crc\<close>, \<open>Wal\<close>: \<open>cf.rs\<close>, \<open>write_batch.rs\<close>, \<open>wal.rs\<close>, \<open>wal_v2.rs\<close> and the checksums of \<open>wal.rs\<close> and \<open>sst.rs\<close>.
    Any history of appends, failures, torn writes and reopens recovers every acknowledged record in
    order; the sliced checksum is the bitwise one.
  \<^item> \<open>EngineContract\<close>: the traits of \<open>lib.rs\<close> and \<open>replicated.rs\<close> as the locale \<open>replicated_engine\<close> over an
    abstract state, one sorted map per column family and the applied position.
  \<^item> \<open>MemEngine\<close>; \<open>Versioned\<close>, \<open>VersionedReads\<close>, \<open>VersionedEngine\<close>, \<open>VersionedGc\<close>, \<open>VersionedViews\<close>: \<open>mem.rs\<close> and
    \<open>versioned.rs\<close>. Both engines satisfy the contract and agree with each other; views read what they read
    when they were opened, under writes, failures and collection; a collection removes exactly what no
    reader can see.
  \<^item> \<open>DurableEngine\<close>: \<open>WalEngine\<close> of \<open>persist.rs\<close> on its single-file log, and the restart of a data group on it.
  \<^item> \<open>Checkpoint\<close>, \<open>Reader\<close>, \<open>Command\<close>, \<open>CommandCodec\<close>: the checkpoint manifest of \<open>checkpoint.rs\<close> and
    \<open>checkpoint/manifest_codec.rs\<close>; the commands of \<open>command.rs\<close> and \<open>command/ttl.rs\<close> and their exact codec.
  \<^item> \<open>StateMachine\<close>: \<open>state_machine.rs\<close> with its modules \<open>data_range.rs\<close>, \<open>raw_ttl.rs\<close>, \<open>manifest_effect.rs\<close> and
    \<open>raw_group.rs\<close>, one \<open>plan_\<close> function per command and \<open>sm_commit\<close> for the positioned write.
  \<^item> \<open>ApplyContract\<close>: the simulation between the state machine over any engine that keeps the contract
    and the state machine over the abstract contents (\<open>kv_store\<close>), which is the specification; replicas on
    different engines agree. What \<open>GroupLog\<close>, \<open>GroupRun\<close>, \<open>GroupTtl\<close>, \<open>ManifestLog\<close>, \<open>GroupLive\<close> and \<open>RawGroup\<close> prove
    of the specification holds of the engines through it (\<open>drive_sim\<close>, \<open>drive_sim_or\<close>).
  \<^item> \<open>RawGroup\<close>, \<open>GroupLog\<close>, \<open>GroupRun\<close>, \<open>GroupTtl\<close>, \<open>ManifestLog\<close>, \<open>GroupLive\<close>: a data group's log from its first entry.
    Grouping equals one-by-one apply; raw keys change only inside the unsealed range with the current
    epoch; a range is published once and sealed once; TTL activation is permanent and cleanup exact; the
    manifest is the list of applied changes; well-formed logs are applied to their end.
  \<^item> \<open>Driver\<close>: the apply half of \<open>driver.rs\<close>: the pump applies the log it is given, and receipts are exact.
  \<^item> \<open>Lease\<close>, \<open>LeaseSystem\<close>, \<open>LeaseSafety\<close>: \<open>lease.rs\<close> and the system of one leader, its voters, drifting clocks,
    crashes and lost messages; a read under the lease excludes every later election.

  \<^bold>\<open>Parameters.\<close> Code that is not in the repository is an argument: the tree crates as \<open>rpds_ops\<close> and \<open>bbtree_ops\<close>
  with the laws \<open>rpds_laws\<close> and \<open>bbtree_laws\<close> (an insertion of the latter may fail), the JSON library and the
  allocator of its output as \<open>json_ops\<close> with \<open>json_laws\<close>, SHA-256 as a function, the outcome of file I/O,
  what a raft drain returns, and the application of a configuration entry. Sorted lists and a flat
  encoding are instances of the laws; the examples use them.

  \<^bold>\<open>Bounds.\<close> Versions and counters are 64-bit words, so histories are bounded by \<open>2 ^ 64\<close> mutations
  (\<open>log_weight\<close>), and the view registry counts in 32 bits, so fewer than \<open>2 ^ 32\<close> views are open at once
  (\<open>views_fit\<close>). No definition takes fuel.

  \<^bold>\<open>Not modelled.\<close> The raft library and the peer around it, transport, storage of the raft log, threads,
  locks and wakers (a critical section is one step; the two sections of a range deletion are two), the segmented log and
  checkpoint upload, object stores and sorted string tables, the metadata catalog, the server and the client
  interfaces: system effects, third-party code, or a second program of the same size.
\<close>

end
